(* ===== verification/Prelude.thy ===== *)
theory Prelude
  imports Main "HOL-Library.Word" "HOL-Library.Monad_Syntax" "HOL-Library.Code_Target_Numeral"
begin

text \<open>
  Shared vocabulary of the development: bytes and byte buffers as the C code sees them,
  little-endian integers, fixed-width signed ranges, and the partiality monad.

  Conventions used by every component theory.
  \<^item> A C buffer is a \<open>byte list\<close>; a pointer into it is an offset (\<open>nat\<close>).
  \<^item> A function that can hit a failing \<open>assert\<close> or touch memory outside its buffer
    returns an \<open>option\<close>: \<open>None\<close> is \<^emph>\<open>the process dies or the behaviour is undefined\<close>.
    Proving that a call returns \<open>Some\<close> is therefore a memory-safety statement.
  \<^item> \<open>int64_t\<close> values are \<open>int\<close>s in the range \<open>INT64_MIN..INT64_MAX\<close>; conversions
    between widths are written out.
\<close>

named_theorems mem_simps \<open>reads and writes of byte buffers\<close>
named_theorems le_simps \<open>little-endian integers\<close>

type_synonym byte = "8 word"
type_synonym bytes = "byte list"

section \<open>Machine integer ranges\<close>

abbreviation (input) INT16_MIN :: int where "INT16_MIN \<equiv> - 32768"
abbreviation (input) INT16_MAX :: int where "INT16_MAX \<equiv> 32767"
abbreviation (input) INT32_MIN :: int where "INT32_MIN \<equiv> - 2147483648"
abbreviation (input) INT32_MAX :: int where "INT32_MAX \<equiv> 2147483647"
abbreviation (input) INT64_MIN :: int where "INT64_MIN \<equiv> - 9223372036854775808"
abbreviation (input) INT64_MAX :: int where "INT64_MAX \<equiv> 9223372036854775807"
abbreviation (input) UINT64_MAX :: int where "UINT64_MAX \<equiv> 18446744073709551615"

definition is_int64 :: "int \<Rightarrow> bool" where
  "is_int64 v \<longleftrightarrow> INT64_MIN \<le> v \<and> v \<le> INT64_MAX"

text \<open>Reading a \<open>w\<close>-bit pattern as two's complement.\<close>

definition to_signed :: "nat \<Rightarrow> int \<Rightarrow> int" where
  "to_signed w u = (if u < 2 ^ (w - 1) then u else u - 2 ^ w)"

lemma to_signed_mod:
  assumes "0 < w" "- (2 ^ (w - 1)) \<le> v" "v < 2 ^ (w - 1)"
  shows "to_signed w (v mod 2 ^ w) = v"
proof -
  have p: "(2::int) ^ w = 2 * 2 ^ (w - 1)"
    using assms(1) by (cases w) simp_all
  show ?thesis
  proof (cases "0 \<le> v")
    case True
    then have "v mod 2 ^ w = v"
      using assms p by (intro mod_pos_pos_trivial) auto
    then show ?thesis using assms by (simp add: to_signed_def)
  next
    case False
    have "v mod 2 ^ w = (v + 2 ^ w) mod 2 ^ w" by simp
    also have "\<dots> = v + 2 ^ w"
      using False assms p by (intro mod_pos_pos_trivial) auto
    finally show ?thesis using False assms p by (simp add: to_signed_def)
  qed
qed

section \<open>Bytes of little-endian integers\<close>

fun le_bytes :: "nat \<Rightarrow> int \<Rightarrow> bytes" where
  "le_bytes 0 v = []"
| "le_bytes (Suc n) v = word_of_int v # le_bytes n (v div 256)"

fun le_val :: "bytes \<Rightarrow> int" where
  "le_val [] = 0"
| "le_val (b # bs) = uint b + 256 * le_val bs"

lemma length_le_bytes [simp]: "length (le_bytes n v) = n"
  by (induction n arbitrary: v) simp_all

lemma uint_byte_bounds: "0 \<le> uint (b :: byte)" "uint (b :: byte) < 256"
  using uint_lt2p [of b] by simp_all

lemma le_val_bounds: "0 \<le> le_val bs \<and> le_val bs < 256 ^ length bs"
proof (induction bs)
  case Nil
  then show ?case by simp
next
  case (Cons b bs)
  then show ?case using uint_byte_bounds [of b] by auto
qed

lemma le_val_nonneg [simp]: "0 \<le> le_val bs"
  using le_val_bounds by simp

lemma le_val_le_bytes [le_simps]: "le_val (le_bytes n v) = v mod 256 ^ n"
proof (induction n arbitrary: v)
  case 0
  then show ?case by simp
next
  case (Suc n)
  have "v mod (256 * 256 ^ n) = v mod 256 + 256 * (v div 256 mod 256 ^ n)"
    by (simp add: zmod_zmult2_eq)
  then show ?case
    by (simp add: Suc.IH uint_word_of_int mult.commute)
qed

lemma le_bytes_le_val [le_simps]: "le_bytes (length bs) (le_val bs) = bs"
proof (induction bs)
  case Nil
  then show ?case by simp
next
  case (Cons b bs)
  have "(uint b + 256 * le_val bs) div 256 = le_val bs"
    using uint_byte_bounds [of b] by simp
  moreover have "word_of_int (uint b + 256 * le_val bs) = b"
  proof -
    have "(256::int) = 2 ^ LENGTH(8)" by simp
    then have "(word_of_int (256 * le_val bs) :: byte) = 0"
      by (simp only: word_of_int_2p_len wi_hom_mult [symmetric] mult_zero_left)
    then show ?thesis by (simp add: wi_hom_add [symmetric])
  qed
  ultimately show ?case using Cons.IH by simp
qed

section \<open>Bit masks on bytes\<close>

unbundle bit_operations_syntax

lemma and_high_mask: "(u :: int) AND push_bit k (mask j) = (u div 2 ^ k mod 2 ^ j) * 2 ^ k"
proof -
  have "u AND push_bit k (mask j) = push_bit k (take_bit j (drop_bit k u))"
    by (rule bit_eqI) (auto simp: bit_simps)
  then show ?thesis by (simp add: push_bit_eq_mult take_bit_eq_mod drop_bit_eq_div)
qed

lemma byte_and_high:
  fixes b c :: byte
  assumes "uint c = push_bit k (mask j)" "uint b div 2 ^ k < 2 ^ j"
  shows "uint (b AND c) = (uint b div 2 ^ k) * 2 ^ k"
proof -
  have "0 \<le> uint b div 2 ^ k" using uint_byte_bounds [of b] by (simp add: pos_imp_zdiv_nonneg_iff)
  then have "uint b div 2 ^ k mod 2 ^ j = uint b div 2 ^ k"
    using assms(2) by (intro mod_pos_pos_trivial)
  then show ?thesis
    using and_high_mask [of "uint b" k j] assms(1) by (simp add: unsigned_and_eq)
qed

lemma byte_and_low:
  fixes b c :: byte
  shows "uint c = mask k \<Longrightarrow> uint (b AND c) = uint b mod 2 ^ k"
  by (simp add: unsigned_and_eq flip: take_bit_eq_mask) (simp add: take_bit_eq_mod)

lemma unat_of_uint_mod: "uint (x :: byte) = uint (b :: byte) mod int m \<Longrightarrow> unat x = unat b mod m"
  by (metis of_nat_eq_iff of_nat_mod uint_nat)

lemma byte_low_masks:
  "unat (b AND 0x7F :: byte) = unat b mod 128" "unat (b AND 0x3F :: byte) = unat b mod 64"
  "unat (b AND 0x1F :: byte) = unat b mod 32" "unat (b AND 0xF :: byte) = unat b mod 16"
  by (rule unat_of_uint_mod, subst byte_and_low [of _ 7], simp_all add: mask_eq_exp_minus_1)
    (rule unat_of_uint_mod, subst byte_and_low [of _ 6], simp_all add: mask_eq_exp_minus_1,
     rule unat_of_uint_mod, subst byte_and_low [of _ 5], simp_all add: mask_eq_exp_minus_1,
     rule unat_of_uint_mod, subst byte_and_low [of _ 4], simp_all add: mask_eq_exp_minus_1)

text \<open>Setting high bits above a small value is an addition.\<close>

lemma or_high_bits:
  fixes x :: int
  assumes "0 \<le> x" "x < 2 ^ k" "m mod 2 ^ k = 0" 
  shows "x OR m = x + m"
proof -
  have x: "take_bit k x = x" and m: "take_bit k m = 0"
    using assms by (simp_all add: take_bit_eq_mod)
  have "\<not> (bit x n \<and> bit m n)" for n
  proof (cases "n < k")
    case True
    then have "\<not> bit m n" using bit_take_bit_iff [of k m n] m by simp
    then show ?thesis by simp
  next
    case False
    then have "\<not> bit x n" using bit_take_bit_iff [of k x n] x by simp
    then show ?thesis by simp
  qed
  then have "x AND m = 0" by (intro bit_eqI) (simp add: bit_and_iff)
  then show ?thesis using plus_and_or [of x m] by simp
qed

section \<open>Reads and writes of a byte buffer\<close>

definition mem_get :: "'a list \<Rightarrow> nat \<Rightarrow> 'a option" where
  "mem_get buf i = (if i < length buf then Some (buf ! i) else None)"

definition mem_read :: "'a list \<Rightarrow> nat \<Rightarrow> nat \<Rightarrow> 'a list option" where
  "mem_read buf off n = (if off + n \<le> length buf then Some (take n (drop off buf)) else None)"

definition mem_write :: "'a list \<Rightarrow> nat \<Rightarrow> 'a list \<Rightarrow> 'a list option" where
  "mem_write buf off xs =
     (if off + length xs \<le> length buf
      then Some (take off buf @ xs @ drop (off + length xs) buf) else None)"

text \<open>\<open>memmove(buf+dst, buf+src, n)\<close>: the source is read before the target is written.\<close>

definition mem_move :: "'a list \<Rightarrow> nat \<Rightarrow> nat \<Rightarrow> nat \<Rightarrow> 'a list option" where
  "mem_move buf dst src n = do { xs \<leftarrow> mem_read buf src n; mem_write buf dst xs }"

text \<open>
  \<open>realloc\<close> to \<open>n\<close> bytes: the common prefix is kept, fresh bytes are indeterminate and
  given by the parameter \<open>junk\<close>.
\<close>

definition mem_resize :: "(nat \<Rightarrow> 'a) \<Rightarrow> 'a list \<Rightarrow> nat \<Rightarrow> 'a list" where
  "mem_resize junk buf n = take n buf @ map junk [length buf..<n]"

definition c_assert :: "bool \<Rightarrow> unit option" where
  "c_assert b = (if b then Some () else None)"

lemma c_assert_simps [simp]: "c_assert True = Some ()" "c_assert False = None"
  by (simp_all add: c_assert_def)

lemma length_mem_resize [simp]: "length (mem_resize junk buf n) = n"
  by (simp add: mem_resize_def)

lemma mem_write_length: "mem_write buf off xs = Some buf' \<Longrightarrow> length buf' = length buf"
  by (auto simp: mem_write_def split: if_splits)

lemma mem_read_append [mem_simps]:
  "length xs = off \<Longrightarrow> length ys = n \<Longrightarrow> mem_read (xs @ ys @ zs) off n = Some ys"
  by (simp add: mem_read_def)

lemma mem_write_append [mem_simps]:
  "length xs = off \<Longrightarrow> length ys = length ys' \<Longrightarrow>
     mem_write (xs @ ys @ zs) off ys' = Some (xs @ ys' @ zs)"
  by (simp add: mem_write_def)

section \<open>Loops that may not end\<close>

text \<open>
  A C loop whose termination is not structural: one iteration leaves with a result (\<open>Inl\<close>) or
  continues in a new state (\<open>Inr\<close>). Not returning is the value \<open>None\<close>, like a failed assertion.
\<close>

partial_function (option) c_loop :: "('s \<Rightarrow> ('r + 's) option) \<Rightarrow> 's \<Rightarrow> 'r option" where
  [code]: "c_loop step s =
     (case step s of
        None \<Rightarrow> None
      | Some x \<Rightarrow> (case x of Inl r \<Rightarrow> Some r | Inr s' \<Rightarrow> c_loop step s'))"

lemma c_loop_step:
  "step s = Some (Inl r) \<Longrightarrow> c_loop step s = Some r"
  "step s = Some (Inr s') \<Longrightarrow> c_loop step s = c_loop step s'"
  "step s = None \<Longrightarrow> c_loop step s = None"
  by (subst c_loop.simps, simp)+

text \<open>Total correctness: an invariant, a measure, and what holds on leaving.\<close>

lemma c_loop_rule:
  fixes m :: "'s \<Rightarrow> nat"
  assumes inv: "I s"
    and step: "\<And>s. I s \<Longrightarrow> (\<exists>r. step s = Some (Inl r) \<and> Q r) \<or> (\<exists>s'. step s = Some (Inr s') \<and> I s' \<and> m s' < m s)"
  shows "\<exists>r. c_loop step s = Some r \<and> Q r"
  using inv
proof (induction "m s" arbitrary: s rule: less_induct)
  case less
  then show ?case using step [OF less.prems] by (auto simp: c_loop_step)
qed

end
