(* ===== verification/Util_Num.thy ===== *)
theory Util_Num
  imports Prelude
begin

text \<open>
  Integer/decimal conversion of \<open>src/redis/redis-7.2.3/src/util.c\<close>: the digit counters
  \<open>digits10\<close> and \<open>sdigits10\<close>, the printers \<open>ull2string\<close> and \<open>ll2string\<close> (writing into a
  caller's buffer, two digits at a time from a 200 character table), and the strict parsers
  \<open>string2ll\<close> and \<open>string2l\<close>. The reference notion is \<open>ll_repr\<close>, the canonical decimal
  representation; printing produces it and the parser accepts nothing else.
\<close>

section \<open>Counting digits\<close>

fun digits10 :: "nat \<Rightarrow> nat" where
  "digits10 v =
     (if v < 10 then 1
      else if v < 100 then 2
      else if v < 1000 then 3
      else if v < 1000000000000 then
        (if v < 100000000 then
           (if v < 1000000 then
              (if v < 10000 then 4 else 5 + of_bool (v \<ge> 100000))
            else 7 + of_bool (v \<ge> 10000000))
         else if v < 10000000000 then 9 + of_bool (v \<ge> 1000000000)
         else 11 + of_bool (v \<ge> 100000000000))
      else 12 + digits10 (v div 1000000000000))"

declare digits10.simps [simp del]

definition sdigits10 :: "int \<Rightarrow> nat" where
  "sdigits10 v =
     (if v < 0 then
        (let uv = (if v \<noteq> INT64_MIN then nat (- v) else nat INT64_MAX + 1)
         in digits10 uv + 1)
      else digits10 (nat v))"

section \<open>Printing\<close>

text \<open>The two-digit table: \<open>digits[2*i]\<close> and \<open>digits[2*i+1]\<close> are the digits of \<open>i\<close>.\<close>

definition digits_table :: bytes where
  "digits_table = map (\<lambda>c. of_char c)
    (''0001020304050607080910111213141516171819'' @
     ''2021222324252627282930313233343536373839'' @
     ''4041424344454647484950515253545556575859'' @
     ''6061626364656667686970717273747576777879'' @
     ''8081828384858687888990919293949596979899'' @ [CHR 0x00])"

definition u32_sub :: "nat \<Rightarrow> nat \<Rightarrow> nat" where
  "u32_sub a b = (a + (2 ^ 32 - b)) mod 2 ^ 32"

definition mem_set :: "'a list \<Rightarrow> nat \<Rightarrow> 'a \<Rightarrow> 'a list option" where
  "mem_set buf i x = mem_write buf i [x]"

fun ull2string_loop :: "bytes \<Rightarrow> nat \<Rightarrow> nat \<Rightarrow> (bytes \<times> nat \<times> nat) option" where
  "ull2string_loop dst next value =
     (if value \<ge> 100 then
        let i = (value mod 100) * 2 in
        do { d1 \<leftarrow> mem_get digits_table (i + 1);
             dst \<leftarrow> mem_set dst next d1;
             d0 \<leftarrow> mem_get digits_table i;
             dst \<leftarrow> mem_set dst (u32_sub next 1) d0;
             ull2string_loop dst (u32_sub next 2) (value div 100) }
      else Some (dst, next, value))"

declare ull2string_loop.simps [simp del]

text \<open>
  \<open>dst\<close> is the destination buffer, of which \<open>dstlen\<close> bytes may be used. The result is
  the buffer and the returned length, 0 on error (with an empty C string in the buffer).
\<close>

definition ull2string :: "bytes \<Rightarrow> nat \<Rightarrow> nat \<Rightarrow> (bytes \<times> nat) option" where
  "ull2string dst dstlen value =
     (let length = digits10 value in
      if length \<ge> dstlen then
        (if dstlen > 0 then do { dst \<leftarrow> mem_set dst 0 0; Some (dst, 0) }
         else Some (dst, 0))
      else
        let next = u32_sub length 1 in
        do { dst \<leftarrow> mem_set dst (next + 1) 0;
             (dst, next, value) \<leftarrow> ull2string_loop dst next value;
             (if value < 10 then
                do { dst \<leftarrow> mem_set dst next (48 + of_nat value); Some (dst, length) }
              else
                let i = value * 2 in
                do { d1 \<leftarrow> mem_get digits_table (i + 1);
                     dst \<leftarrow> mem_set dst next d1;
                     d0 \<leftarrow> mem_get digits_table i;
                     dst \<leftarrow> mem_set dst (u32_sub next 1) d0;
                     Some (dst, length) }) })"

definition ll2string :: "bytes \<Rightarrow> nat \<Rightarrow> int \<Rightarrow> (bytes \<times> nat) option" where
  "ll2string dst dstlen svalue =
     (if svalue < 0 then
        let value = (if svalue \<noteq> INT64_MIN then nat (- svalue) else nat INT64_MAX + 1) in
        if dstlen < 2 then
          (if dstlen > 0 then do { dst \<leftarrow> mem_set dst 0 0; Some (dst, 0) }
           else Some (dst, 0))
        else
          do { dst \<leftarrow> mem_set dst 0 45;
               sign \<leftarrow> mem_read dst 0 1;
               (rest, len) \<leftarrow> ull2string (drop 1 dst) (dstlen - 1) value;
               Some (sign @ rest, if len = 0 then 0 else len + 1) }
      else ull2string dst dstlen (nat svalue))"

section \<open>Parsing\<close>

abbreviation (input) LONG_STR_SIZE :: nat where "LONG_STR_SIZE \<equiv> 21"

text \<open>The digit loop of \<open>string2ll\<close>: the accumulated value and the unread rest.\<close>

fun string2ll_loop :: "int \<Rightarrow> bytes \<Rightarrow> (int \<times> bytes) option" where
  "string2ll_loop v [] = Some (v, [])"
| "string2ll_loop v (c # p) =
     (if c \<ge> 48 \<and> c \<le> 57 then
        (if v > UINT64_MAX div 10 then None
         else let v = v * 10 in
           if v > UINT64_MAX - (uint c - 48) then None
           else string2ll_loop (v + (uint c - 48)) p)
      else Some (v, c # p))"

definition string2ll :: "bytes \<Rightarrow> int option" where
  "string2ll s =
     (if length s = 0 \<or> length s \<ge> LONG_STR_SIZE then None
      else if length s = 1 \<and> hd s = 48 then Some 0
      else
        let negative = (hd s = 45); p = (if negative then tl s else s) in
        if p = [] then None
        else if \<not> (hd p \<ge> 49 \<and> hd p \<le> 57) then None
        else
          case string2ll_loop (uint (hd p) - 48) (tl p) of
            None \<Rightarrow> None
          | Some (v, rest) \<Rightarrow>
              if rest \<noteq> [] then None
              else if negative then
                (if v > - (INT64_MIN + 1) + 1 then None
                 else Some (to_signed 64 ((- v) mod 2 ^ 64)))
              else if v > INT64_MAX then None
              else Some v)"

text \<open>\<open>long\<close> is 64 bits wide on the supported platforms, so the second range check is
  against the same bounds.\<close>

definition string2l :: "bytes \<Rightarrow> int option" where
  "string2l s =
     (case string2ll s of
        None \<Rightarrow> None
      | Some llval \<Rightarrow> if llval < INT64_MIN \<or> llval > INT64_MAX then None else Some llval)"

section \<open>The reference notion: canonical decimals\<close>

fun dec :: "nat \<Rightarrow> bytes" where
  "dec n = (if n < 10 then [48 + of_nat n] else dec (n div 10) @ [48 + of_nat (n mod 10)])"

declare dec.simps [simp del]

definition ll_repr :: "int \<Rightarrow> bytes" where
  "ll_repr v = (if v < 0 then 45 # dec (nat (- v)) else dec (nat v))"

section \<open>Decimal representations\<close>

lemma dec_small: "n < 10 \<Longrightarrow> dec n = [48 + of_nat n]"
  by (simp add: dec.simps)

lemma dec_step: "10 \<le> n \<Longrightarrow> dec n = dec (n div 10) @ [48 + of_nat (n mod 10)]"
  by (subst dec.simps) simp

lemma dec_not_Nil [simp]: "dec n \<noteq> []"
  by (cases "n < 10") (simp_all add: dec_small dec_step)

lemma length_dec_shift: "10 ^ k \<le> n \<Longrightarrow> length (dec n) = k + length (dec (n div 10 ^ k))"
proof (induction k arbitrary: n)
  case 0
  then show ?case by simp
next
  case (Suc k)
  then have "10 \<le> n" "10 ^ k \<le> n div 10"
    using order_trans [of 10 "10 ^ Suc k" n] by (simp_all add: less_eq_div_iff_mult_less_eq mult.commute)
  then show ?case
    using Suc.IH [of "n div 10"] by (simp add: dec_step div_mult2_eq)
qed

lemma length_dec_range: "10 ^ k \<le> n \<Longrightarrow> n < 10 ^ Suc k \<Longrightarrow> length (dec n) = Suc k"
proof -
  assume "10 ^ k \<le> n" "n < 10 ^ Suc k"
  then have "n div 10 ^ k < 10" by (simp add: div_less_iff_less_mult mult.commute)
  then show ?thesis
    using length_dec_shift [OF \<open>10 ^ k \<le> n\<close>] by (simp add: dec_small)
qed

lemma length_dec_le: "n < 10 ^ Suc k \<Longrightarrow> length (dec n) \<le> Suc k"
proof (induction k arbitrary: n)
  case 0
  then show ?case by (simp add: dec_small)
next
  case (Suc k)
  then show ?case
    using length_dec_range [of "Suc k" n] by (cases "n < 10 ^ Suc k") (simp_all add: le_Suc_eq)
qed

lemma digits10_length_dec: "digits10 v = length (dec v)"
proof (induction v rule: digits10.induct)
  case (1 v)
  note ranges = length_dec_range [of 1 v] length_dec_range [of 2 v] length_dec_range [of 3 v]
    length_dec_range [of 4 v] length_dec_range [of 5 v] length_dec_range [of 6 v]
    length_dec_range [of 7 v] length_dec_range [of 8 v] length_dec_range [of 9 v]
    length_dec_range [of 10 v] length_dec_range [of 11 v]
  consider "v < 10" | "v \<ge> 10" "v < 100" | "v \<ge> 100" "v < 1000"
    | "v \<ge> 1000" "v < 10000" | "v \<ge> 10000" "v < 100000" | "v \<ge> 100000" "v < 1000000"
    | "v \<ge> 1000000" "v < 10000000" | "v \<ge> 10000000" "v < 100000000"
    | "v \<ge> 100000000" "v < 1000000000" | "v \<ge> 1000000000" "v < 10000000000"
    | "v \<ge> 10000000000" "v < 100000000000" | "v \<ge> 100000000000" "v < 1000000000000"
    | "v \<ge> 1000000000000"
    by (meson leI)
  then show ?case
  proof cases
    case 13
    then have "digits10 v = 12 + digits10 (v div 1000000000000)"
      by (subst digits10.simps) simp
    then show ?thesis
      using 13 1 length_dec_shift [of 12 v] by simp
  qed (simp_all add: digits10.simps [of v] dec_small ranges)
qed

lemma u32_sub_small [simp]: "b \<le> a \<Longrightarrow> a < 2 ^ 32 \<Longrightarrow> u32_sub a b = a - b"
proof -
  assume a: "b \<le> a" "a < 2 ^ 32"
  then have "a + (2 ^ 32 - b) = (a - b) + 2 ^ 32" by simp
  then show ?thesis
    unfolding u32_sub_def by (simp only: mod_add_self2) (use a in simp)
qed

lemma digits_table_eq:
  "digits_table = concat (map (\<lambda>i. [48 + of_nat (i div 10), 48 + of_nat (i mod 10)]) [0..<100]) @ [0]"
  by code_simp

lemma length_concat_pairs: "length (concat (map (\<lambda>i. [f i, g i]) xs)) = 2 * length xs"
  by (induction xs) simp_all

lemma concat_pairs_nth:
  "i < n \<Longrightarrow> concat (map (\<lambda>i. [f i, g i]) [0..<n]) ! (2 * i) = f i
     \<and> concat (map (\<lambda>i. [f i, g i]) [0..<n]) ! (2 * i + 1) = g i"
  by (induction n) (auto simp: nth_append length_concat_pairs less_Suc_eq)

lemma mem_get_digits:
  assumes "i < 100"
  shows "mem_get digits_table (i * 2) = Some (48 + of_nat (i div 10))"
    and "mem_get digits_table (Suc (i * 2)) = Some (48 + of_nat (i mod 10))"
  using assms concat_pairs_nth [OF assms, where f = "\<lambda>i. 48 + of_nat (i div 10) :: byte"
    and g = "\<lambda>i. 48 + of_nat (i mod 10)"]
  by (simp_all add: mem_get_def digits_table_eq length_concat_pairs nth_append mult.commute
      del: upt.simps upt_rec_numeral)

lemma dec_two: "10 \<le> n \<Longrightarrow> n < 100 \<Longrightarrow> dec n = [48 + of_nat (n div 10), 48 + of_nat (n mod 10)]"
  by (simp add: dec_step dec_small)

lemma dec_hundred:
  "100 \<le> n \<Longrightarrow> dec n = dec (n div 100) @ [48 + of_nat (n mod 100 div 10), 48 + of_nat (n mod 100 mod 10)]"
proof -
  assume "100 \<le> n"
  then have "dec n = dec (n div 10 div 10) @ [48 + of_nat (n div 10 mod 10), 48 + of_nat (n mod 10)]"
    by (simp add: dec_step [of n] dec_step [of "n div 10"])
  moreover have "n div 10 div 10 = n div 100" "n div 10 mod 10 = n mod 100 div 10" "n mod 10 = n mod 100 mod 10"
    by (simp_all add: div_mult2_eq [symmetric] mod_mult2_eq [of n 10 10, simplified] mod_mod_cancel)
  ultimately show ?thesis by simp
qed

lemma mem_set_append:
  "length xs = i \<Longrightarrow> mem_set (xs @ y # zs) i x = Some (xs @ x # zs)"
  using mem_write_append [of xs i "[y]" "[x]" zs] by (simp add: mem_set_def)

text \<open>Writing the last two digits of a field of two or more bytes.\<close>

lemma mem_set_two:
  assumes "length xs + 1 = next" "next < 2 ^ 32"
  shows "(do { d1 \<leftarrow> Some b; dst \<leftarrow> mem_set (xs @ y # z # zs) next d1;
               d0 \<leftarrow> Some a; dst \<leftarrow> mem_set dst (u32_sub next 1) d0; k dst })
         = k (xs @ a # b # zs)"
  using assms mem_set_append [of "xs @ [y]" "next" z zs b] mem_set_append [of xs "length xs" y "b # zs" a]
  by auto

lemma split_two:
  assumes "length fld = Suc (Suc m)"
  obtains xs y z where "fld = xs @ [y, z]" "length xs = m"
proof -
  from assms obtain ys z where ys: "fld = ys @ [z]" by (cases fld rule: rev_cases) auto
  with assms obtain xs y where "ys = xs @ [y]" by (cases ys rule: rev_cases) auto
  with ys assms show thesis using that [of xs y z] by simp
qed

lemma ull2string_loop_correct:
  "length fld = length (dec v) \<Longrightarrow> length (dec v) < 2 ^ 32 \<Longrightarrow>
   \<exists>fld' ds v'. ull2string_loop (fld @ rest) (length (dec v) - 1) v
       = Some (fld' @ ds @ rest, length (dec v') - 1, v')
     \<and> v' < 100 \<and> length fld' = length (dec v') \<and> dec v = dec v' @ ds"
proof (induction v arbitrary: fld rest rule: less_induct)
  case (less v)
  show ?case
  proof (cases "100 \<le> v")
    case False
    then show ?thesis using less.prems by (subst ull2string_loop.simps) auto
  next
    case True
    let ?a = "48 + of_nat (v mod 100 div 10)" and ?b = "48 + of_nat (v mod 100 mod 10)"
    have dec: "dec v = dec (v div 100) @ [?a, ?b]" using True by (rule dec_hundred)
    then obtain xs y z where fld: "fld = xs @ [y, z]" and xs: "length xs = length (dec (v div 100))"
      using less.prems(1) split_two [of fld "length (dec (v div 100))"] by auto
    have nx: "length xs + 1 = length (dec v) - 1" "length (dec v) - 1 < 2 ^ 32"
      using dec xs less.prems(2) by auto
    have "ull2string_loop (fld @ rest) (length (dec v) - 1) v
        = ull2string_loop (xs @ ?a # ?b # rest) (u32_sub (length (dec v) - 1) 2) (v div 100)"
      using True mem_set_two [OF nx, of ?b y z rest ?a]
      by (subst ull2string_loop.simps) (simp add: Let_def mem_get_digits fld)
    also have "u32_sub (length (dec v) - 1) 2 = length (dec (v div 100)) - 1"
      using nx dec by (subst u32_sub_small) (auto simp: Suc_le_eq)
    finally have "ull2string_loop (fld @ rest) (length (dec v) - 1) v
        = ull2string_loop (xs @ [?a, ?b] @ rest) (length (dec (v div 100)) - 1) (v div 100)"
      by simp
    moreover have "length (dec (v div 100)) < 2 ^ 32" using less.prems(2) dec by simp
    ultimately show ?thesis
      using less.IH [of "v div 100" xs "[?a, ?b] @ rest"] True xs dec by fastforce
  qed
qed

lemma ull2string_correct:
  assumes "length (dec v) < dstlen" "dstlen \<le> length dst" "length (dec v) < 2 ^ 32"
  shows "ull2string dst dstlen v
       = Some (dec v @ 0 # drop (Suc (length (dec v))) dst, length (dec v))"
proof -
  let ?n = "length (dec v)"
  have len: "u32_sub ?n 1 = ?n - 1"
    using assms(3) by (intro u32_sub_small) (simp_all add: Suc_le_eq)
  obtain c where dst: "dst = take ?n dst @ c # drop (Suc ?n) dst"
    using assms id_take_nth_drop [of ?n dst] by auto
  have fld: "length (take ?n dst) = ?n" using assms by simp
  have set0: "mem_set dst ?n 0 = Some (take ?n dst @ 0 # drop (Suc ?n) dst)"
    using mem_set_append [OF fld] by (subst dst) simp
  obtain fld' ds v' where loop: "ull2string_loop (take ?n dst @ 0 # drop (Suc ?n) dst) (?n - 1) v
       = Some (fld' @ ds @ 0 # drop (Suc ?n) dst, length (dec v') - 1, v')"
    and v': "v' < 100" "length fld' = length (dec v')" "dec v = dec v' @ ds"
    using ull2string_loop_correct [OF fld assms(3)] by blast
  show ?thesis
  proof (cases "v' < 10")
    case True
    then have "mem_set (fld' @ ds @ 0 # drop (Suc ?n) dst) 0 (48 + of_nat v')
        = Some (dec v @ 0 # drop (Suc ?n) dst)"
      using v' by (auto simp: dec_small length_Suc_conv mem_set_def mem_write_def)
    then show ?thesis
      using assms True len loop set0
      by (simp add: ull2string_def digits10_length_dec dec_small Let_def)
  next
    case False
    then obtain y z where "fld' = [y, z]"
      using v' by (auto simp: dec_two length_Suc_conv)
    then have "\<And>k. (do { d1 \<leftarrow> Some (48 + of_nat (v' mod 10));
                     dst \<leftarrow> mem_set (fld' @ ds @ 0 # drop (Suc ?n) dst) 1 d1;
                     d0 \<leftarrow> Some (48 + of_nat (v' div 10)); dst \<leftarrow> mem_set dst (u32_sub 1 1) d0; k dst })
        = k (dec v @ 0 # drop (Suc ?n) dst)"
      using v' False mem_set_two [of "[]" 1 "48 + of_nat (v' mod 10)" y z "ds @ 0 # drop (Suc ?n) dst"]
      by (simp add: dec_two)
    then show ?thesis
      using assms False len loop set0 v'
      by (simp add: ull2string_def digits10_length_dec dec_two Let_def mem_get_digits)
  qed
qed

lemma ull2string_error:
  "dstlen \<le> length (dec v) \<Longrightarrow> dst \<noteq> [] \<Longrightarrow> 0 < dstlen \<Longrightarrow> ull2string dst dstlen v = Some (0 # tl dst, 0)"
  by (cases dst) (auto simp: ull2string_def digits10_length_dec mem_set_def mem_write_def)

lemma length_dec_u64: "v < 2 ^ 64 \<Longrightarrow> length (dec v) \<le> 20"
  using length_dec_le [of v 19] by simp

lemma length_dec_i64: "v \<le> 2 ^ 63 \<Longrightarrow> length (dec v) \<le> 19"
  using length_dec_le [of v 18] by simp

lemma is_int64_abs: "is_int64 v \<Longrightarrow> nat \<bar>v\<bar> \<le> 2 ^ 63"
  by (auto simp: is_int64_def)

lemma length_ll_repr: "is_int64 v \<Longrightarrow> length (ll_repr v) \<le> 20"
  using is_int64_abs [of v] length_dec_i64 [of "nat v"] length_dec_i64 [of "nat (- v)"]
  by (auto simp: ll_repr_def)

lemma ll2string_correct:
  assumes "is_int64 v" "length (ll_repr v) < dstlen" "dstlen \<le> length dst"
  shows "ll2string dst dstlen v
       = Some (ll_repr v @ 0 # drop (Suc (length (ll_repr v))) dst, length (ll_repr v))"
proof (cases "v < 0")
  case False
  then show ?thesis
    using assms ull2string_correct [of "nat v" dstlen dst] length_ll_repr [OF assms(1)]
    by (simp add: ll2string_def ll_repr_def)
next
  case True
  have len: "length (dec (nat (- v))) \<le> 19"
    using is_int64_abs [OF assms(1)] length_dec_i64 [of "nat (- v)"] True by simp
  obtain c ds where dst: "dst = c # ds" using assms by (cases dst) auto
  have "ull2string ds (dstlen - 1) (nat (- v))
      = Some (dec (nat (- v)) @ 0 # drop (Suc (length (dec (nat (- v))))) ds, length (dec (nat (- v))))"
    using assms True len dst by (intro ull2string_correct) (auto simp: ll_repr_def)
  moreover have "(if v \<noteq> INT64_MIN then nat (- v) else nat INT64_MAX + 1) = nat (- v)"
    using assms(1) by (auto simp: is_int64_def)
  ultimately show ?thesis
    using True assms dst
    by (simp add: ll2string_def ll_repr_def mem_set_def mem_write_def mem_read_def Let_def)
qed

section \<open>Parsing accepts exactly the canonical decimals\<close>

definition is_digit :: "byte \<Rightarrow> bool" where
  "is_digit c \<longleftrightarrow> 48 \<le> c \<and> c \<le> 57"

definition digits_val :: "int \<Rightarrow> bytes \<Rightarrow> int" where
  "digits_val v ds = foldl (\<lambda>a c. a * 10 + (uint c - 48)) v ds"

lemma digits_val_simps [simp]:
  "digits_val v [] = v" "digits_val v (c # ds) = digits_val (v * 10 + (uint c - 48)) ds"
  "digits_val v (ds @ [c]) = digits_val v ds * 10 + (uint c - 48)"
  by (simp_all add: digits_val_def)

lemma is_digit_uint: "is_digit c \<longleftrightarrow> 48 \<le> uint c \<and> uint c \<le> 57"
  by (simp add: is_digit_def word_le_def)

lemma digits_val_mono: "0 \<le> v \<Longrightarrow> list_all is_digit ds \<Longrightarrow> v \<le> digits_val v ds"
proof (induction ds arbitrary: v)
  case Nil
  then show ?case by simp
next
  case (Cons c ds)
  then have "0 \<le> v" "48 \<le> uint c" "v * 10 + (uint c - 48) \<le> digits_val (v * 10 + (uint c - 48)) ds"
    using is_digit_uint [of c] by auto
  then show ?case by simp
qed

lemma string2ll_loop_iff:
  "0 \<le> v \<Longrightarrow> string2ll_loop v ds = Some (w, []) \<longleftrightarrow>
     list_all is_digit ds \<and> w = digits_val v ds \<and> (w \<le> UINT64_MAX \<or> ds = [])"
proof (induction ds arbitrary: v)
  case Nil
  then show ?case by auto
next
  case (Cons c ds)
  show ?case
  proof (cases "is_digit c")
    case False
    then show ?thesis by (auto simp: is_digit_def)
  next
    case True
    then have v': "0 \<le> v * 10 + (uint c - 48)" using Cons.prems by (simp add: is_digit_uint)
    show ?thesis
    proof (cases "v * 10 + (uint c - 48) \<le> UINT64_MAX")
      case True
      then show ?thesis
        using \<open>is_digit c\<close> is_digit_uint [of c] Cons.IH [OF v'] by (auto simp: is_digit_def [of c] Let_def)
    next
      case False
      then show ?thesis
        using \<open>is_digit c\<close> is_digit_uint [of c] v' digits_val_mono [OF v', of ds]
        by (auto simp: is_digit_def [of c] Let_def)
    qed
  qed
qed

lemma digit_byte: "d < 10 \<Longrightarrow> uint (48 + of_nat d :: byte) = 48 + int d"
  by (simp add: uint_word_ariths unsigned_of_nat take_bit_nat_eq_self)

lemma byte_digit: "is_digit c \<Longrightarrow> 48 + of_nat (nat (uint c - 48)) = c"
  by (simp add: is_digit_uint)

lemma dec_digits_val:
  "1 \<le> v \<Longrightarrow> list_all is_digit ds \<Longrightarrow> dec (nat (digits_val v ds)) = dec (nat v) @ ds"
proof (induction ds arbitrary: v)
  case Nil
  then show ?case by simp
next
  case (Cons c ds)
  then have c: "48 \<le> uint c" "uint c \<le> 57" "is_digit c" by (simp_all add: is_digit_uint)
  have "nat (v * 10 + (uint c - 48)) div 10 = nat v" "nat (v * 10 + (uint c - 48)) mod 10 = nat (uint c - 48)"
    using c Cons.prems(1) by (simp_all add: nat_div_as_int nat_mod_as_int nat_add_distrib)
  then have "dec (nat (v * 10 + (uint c - 48))) = dec (nat v) @ [c]"
    using c Cons.prems(1) dec_step [of "nat (v * 10 + (uint c - 48))"] byte_digit [OF c(3)] by simp
  then show ?case using Cons c by simp
qed

lemma dec_parts:
  "1 \<le> n \<Longrightarrow> \<exists>c ds. dec n = c # ds \<and> 49 \<le> uint c \<and> uint c \<le> 57 \<and> list_all is_digit ds
      \<and> digits_val (uint c - 48) ds = int n"
proof (induction n rule: dec.induct)
  case (1 n)
  show ?case
  proof (cases "n < 10")
    case True
    then show ?thesis using 1 by (simp add: dec_small digit_byte)
  next
    case False
    then obtain c ds where "dec (n div 10) = c # ds" "49 \<le> uint c" "uint c \<le> 57" "list_all is_digit ds"
        "digits_val (uint c - 48) ds = int (n div 10)"
      using 1 by (auto simp: Suc_le_eq div_greater_zero_iff)
    then show ?thesis
      using False digit_byte [of "n mod 10"] is_digit_uint [of "48 + of_nat (n mod 10)"]
      by (auto simp: dec_step zdiv_int zmod_int)
  qed
qed

lemma dec_zero [simp]: "dec 0 = [48]"
  by (simp add: dec_small)

lemma string2ll_sound:
  assumes "string2ll s = Some v"
  shows "is_int64 v \<and> s = ll_repr v"
proof (cases "length s = 1 \<and> hd s = 48")
  case True
  then show ?thesis
    using assms by (auto simp: string2ll_def is_int64_def ll_repr_def length_Suc_conv)
next
  case False
  define neg where "neg = (hd s = 45)"
  define p where "p = (if neg then tl s else s)"
  from assms False obtain w where nz: "s \<noteq> []" "p \<noteq> []" "49 \<le> hd p" "hd p \<le> 57"
    and loop: "string2ll_loop (uint (hd p) - 48) (tl p) = Some (w, [])"
    and v: "if neg then w \<le> - INT64_MIN \<and> v = to_signed 64 ((- w) mod 2 ^ 64) else w \<le> INT64_MAX \<and> v = w"
    by (auto simp: string2ll_def Let_def neg_def p_def split: if_splits option.splits)
  have hd: "49 \<le> uint (hd p)" "uint (hd p) \<le> 57" using nz by (simp_all add: word_le_def)
  with loop have w: "list_all is_digit (tl p)" "w = digits_val (uint (hd p) - 48) (tl p)"
    using string2ll_loop_iff [of "uint (hd p) - 48"] by auto
  have "1 \<le> w" using digits_val_mono [of "uint (hd p) - 48" "tl p"] w hd by simp
  have "dec (nat (uint (hd p) - 48)) = [hd p]"
    using hd by (simp add: dec_small is_digit_uint)
  with dec_digits_val [of "uint (hd p) - 48" "tl p"] w hd nz have p: "p = dec (nat w)" by simp
  show ?thesis
  proof (cases neg)
    case True
    then have "v = - w" using v \<open>1 \<le> w\<close> to_signed_mod [of 64 "- w"] by simp
    then show ?thesis
      using True v p nz \<open>1 \<le> w\<close> by (cases s) (auto simp: ll_repr_def is_int64_def neg_def p_def)
  next
    case False
    then show ?thesis using v p \<open>1 \<le> w\<close> by (auto simp: ll_repr_def is_int64_def p_def)
  qed
qed

lemma string2ll_complete:
  assumes "is_int64 v"
  shows "string2ll (ll_repr v) = Some v"
proof (cases "v = 0")
  case True
  then show ?thesis by (simp add: ll_repr_def string2ll_def)
next
  case False
  then obtain c ds where dec: "dec (nat \<bar>v\<bar>) = c # ds" "49 \<le> uint c" "uint c \<le> 57" "list_all is_digit ds"
      "digits_val (uint c - 48) ds = \<bar>v\<bar>"
    using dec_parts [of "nat \<bar>v\<bar>"] by (auto simp: Suc_le_eq)
  have c: "49 \<le> c" "c \<le> 57" "c \<noteq> 45" "c \<noteq> 48" using dec by (auto simp: word_le_def)
  have loop: "string2ll_loop (uint c - 48) ds = Some (\<bar>v\<bar>, [])"
    using dec assms string2ll_loop_iff [of "uint c - 48"] by (auto simp: is_int64_def)
  have repr: "ll_repr v = (if v < 0 then 45 # c # ds else c # ds)"
    using dec False by (auto simp: ll_repr_def)
  have len: "length (ll_repr v) < 21" using length_ll_repr [OF assms] by simp
  show ?thesis
  proof (cases "v < 0")
    case True
    then have "to_signed 64 (v mod 2 ^ 64) = v"
      using assms by (intro to_signed_mod) (auto simp: is_int64_def)
    then show ?thesis
      using True len loop c assms unfolding repr by (simp add: string2ll_def Let_def is_int64_def)
  next
    case False
    then show ?thesis
      using len loop c assms unfolding repr by (simp add: string2ll_def Let_def is_int64_def)
  qed
qed

section \<open>Properties\<close>

text \<open>
  \<^bold>\<open>C12\<close> (functional). \<open>string2ll\<close> accepts exactly the canonical decimal representations
  of 64-bit signed integers and returns the integer represented: no leading zeros or plus
  sign, no \<open>-0\<close>, no surrounding bytes, no overflow, and conversely every \<open>long long\<close>
  written canonically is accepted.
\<close>

theorem string2ll_iff: "string2ll s = Some v \<longleftrightarrow> is_int64 v \<and> s = ll_repr v"
  using string2ll_sound string2ll_complete by blast

text \<open>
  \<^bold>\<open>C14\<close> (roundtrip). Printing a \<open>long long\<close> with \<open>ll2string\<close> into a buffer of
  \<open>LONG_STR_SIZE\<close> bytes or more never writes out of bounds, NUL-terminates the string, and
  \<open>string2ll\<close> reads the same number back.
\<close>

theorem ll2string_string2ll:
  assumes "is_int64 v" "LONG_STR_SIZE \<le> length dst"
  shows "\<exists>dst' n. ll2string dst (length dst) v = Some (dst', n) \<and> length dst' = length dst
           \<and> dst' ! n = 0 \<and> 0 < n \<and> n < LONG_STR_SIZE \<and> string2ll (take n dst') = Some v"
proof -
  have "length (ll_repr v) < LONG_STR_SIZE" using length_ll_repr [OF assms(1)] by simp
  then show ?thesis
    using assms ll2string_correct [OF assms(1), of "length dst" dst] string2ll_complete [OF assms(1)]
    by (auto simp: ll_repr_def nth_append)
qed

theorem ll2string_string2ll_witness:
  "\<exists>dst' n. ll2string (replicate 21 255) 21 INT64_MIN = Some (dst', n) \<and> length dst' = 21
     \<and> dst' ! n = 0 \<and> 0 < n \<and> n < LONG_STR_SIZE \<and> string2ll (take n dst') = Some INT64_MIN"
  using ll2string_string2ll [of INT64_MIN "replicate 21 255"] by (simp add: is_int64_def)

text \<open>
  The branching digit counter agrees with the length of the canonical
  representation, for unsigned and for signed arguments (\<open>LLONG_MIN\<close> included).
\<close>

theorem sdigits10_length:
  assumes "is_int64 v"
  shows "sdigits10 v = length (ll_repr v) \<and> digits10 (nat \<bar>v\<bar>) = length (dec (nat \<bar>v\<bar>))"
  using assms by (auto simp: sdigits10_def ll_repr_def digits10_length_dec is_int64_def Let_def)

theorem sdigits10_length_witness:
  "sdigits10 INT64_MIN = length (ll_repr INT64_MIN)
     \<and> digits10 (nat \<bar>INT64_MIN\<bar>) = length (dec (nat \<bar>INT64_MIN\<bar>))"
  using sdigits10_length [of INT64_MIN] by (simp add: is_int64_def)

end
