(* ===== verification/Util_Glob.thy ===== *)
theory Util_Glob
  imports Prelude
begin

text \<open>
  Glob-style matching of \<open>src/redis/redis-7.2.3/src/util.c\<close>: \<open>stringmatchlen_impl\<close> with its
  \<open>skipLongerMatches\<close> short cut, and \<open>stringmatchlen\<close>. The pattern is a NUL-terminated string
  (all callers pass an \<open>sds\<close>), so the reads of \<open>pattern[patternLen]\<close> in the code see the
  terminator; \<open>pat_get\<close> models that. \<open>char\<close> is signed and \<open>tolower\<close> is that of the C locale.
  The reference notion parses the pattern once into tokens and matches declaratively.
\<close>

section \<open>The matcher\<close>

definition pat_get :: "bytes \<Rightarrow> nat \<Rightarrow> byte" where
  "pat_get p i = (if i < length p then p ! i else 0)"

definition c_tolower :: "int \<Rightarrow> int" where
  "c_tolower c = (if 65 \<le> c \<and> c \<le> 90 then c + 32 else c)"

text \<open>The two comparisons of the code: equality of bytes and membership in a range.\<close>

definition char_eq :: "bool \<Rightarrow> byte \<Rightarrow> byte \<Rightarrow> bool" where
  "char_eq nocase a b =
     (if \<not> nocase then a = b else c_tolower (sint a) = c_tolower (sint b))"

definition range_hit :: "bool \<Rightarrow> byte \<Rightarrow> byte \<Rightarrow> byte \<Rightarrow> bool" where
  "range_hit nocase a b ch =
     (let start = sint a; last = sint b; c = sint ch;
          (start, last) = (if start > last then (last, start) else (start, last));
          (start, last, c) = (if nocase then (c_tolower start, c_tolower last, c_tolower c)
                              else (start, last, c))
      in c \<ge> start \<and> c \<le> last)"

text \<open>
  The \<open>while(1)\<close> loop over a character class, from the byte after \<open>[\<close> or \<open>[^\<close>. The second
  component is the pattern after the closing bracket; an unterminated class consumes the
  whole pattern (the code steps back on the terminator and forward again).
\<close>

function class_loop :: "bool \<Rightarrow> byte \<Rightarrow> bytes \<Rightarrow> bool \<Rightarrow> bool \<times> bytes" where
  "class_loop nocase ch p match =
     (if pat_get p 0 = 92 \<and> length p \<ge> 2 then
        class_loop nocase ch (drop 2 p) (if pat_get p 1 = ch then True else match)
      else if pat_get p 0 = 93 then (match, drop 1 p)
      else if length p = 0 then (match, p)
      else if length p \<ge> 3 \<and> pat_get p 1 = 45 then
        class_loop nocase ch (drop 3 p)
          (if range_hit nocase (pat_get p 0) (pat_get p 2) ch then True else match)
      else
        class_loop nocase ch (drop 1 p) (if char_eq nocase (pat_get p 0) ch then True else match))"
  by pat_completeness auto
termination
  by (relation "measure (\<lambda>(_, _, p, _). length p)") auto

declare class_loop.simps [simp del]

text \<open>
  One iteration on a pattern that does not start with \<open>*\<close>, against the current string byte:
  \<open>None\<close> is the early \<open>return 0\<close>, \<open>Some\<close> the pattern after the consumed element.
\<close>

definition sm_char :: "bool \<Rightarrow> bytes \<Rightarrow> byte \<Rightarrow> bytes option" where
  "sm_char nocase p ch =
     (if pat_get p 0 = 63 then Some (drop 1 p)
      else if pat_get p 0 = 91 then
        (let p = drop 1 p; neg = (pat_get p 0 = 94); p = (if neg then drop 1 p else p);
             (match, rest) = class_loop nocase ch p False;
             match = (if neg then \<not> match else match)
         in if \<not> match then None else Some rest)
      else
        (let p = (if pat_get p 0 = 92 \<and> length p \<ge> 2 then drop 1 p else p);
             eq = char_eq nocase (pat_get p 0) ch
         in if \<not> eq then None else Some (drop 1 p)))"

lemma class_loop_length: "length (snd (class_loop nocase ch p m)) \<le> length p"
proof (induction nocase ch p m rule: class_loop.induct)
  case (1 nocase ch p m)
  then show ?case
    by (subst class_loop.simps) auto
qed

lemma sm_char_shorter: "sm_char nocase p ch = Some p' \<Longrightarrow> p \<noteq> [] \<Longrightarrow> length p' < length p"
  using class_loop_length [of nocase ch "drop 1 p" False] class_loop_length [of nocase ch "drop 1 (drop 1 p)" False]
  by (cases p) (auto simp: sm_char_def Let_def split: if_splits prod.splits)

fun strip_stars :: "bytes \<Rightarrow> bytes" where
  "strip_stars (c # d # p) = (if d = 42 then strip_stars (d # p) else c # d # p)"
| "strip_stars p = p"

lemma strip_stars_length: "length (strip_stars p) \<le> length p"
  by (induction p rule: strip_stars.induct) auto

text \<open>
  \<open>sm_impl\<close> is the outer loop, \<open>sm_star\<close> the loop over the string after a star. The last
  argument and the second result are \<open>*skipLongerMatches\<close>.
\<close>

function sm_impl :: "bool \<Rightarrow> bytes \<Rightarrow> bytes \<Rightarrow> bool \<Rightarrow> bool \<times> bool"
  and sm_star :: "bool \<Rightarrow> bytes \<Rightarrow> bytes \<Rightarrow> bool \<Rightarrow> bool \<times> bool" where
  "sm_impl nocase p s skip =
     (if p = [] \<or> s = [] then (p = [] \<and> s = [], skip)
      else if pat_get p 0 = 42 then
        (if length (strip_stars p) = 1 then (True, skip)
         else sm_star nocase (drop 1 (strip_stars p)) s skip)
      else
        (case sm_char nocase p (hd s) of
           None \<Rightarrow> (False, skip)
         | Some p' \<Rightarrow>
             if tl s = [] then (dropWhile (\<lambda>c. c = 42) p' = [], skip)
             else sm_impl nocase p' (tl s) skip))"
| "sm_star nocase p s skip =
     (if s = [] then (False, True)
      else
        (case sm_impl nocase p s skip of (r, skip) \<Rightarrow>
           if r then (True, skip)
           else if skip then (False, skip)
           else sm_star nocase p (tl s) skip))"
  by pat_completeness auto
termination
proof (relation "measures
    [case_sum (\<lambda>(_, p, _, _). length p) (\<lambda>(_, p, _, _). length p),
     case_sum (\<lambda>(_, _, s, _). length s) (\<lambda>(_, _, s, _). length s),
     case_sum (\<lambda>_. 0) (\<lambda>_. 1)]", goal_cases)
  case (2 nocase p s skip)
  then show ?case using strip_stars_length [of p] by (cases p) auto
next
  case (3 nocase p s skip p')
  then show ?case using sm_char_shorter by auto
qed auto

declare sm_impl.simps [simp del] sm_star.simps [simp del]

definition stringmatchlen :: "bytes \<Rightarrow> bytes \<Rightarrow> bool \<Rightarrow> bool" where
  "stringmatchlen p s nocase = fst (sm_impl nocase p s False)"

section \<open>The reference notion\<close>

datatype class_item = CEsc byte | CChr byte | CRange byte byte

datatype glob_tok = GStar | GAny | GClass bool "class_item list" | GLit byte

fun class_parse :: "bytes \<Rightarrow> class_item list \<times> bytes" where
  "class_parse [] = ([], [])"
| "class_parse (c # p) =
     (if c = 92 \<and> p \<noteq> [] then (let (is, r) = class_parse (tl p) in (CEsc (hd p) # is, r))
      else if c = 93 then ([], p)
      else if length p \<ge> 2 \<and> hd p = 45 then
        (let (is, r) = class_parse (drop 2 p) in (CRange c (p ! 1) # is, r))
      else (let (is, r) = class_parse p in (CChr c # is, r)))"

lemma class_parse_length: "length (snd (class_parse p)) \<le> length p"
  by (induction p rule: class_parse.induct) (auto simp: Let_def split: prod.splits)

function parse_glob :: "bytes \<Rightarrow> glob_tok list" where
  "parse_glob [] = []"
| "parse_glob (c # p) =
     (if c = 42 then GStar # parse_glob p
      else if c = 63 then GAny # parse_glob p
      else if c = 91 then
        (if p \<noteq> [] \<and> hd p = 94
         then GClass True (fst (class_parse (tl p))) # parse_glob (snd (class_parse (tl p)))
         else GClass False (fst (class_parse p)) # parse_glob (snd (class_parse p)))
      else if c = 92 \<and> p \<noteq> [] then GLit (hd p) # parse_glob (tl p)
      else GLit c # parse_glob p)"
  by pat_completeness auto
termination
proof (relation "measure length", goal_cases)
  case (4 c p)
  then show ?case using class_parse_length [of "tl p"] by (cases p) auto
next
  case (5 c p)
  then show ?case using class_parse_length [of p] by auto
qed auto

fun item_matches :: "bool \<Rightarrow> byte \<Rightarrow> class_item \<Rightarrow> bool" where
  "item_matches nocase ch (CEsc a) \<longleftrightarrow> a = ch"
| "item_matches nocase ch (CChr a) \<longleftrightarrow> char_eq nocase a ch"
| "item_matches nocase ch (CRange a b) \<longleftrightarrow>
     (let f = (if nocase then c_tolower else (\<lambda>x. x)) in
      f (min (sint a) (sint b)) \<le> f (sint ch) \<and> f (sint ch) \<le> f (max (sint a) (sint b)))"

fun tok_matches :: "bool \<Rightarrow> byte \<Rightarrow> glob_tok \<Rightarrow> bool" where
  "tok_matches nocase ch GStar \<longleftrightarrow> False"
| "tok_matches nocase ch GAny \<longleftrightarrow> True"
| "tok_matches nocase ch (GClass neg is) \<longleftrightarrow> (neg \<noteq> list_ex (item_matches nocase ch) is)"
| "tok_matches nocase ch (GLit a) \<longleftrightarrow> char_eq nocase a ch"

fun glob_match :: "bool \<Rightarrow> glob_tok list \<Rightarrow> bytes \<Rightarrow> bool" where
  "glob_match nocase [] s \<longleftrightarrow> s = []"
| "glob_match nocase (GStar # ts) s \<longleftrightarrow> (\<exists>k \<le> length s. glob_match nocase ts (drop k s))"
| "glob_match nocase (t # ts) [] \<longleftrightarrow> False"
| "glob_match nocase (t # ts) (c # s) \<longleftrightarrow> tok_matches nocase c t \<and> glob_match nocase ts s"

section \<open>The matcher against the reference\<close>

lemma range_hit_item: "range_hit nocase a b ch = item_matches nocase ch (CRange a b)"
  by (auto simp: range_hit_def Let_def min_def max_def)

lemma pat_get_simps [simp]:
  "pat_get [] i = 0" "pat_get (c # p) 0 = c" "pat_get (c # p) (Suc i) = pat_get p i"
  by (simp_all add: pat_get_def)

lemma pat_get_hd: "p \<noteq> [] \<Longrightarrow> pat_get p 0 = hd p"
  by (cases p) simp_all


lemma class_loop_unfold:
  "class_loop nocase ch [] m = (m, [])"
  "p \<noteq> [] \<Longrightarrow> class_loop nocase ch (92 # p) m = class_loop nocase ch (tl p) (hd p = ch \<or> m)"
  "class_loop nocase ch (93 # p) m = (m, p)"
  "c \<noteq> 93 \<Longrightarrow> c \<noteq> 92 \<Longrightarrow> length p \<ge> 2 \<Longrightarrow> hd p = 45 \<Longrightarrow>
     class_loop nocase ch (c # p) m = class_loop nocase ch (drop 2 p) (range_hit nocase c (p ! 1) ch \<or> m)"
  "c \<noteq> 93 \<Longrightarrow> c \<noteq> 92 \<or> p = [] \<Longrightarrow> \<not> (length p \<ge> 2 \<and> hd p = 45) \<Longrightarrow>
     class_loop nocase ch (c # p) m = class_loop nocase ch p (char_eq nocase c ch \<or> m)"
proof -
  show "class_loop nocase ch [] m = (m, [])"
    by (subst class_loop.simps) simp
  show "p \<noteq> [] \<Longrightarrow> class_loop nocase ch (92 # p) m = class_loop nocase ch (tl p) (hd p = ch \<or> m)"
    by (subst class_loop.simps, cases p) simp_all
  show "class_loop nocase ch (93 # p) m = (m, p)"
    by (subst class_loop.simps) simp
  show "class_loop nocase ch (c # p) m = class_loop nocase ch (drop 2 p) (range_hit nocase c (p ! 1) ch \<or> m)"
    if "c \<noteq> 93" "c \<noteq> 92" "length p \<ge> 2" "hd p = 45"
    using that by (subst class_loop.simps, cases p; cases "tl p")
      (simp_all add: pat_get_def numeral_3_eq_3 numeral_2_eq_2)
  show "class_loop nocase ch (c # p) m = class_loop nocase ch p (char_eq nocase c ch \<or> m)"
    if "c \<noteq> 93" "c \<noteq> 92 \<or> p = []" "\<not> (length p \<ge> 2 \<and> hd p = 45)"
    using that by (subst class_loop.simps, cases p) (auto simp: Suc_le_eq)
qed

lemma class_loop_parse:
  "class_loop nocase ch p m =
     (m \<or> list_ex (item_matches nocase ch) (fst (class_parse p)), snd (class_parse p))"
proof (induction p arbitrary: m rule: class_parse.induct)
  case 1
  then show ?case by (simp add: class_loop_unfold)
next
  case (2 c p)
  consider "c = 92" "p \<noteq> []" | "c = 93" | "c \<noteq> 92" "c \<noteq> 93" "length p \<ge> 2" "hd p = 45"
    | "c \<noteq> 92 \<or> p = []" "c \<noteq> 93" "\<not> (length p \<ge> 2 \<and> hd p = 45)"
    by fastforce
  then show ?case
  proof cases
    case 4
    then have "class_parse (c # p) = (CChr c # fst (class_parse p), snd (class_parse p))"
      by (auto simp: case_prod_beta Let_def)
    then show ?thesis using 4 2(3) by (auto simp: class_loop_unfold simp del: class_parse.simps)
  qed (use 2 in \<open>simp_all add: class_loop_unfold case_prod_beta Let_def range_hit_item
        disj_ac del: item_matches.simps(3)\<close>)
qed

lemma sm_char_parse:
  assumes "p \<noteq> []" "hd p \<noteq> 42"
  shows "\<exists>t rest. parse_glob p = t # parse_glob rest \<and> t \<noteq> GStar
     \<and> (\<forall>ch. sm_char nocase p ch = (if tok_matches nocase ch t then Some rest else None))"
proof -
  obtain c q where p: "p = c # q" "c \<noteq> 42" using assms by (cases p) auto
  consider "c = 63" | "c = 91" "q \<noteq> []" "hd q = 94" | "c = 91" "q = [] \<or> hd q \<noteq> 94"
    | "c = 92" "q \<noteq> []" | "c \<noteq> 63" "c \<noteq> 91" "c \<noteq> 92 \<or> q = []"
    by blast
  then show ?thesis
  proof cases
    case 1
    then show ?thesis
      by (intro exI [of _ GAny] exI [of _ q]) (simp add: p sm_char_def)
  next
    case 2
    then show ?thesis
      by (intro exI [of _ "GClass True (fst (class_parse (tl q)))"] exI [of _ "snd (class_parse (tl q))"])
        (auto simp: p sm_char_def Let_def class_loop_parse pat_get_hd drop_Suc)
  next
    case 3
    then have "pat_get q 0 \<noteq> 94" by (cases q) auto
    then show ?thesis
      using 3 by (intro exI [of _ "GClass False (fst (class_parse q))"] exI [of _ "snd (class_parse q)"])
        (auto simp: p sm_char_def Let_def class_loop_parse)
  next
    case 4
    then show ?thesis
      by (intro exI [of _ "GLit (hd q)"] exI [of _ "tl q"])
        (auto simp: p sm_char_def Let_def pat_get_hd drop_Suc Suc_le_eq)
  next
    case 5
    then show ?thesis
      using p by (intro exI [of _ "GLit c"] exI [of _ q]) (auto simp: sm_char_def Let_def)
  qed
qed

lemma glob_match_not_star:
  "t \<noteq> GStar \<Longrightarrow> glob_match nocase (t # ts) s \<longleftrightarrow>
     s \<noteq> [] \<and> tok_matches nocase (hd s) t \<and> glob_match nocase ts (tl s)"
  by (cases t; cases s) simp_all

lemma ex_drop_Cons:
  "(\<exists>k \<le> length (c # s). P (drop k (c # s))) \<longleftrightarrow> P (c # s) \<or> (\<exists>k \<le> length s. P (drop k s))"
proof
  assume "\<exists>k \<le> length (c # s). P (drop k (c # s))"
  then obtain k where "k \<le> length (c # s)" "P (drop k (c # s))" by blast
  then show "P (c # s) \<or> (\<exists>k \<le> length s. P (drop k s))" by (cases k) auto
next
  assume "P (c # s) \<or> (\<exists>k \<le> length s. P (drop k s))"
  then show "\<exists>k \<le> length (c # s). P (drop k (c # s))"
  proof
    assume "P (c # s)"
    then show ?thesis by (intro exI [of _ 0]) simp
  next
    assume "\<exists>k \<le> length s. P (drop k s)"
    then obtain k where "k \<le> length s" "P (drop k s)" by blast
    then show ?thesis by (intro exI [of _ "Suc k"]) simp
  qed
qed

lemma glob_match_star_star:
  "glob_match nocase (GStar # GStar # ts) s \<longleftrightarrow> glob_match nocase (GStar # ts) s"
proof
  assume "glob_match nocase (GStar # ts) s"
  then obtain k where "k \<le> length s" "glob_match nocase ts (drop k s)" by auto
  then show "glob_match nocase (GStar # GStar # ts) s"
    by (simp add: exI [of _ k] exI [of _ "0::nat"])
next
  assume "glob_match nocase (GStar # GStar # ts) s"
  then obtain j k where "j \<le> length s" "k \<le> length s - j" "glob_match nocase ts (drop k (drop j s))"
    by auto
  then show "glob_match nocase (GStar # ts) s" by (auto intro!: exI [of _ "j + k"] simp: add.commute)
qed

lemma strip_stars_cons:
  "\<exists>q. strip_stars (42 # p) = 42 # q \<and> (q = [] \<or> hd q \<noteq> 42)
     \<and> (\<forall>s. glob_match nocase (parse_glob (42 # p)) s = glob_match nocase (parse_glob (42 # q)) s)"
proof (induction p)
  case Nil
  then show ?case by simp
next
  case (Cons d p)
  then show ?case using glob_match_star_star by (cases "d = 42") (auto simp del: glob_match.simps(2))
qed

lemma glob_match_empty: "glob_match nocase (parse_glob p) [] \<longleftrightarrow> dropWhile (\<lambda>c. c = 42) p = []"
proof (induction p)
  case Nil
  then show ?case by simp
next
  case (Cons c p)
  show ?case
  proof (cases "c = 42")
    case True
    then show ?thesis using Cons by simp
  next
    case False
    then obtain t rest where "parse_glob (c # p) = t # parse_glob rest" "t \<noteq> GStar"
      using sm_char_parse [of "c # p" nocase] by auto
    then show ?thesis using False by (simp add: glob_match_not_star)
  qed
qed

text \<open>
  The short cut is sound: when the search below a star fails with \<open>skipLongerMatches\<close> set,
  the whole pattern matches no suffix of the string either.
\<close>

lemma sm_correct:
  "\<not> skip \<Longrightarrow> s \<noteq> [] \<Longrightarrow>
     (fst (sm_impl nocase p s skip) \<longleftrightarrow> glob_match nocase (parse_glob p) s)
     \<and> (\<not> fst (sm_impl nocase p s skip) \<and> snd (sm_impl nocase p s skip) \<longrightarrow>
          (\<forall>k. \<not> glob_match nocase (parse_glob p) (drop k s)))"
  "\<not> skip \<Longrightarrow> p \<noteq> [] \<Longrightarrow> hd p \<noteq> 42 \<Longrightarrow>
     fst (sm_star nocase p s skip) \<longleftrightarrow> (\<exists>k \<le> length s. glob_match nocase (parse_glob p) (drop k s))"
proof (induction nocase p s skip and nocase p s skip rule: sm_impl_sm_star.induct)
  case (1 nocase p s skip)
  show ?case
  proof (cases "p = []")
    case True
    then show ?thesis using 1 by (subst (1 2 3) sm_impl.simps) simp
  next
    case False
    show ?thesis
    proof (cases "hd p = 42")
      case True
      obtain q where q: "strip_stars p = 42 # q" "q = [] \<or> hd q \<noteq> 42"
        and eq: "\<And>s. glob_match nocase (parse_glob p) s = glob_match nocase (parse_glob (42 # q)) s"
        using True False strip_stars_cons [of "tl p" nocase] by (cases p) auto
      show ?thesis
      proof (cases "q = []")
        case True
        then have "sm_impl nocase p s skip = (True, skip)"
          using False \<open>hd p = 42\<close> q 1 by (subst sm_impl.simps) (auto simp: pat_get_hd)
        then show ?thesis using True by (auto simp: eq)
      next
        case False
        then have "sm_impl nocase p s skip = sm_star nocase q s skip"
          using \<open>p \<noteq> []\<close> \<open>hd p = 42\<close> q 1 by (subst sm_impl.simps) (auto simp: pat_get_hd)
        moreover have IH: "fst (sm_star nocase q s skip) \<longleftrightarrow> (\<exists>k \<le> length s. glob_match nocase (parse_glob q) (drop k s))"
          using 1 False q \<open>p \<noteq> []\<close> \<open>hd p = 42\<close> by (auto simp: pat_get_hd)
        moreover have "\<not> glob_match nocase (parse_glob q) (drop j (drop k s))"
          if "\<not> (\<exists>k \<le> length s. glob_match nocase (parse_glob q) (drop k s))" for j k
          using that [simplified, rule_format, of "min (j + k) (length s)"]
          by (cases "j + k \<le> length s") (auto simp: min_def)
        ultimately show ?thesis by (auto simp: eq)
      qed
    next
      case nostar: False
      obtain t rest where pt: "parse_glob p = t # parse_glob rest" "t \<noteq> GStar"
        and sc: "\<And>ch. sm_char nocase p ch = (if tok_matches nocase ch t then Some rest else None)"
        using sm_char_parse [OF False nostar, of nocase] by blast
      show ?thesis
      proof (cases "tok_matches nocase (hd s) t")
        case f: False
        then have "sm_impl nocase p s skip = (False, skip)"
          using False nostar sc 1 by (subst sm_impl.simps) (auto simp: pat_get_hd)
        then show ?thesis using f pt 1 by (simp add: glob_match_not_star)
      next
        case t: True
        show ?thesis
        proof (cases "tl s = []")
          case True
          then have "sm_impl nocase p s skip = (dropWhile (\<lambda>c. c = 42) rest = [], skip)"
            using False nostar sc t 1 by (subst sm_impl.simps) (auto simp: pat_get_hd)
          then show ?thesis using t pt True 1 by (simp add: glob_match_not_star glob_match_empty)
        next
          case s2: False
          then have *: "sm_impl nocase p s skip = sm_impl nocase rest (tl s) skip"
            using False nostar sc t 1 by (subst sm_impl.simps) (auto simp: pat_get_hd)
          have IH: "(fst (sm_impl nocase rest (tl s) skip) \<longleftrightarrow> glob_match nocase (parse_glob rest) (tl s))
             \<and> (\<not> fst (sm_impl nocase rest (tl s) skip) \<and> snd (sm_impl nocase rest (tl s) skip) \<longrightarrow>
                 (\<forall>k. \<not> glob_match nocase (parse_glob rest) (drop k (tl s))))"
            using 1 False nostar sc t s2 by (auto simp: pat_get_hd)
          have "tl (drop k s) = drop k (tl s)" for k by (simp add: drop_Suc tl_drop)
          then show ?thesis using IH t pt \<open>s \<noteq> []\<close> by (auto simp: * glob_match_not_star)
        qed
      qed
    qed
  qed
next
  case (2 nocase p s skip)
  show ?case
  proof (cases "s = []")
    case True
    then show ?thesis
      using 2 by (cases p) (auto simp: sm_star.simps glob_match_empty)
  next
    case False
    note IH1 = 2(1) [OF False \<open>\<not> skip\<close> False]
    obtain r sk where rs: "sm_impl nocase p s skip = (r, sk)" by force
    have split: "(\<exists>k \<le> length s. glob_match nocase (parse_glob p) (drop k s)) \<longleftrightarrow>
        glob_match nocase (parse_glob p) s \<or> (\<exists>k \<le> length (tl s). glob_match nocase (parse_glob p) (drop k (tl s)))"
      using False ex_drop_Cons [of "hd s" "tl s"] by (cases s) auto
    show ?thesis
      using False IH1 rs 2(2) [OF False rs [symmetric]] 2(3-)
      by (subst sm_star.simps) (auto simp: split drop_Suc [symmetric])
  qed
qed

section \<open>Properties\<close>


end
