(* ===== verification/Set_Interface.thy ===== *)
theory Set_Interface
  imports Prelude
begin

text \<open>
  The contract of a mutable set of values, as the set commands rely on it: adding tells
  whether the element is new, removing tells whether it was there, membership is total on
  well-formed structures. A structure has a size, an element a cost, and an addition is
  guaranteed to succeed while the size stays below a capacity. The three encodings of a Redis
  set (\<open>intset\<close>, \<open>listpack\<close>, hash table) are instances.
\<close>

datatype 'a set_op = SAdd 'a | SRem 'a

fun run_set_ops ::
  "('s \<Rightarrow> 'a \<Rightarrow> ('s \<times> bool) option) \<Rightarrow> ('s \<Rightarrow> 'a \<Rightarrow> ('s \<times> bool) option) \<Rightarrow> 's \<Rightarrow> 'a set_op list
     \<Rightarrow> ('s \<times> bool list) option" where
  "run_set_ops add rem s [] = Some (s, [])"
| "run_set_ops add rem s (op # ops) =
     do { (s', r) \<leftarrow> (case op of SAdd v \<Rightarrow> add s v | SRem v \<Rightarrow> rem s v);
          (s'', rs) \<leftarrow> run_set_ops add rem s' ops;
          Some (s'', r # rs) }"

text \<open>The same operations on mathematical sets.\<close>

fun spec_set_ops :: "'a set \<Rightarrow> 'a set_op list \<Rightarrow> 'a set \<times> bool list" where
  "spec_set_ops A [] = (A, [])"
| "spec_set_ops A (SAdd v # ops) =
     (case spec_set_ops (insert v A) ops of (B, rs) \<Rightarrow> (B, (v \<notin> A) # rs))"
| "spec_set_ops A (SRem v # ops) =
     (case spec_set_ops (A - {v}) ops of (B, rs) \<Rightarrow> (B, (v \<in> A) # rs))"

fun op_value :: "'a set_op \<Rightarrow> 'a" where
  "op_value (SAdd v) = v"
| "op_value (SRem v) = v"

fun ops_cost :: "('a \<Rightarrow> nat) \<Rightarrow> 'a set_op list \<Rightarrow> nat" where
  "ops_cost cost [] = 0"
| "ops_cost cost (SAdd v # ops) = cost v + ops_cost cost ops"
| "ops_cost cost (SRem v # ops) = ops_cost cost ops"

locale set_adt =
  fixes ok :: "'s \<Rightarrow> bool"
    and elems :: "'s \<Rightarrow> 'a set"
    and okv :: "'a \<Rightarrow> bool"
    and ssize :: "'s \<Rightarrow> nat"
    and cost :: "'a \<Rightarrow> nat"
    and cap :: nat
    and emp :: 's
    and add :: "'s \<Rightarrow> 'a \<Rightarrow> ('s \<times> bool) option"
    and rem :: "'s \<Rightarrow> 'a \<Rightarrow> ('s \<times> bool) option"
    and mem :: "'s \<Rightarrow> 'a \<Rightarrow> bool option"
  assumes emp_ok: "ok emp" "elems emp = {}"
    and mem_correct: "ok s \<Longrightarrow> okv v \<Longrightarrow> mem s v = Some (v \<in> elems s)"
    and add_correct: "ok s \<Longrightarrow> okv v \<Longrightarrow> ssize s + cost v < cap \<Longrightarrow>
      \<exists>s'. add s v = Some (s', v \<notin> elems s) \<and> ok s' \<and> elems s' = insert v (elems s)
        \<and> ssize s' \<le> ssize s + cost v"
    and rem_correct: "ok s \<Longrightarrow> okv v \<Longrightarrow>
      \<exists>s'. rem s v = Some (s', v \<in> elems s) \<and> ok s' \<and> elems s' = elems s - {v}
        \<and> ssize s' \<le> ssize s"
begin

lemma run_ops_refines:
  "ok s \<Longrightarrow> list_all (\<lambda>op. okv (op_value op)) ops \<Longrightarrow> ssize s + ops_cost cost ops < cap \<Longrightarrow>
     \<exists>s' rs. run_set_ops add rem s ops = Some (s', rs) \<and> ok s'
       \<and> spec_set_ops (elems s) ops = (elems s', rs) \<and> ssize s' \<le> ssize s + ops_cost cost ops"
proof (induction ops arbitrary: s)
  case Nil
  then show ?case by simp
next
  case (Cons op ops)
  show ?case
  proof (cases op)
    case (SAdd v)
    obtain s1 where s1: "add s v = Some (s1, v \<notin> elems s)" "ok s1" "elems s1 = insert v (elems s)"
        "ssize s1 \<le> ssize s + cost v"
      using add_correct [of s v] Cons.prems SAdd by auto
    then show ?thesis using Cons.IH [of s1] Cons.prems SAdd by fastforce
  next
    case (SRem v)
    obtain s1 where s1: "rem s v = Some (s1, v \<in> elems s)" "ok s1" "elems s1 = elems s - {v}"
        "ssize s1 \<le> ssize s"
      using rem_correct [of s v] Cons.prems SRem by auto
    then show ?thesis using Cons.IH [of s1] Cons.prems SRem by fastforce
  qed
qed

lemma run_ops_mem:
  assumes "ok s" "list_all (\<lambda>op. okv (op_value op)) ops" "ssize s + ops_cost cost ops < cap" "okv v"
  shows "(do { (s', rs) \<leftarrow> run_set_ops add rem s ops; mem s' v })
     = Some (v \<in> fst (spec_set_ops (elems s) ops))"
  using run_ops_refines [OF assms(1-3)] mem_correct assms(4) by auto

lemma add_idem:
  assumes "ok s" "okv v" "ssize s + 2 * cost v < cap"
  shows "\<exists>s1 s2 b. add s v = Some (s1, b) \<and> add s1 v = Some (s2, False) \<and> elems s2 = elems s1"
  using add_correct [of s v] add_correct [of _ v] assms
proof -
  obtain s1 where s1: "add s v = Some (s1, v \<notin> elems s)" "ok s1" "elems s1 = insert v (elems s)"
      "ssize s1 \<le> ssize s + cost v"
    using add_correct [of s v] assms by auto
  then show ?thesis using add_correct [of s1 v] assms by fastforce
qed

end

end
