(* ===== verification/Intset.thy ===== *)
theory Intset
  imports Set_Interface
begin

text \<open>
  Integer sets of \<open>src/redis/redis-7.2.3/src/intset.c\<close>, at the level of their bytes: a header
  (encoding and length) and a contents area holding the elements in increasing order, each
  in 2, 4 or 8 little-endian bytes. Upgrading re-encodes the area in place, back to front;
  insertion and removal move the tail with \<open>memmove\<close>. The integers stored in memory are
  little-endian on every host (\<open>memrevNNifbe\<close>), which is what the byte model shows.
\<close>

section \<open>Data and operations\<close>

record intset =
  encoding :: nat
  is_length :: nat
  contents :: bytes

abbreviation (input) INTSET_ENC_INT16 :: nat where "INTSET_ENC_INT16 \<equiv> 2"
abbreviation (input) INTSET_ENC_INT32 :: nat where "INTSET_ENC_INT32 \<equiv> 4"
abbreviation (input) INTSET_ENC_INT64 :: nat where "INTSET_ENC_INT64 \<equiv> 8"

definition i_intsetValueEncoding :: "int \<Rightarrow> nat" where
  "i_intsetValueEncoding v =
     (if v < INT32_MIN \<or> v > INT32_MAX then INTSET_ENC_INT64
      else if v < INT16_MIN \<or> v > INT16_MAX then INTSET_ENC_INT32
      else INTSET_ENC_INT16)"

text \<open>Width of an element under an encoding: anything but 8 and 4 is handled as 2.\<close>

definition enc_width :: "nat \<Rightarrow> nat" where
  "enc_width enc =
     (if enc = INTSET_ENC_INT64 then 8 else if enc = INTSET_ENC_INT32 then 4 else 2)"

definition i_intsetGetEncoded :: "intset \<Rightarrow> int \<Rightarrow> nat \<Rightarrow> int option" where
  "i_intsetGetEncoded is pos enc =
     (if pos < 0 then None
      else do { bs \<leftarrow> mem_read (contents is) (nat pos * enc_width enc) (enc_width enc);
                Some (to_signed (8 * enc_width enc) (le_val bs)) })"

definition i_intsetGet :: "intset \<Rightarrow> int \<Rightarrow> int option" where
  "i_intsetGet is pos = i_intsetGetEncoded is pos (encoding is)"

definition i_intsetSet :: "intset \<Rightarrow> int \<Rightarrow> int \<Rightarrow> intset option" where
  "i_intsetSet is pos value =
     (if pos < 0 then None
      else let w = enc_width (encoding is) in
           do { c \<leftarrow> mem_write (contents is) (nat pos * w) (le_bytes w value);
                Some (is\<lparr>contents := c\<rparr>) })"

definition intsetNew :: intset where
  "intsetNew = \<lparr>encoding = INTSET_ENC_INT16, is_length = 0, contents = []\<rparr>"

text \<open>\<open>junk\<close> gives the indeterminate bytes of grown memory; \<open>sizeof(intset)\<close> is 8.\<close>

definition intsetResize :: "(nat \<Rightarrow> byte) \<Rightarrow> intset \<Rightarrow> nat \<Rightarrow> intset option" where
  "intsetResize junk is len =
     (let size = (len * encoding is) mod 2 ^ 64 in
      do { c_assert (size \<le> 2 ^ 64 - 1 - 8);
           Some (is\<lparr>contents := mem_resize junk (contents is) size\<rparr>) })"

text \<open>
  The binary search. \<open>lo\<close> and \<open>hi\<close> (\<open>min\<close> and \<open>max\<close> in the code) are non-negative \<open>int\<close>s while the loop runs, so the
  unsigned addition of the midpoint does not wrap.
\<close>

function intsetSearch_loop :: "intset \<Rightarrow> int \<Rightarrow> int \<Rightarrow> int \<Rightarrow> int \<Rightarrow> int \<Rightarrow> (int \<times> int \<times> int) option" where
  "intsetSearch_loop is value lo hi mid cur =
     (if hi \<ge> lo then
        (let mid = (lo + hi) div 2 in
         case i_intsetGet is mid of
           None \<Rightarrow> None
         | Some cur \<Rightarrow>
             if value > cur then intsetSearch_loop is value (mid + 1) hi mid cur
             else if value < cur then intsetSearch_loop is value lo (mid - 1) mid cur
             else Some (lo, mid, cur))
      else Some (lo, mid, cur))"
  by pat_completeness auto
termination
  by (relation "measure (\<lambda>(_, _, lo, hi, _, _). nat (hi - lo + 1))") auto

declare intsetSearch_loop.simps [simp del]

definition intsetSearch :: "intset \<Rightarrow> int \<Rightarrow> (bool \<times> int) option" where
  "intsetSearch is value =
     (let hi = int (is_length is) - 1 in
      if is_length is = 0 then Some (False, 0)
      else
        do { last \<leftarrow> i_intsetGet is hi;
             (if value > last then Some (False, int (is_length is))
              else
                do { first \<leftarrow> i_intsetGet is 0;
                     (if value < first then Some (False, 0)
                      else
                        do { (lo, mid, cur) \<leftarrow> intsetSearch_loop is value 0 hi (-1) (-1);
                             Some (if value = cur then (True, mid) else (False, lo)) }) }) })"

text \<open>The \<open>while(length--)\<close> loop of the upgrade, from the last element to the first.\<close>

fun upgrade_loop :: "intset \<Rightarrow> nat \<Rightarrow> nat \<Rightarrow> int \<Rightarrow> intset option" where
  "upgrade_loop is curenc 0 prepend = Some is"
| "upgrade_loop is curenc (Suc len) prepend =
     do { v \<leftarrow> i_intsetGetEncoded is (int len) curenc;
          is \<leftarrow> i_intsetSet is (int len + prepend) v;
          upgrade_loop is curenc len prepend }"

definition intsetUpgradeAndAdd :: "(nat \<Rightarrow> byte) \<Rightarrow> intset \<Rightarrow> int \<Rightarrow> intset option" where
  "intsetUpgradeAndAdd junk is value =
     (let curenc = encoding is; newenc = i_intsetValueEncoding value;
          len = is_length is; prepend = (if value < 0 then 1 else 0);
          is = is\<lparr>encoding := newenc\<rparr>
      in do { is \<leftarrow> intsetResize junk is ((is_length is + 1) mod 2 ^ 32);
              is \<leftarrow> upgrade_loop is curenc len prepend;
              is \<leftarrow> (if prepend \<noteq> 0 then i_intsetSet is 0 value
                     else i_intsetSet is (int (is_length is)) value);
              Some (is\<lparr>is_length := (is_length is + 1) mod 2 ^ 32\<rparr>) })"

definition intsetMoveTail :: "intset \<Rightarrow> nat \<Rightarrow> nat \<Rightarrow> intset option" where
  "intsetMoveTail is from to =
     (let w = enc_width (encoding is);
          bytes = ((is_length is + (2 ^ 32 - from)) mod 2 ^ 32 * w) mod 2 ^ 32
      in do { c \<leftarrow> mem_move (contents is) (to * w) (from * w) bytes;
              Some (is\<lparr>contents := c\<rparr>) })"

definition intsetAdd :: "(nat \<Rightarrow> byte) \<Rightarrow> intset \<Rightarrow> int \<Rightarrow> (intset \<times> bool) option" where
  "intsetAdd junk is value =
     (let valenc = i_intsetValueEncoding value in
      if valenc > encoding is then
        do { is \<leftarrow> intsetUpgradeAndAdd junk is value; Some (is, True) }
      else
        do { (found, pos) \<leftarrow> intsetSearch is value;
             (if found then Some (is, False)
              else
                do { is \<leftarrow> intsetResize junk is ((is_length is + 1) mod 2 ^ 32);
                     is \<leftarrow> (if pos < int (is_length is)
                            then intsetMoveTail is (nat pos) (nat pos + 1) else Some is);
                     is \<leftarrow> i_intsetSet is pos value;
                     Some (is\<lparr>is_length := (is_length is + 1) mod 2 ^ 32\<rparr>, True) }) })"

definition intsetRemove :: "(nat \<Rightarrow> byte) \<Rightarrow> intset \<Rightarrow> int \<Rightarrow> (intset \<times> bool) option" where
  "intsetRemove junk is value =
     (let valenc = i_intsetValueEncoding value in
      if valenc \<le> encoding is then
        do { (found, pos) \<leftarrow> intsetSearch is value;
             (if found then
                let len = is_length is in
                do { is \<leftarrow> (if pos < int len - 1
                            then intsetMoveTail is (nat pos + 1) (nat pos) else Some is);
                     is \<leftarrow> intsetResize junk is (len - 1);
                     Some (is\<lparr>is_length := len - 1\<rparr>, True) }
              else Some (is, False)) }
      else Some (is, False))"

definition intsetFind :: "intset \<Rightarrow> int \<Rightarrow> bool option" where
  "intsetFind is value =
     (let valenc = i_intsetValueEncoding value in
      if valenc \<le> encoding is then map_option fst (intsetSearch is value) else Some False)"

text \<open>\<open>r\<close> is the value returned by \<open>rand()\<close>.\<close>

definition intsetRandom :: "nat \<Rightarrow> intset \<Rightarrow> int option" where
  "intsetRandom r is =
     (let len = is_length is in
      do { c_assert (len \<noteq> 0); i_intsetGet is (int (r mod len)) })"

definition intsetMax :: "intset \<Rightarrow> int option" where
  "intsetMax is = i_intsetGet is (int (is_length is) - 1)"

definition intsetMin :: "intset \<Rightarrow> int option" where
  "intsetMin is = i_intsetGet is 0"

definition intsetGet :: "intset \<Rightarrow> nat \<Rightarrow> int option option" where
  "intsetGet is pos =
     (if pos < is_length is then map_option Some (i_intsetGet is (int pos)) else Some None)"

definition intsetLen :: "intset \<Rightarrow> nat" where
  "intsetLen is = is_length is"

definition intsetBlobLen :: "intset \<Rightarrow> nat" where
  "intsetBlobLen is = 8 + is_length is * encoding is"

text \<open>
  \<open>intsetValidateIntegrity(p, size, deep)\<close> on an untrusted payload \<open>p\<close> of \<open>size\<close> bytes. The
  header is read from the payload; the loop compares neighbouring records.
\<close>

definition intset_of_blob :: "bytes \<Rightarrow> intset" where
  "intset_of_blob p =
     \<lparr>encoding = nat (le_val (take 4 p)), is_length = nat (le_val (take 4 (drop 4 p))),
      contents = drop 8 p\<rparr>"

function validate_loop :: "intset \<Rightarrow> nat \<Rightarrow> int \<Rightarrow> bool option" where
  "validate_loop is i prev =
     (if i < is_length is then
        (case i_intsetGet is (to_signed 32 (int i)) of
           None \<Rightarrow> None
         | Some cur \<Rightarrow> if cur \<le> prev then Some False else validate_loop is (i + 1) cur)
      else Some True)"
  by pat_completeness auto
termination
  by (relation "measure (\<lambda>(is, i, _). is_length is - i)") auto

declare validate_loop.simps [simp del]

definition intsetValidateIntegrity :: "bytes \<Rightarrow> bool \<Rightarrow> bool option" where
  "intsetValidateIntegrity p deep =
     (if length p < 8 then Some False
      else
        let is = intset_of_blob p in
        if encoding is \<notin> {INTSET_ENC_INT64, INTSET_ENC_INT32, INTSET_ENC_INT16} then Some False
        else
          let record_size = encoding is; count = is_length is in
          if 8 + count * record_size \<noteq> length p then Some False
          else if count = 0 then Some False
          else if \<not> deep then Some True
          else do { prev \<leftarrow> i_intsetGet is 0; validate_loop is 1 prev })"

section \<open>Abstraction and invariant\<close>

definition fits :: "nat \<Rightarrow> int \<Rightarrow> bool" where
  "fits enc v \<longleftrightarrow> - (2 ^ (8 * enc - 1)) \<le> v \<and> v < 2 ^ (8 * enc - 1)"

definition enc_ints :: "nat \<Rightarrow> int list \<Rightarrow> bytes" where
  "enc_ints w xs = concat (map (le_bytes w) xs)"

text \<open>The elements, read back from the contents area.\<close>

definition intset_elems :: "intset \<Rightarrow> int list" where
  "intset_elems is =
     map (\<lambda>i. to_signed (8 * encoding is)
        (le_val (take (encoding is) (drop (i * encoding is) (contents is))))) [0..<is_length is]"

definition intset_rep :: "intset \<Rightarrow> int list \<Rightarrow> bool" where
  "intset_rep is xs \<longleftrightarrow>
     encoding is \<in> {2, 4, 8} \<and> is_length is = length xs \<and> length xs < 2 ^ 31
     \<and> contents is = enc_ints (encoding is) xs \<and> (\<forall>x \<in> set xs. fits (encoding is) x)
     \<and> sorted_wrt (<) xs"

text \<open>The invariant as a check on the structure itself.\<close>

definition intset_ok :: "intset \<Rightarrow> bool" where
  "intset_ok is \<longleftrightarrow>
     encoding is \<in> {2, 4, 8} \<and> is_length is < 2 ^ 31
     \<and> length (contents is) = is_length is * encoding is \<and> sorted_wrt (<) (intset_elems is)"

text \<open>With the bound under which the 32-bit byte counts of the moves are exact.\<close>

definition intset_inv :: "intset \<Rightarrow> bool" where
  "intset_inv is \<longleftrightarrow> intset_ok is \<and> is_length is < 2 ^ 29"

section \<open>Fixed-width records in a byte buffer\<close>

lemma length_enc_ints [simp]: "length (enc_ints w xs) = length xs * w"
  by (induction xs) (simp_all add: enc_ints_def)

lemma enc_ints_append: "enc_ints w (xs @ ys) = enc_ints w xs @ enc_ints w ys"
  by (simp add: enc_ints_def)

lemma enc_ints_simps [simp]: "enc_ints w [] = []" "enc_ints w (x # xs) = le_bytes w x @ enc_ints w xs"
  by (simp_all add: enc_ints_def)

lemma take_enc_ints: "take (i * w) (enc_ints w xs) = enc_ints w (take i xs)"
proof (induction xs arbitrary: i)
  case Nil
  then show ?case by simp
next
  case (Cons x xs)
  then show ?case by (cases i) simp_all
qed

lemma drop_enc_ints: "drop (i * w) (enc_ints w xs) = enc_ints w (drop i xs)"
proof (induction xs arbitrary: i)
  case Nil
  then show ?case by simp
next
  case (Cons x xs)
  then show ?case by (cases i) simp_all
qed

lemma enc_ints_nth:
  "i < length xs \<Longrightarrow> take w (drop (i * w) (enc_ints w xs)) = le_bytes w (xs ! i)"
  by (simp add: drop_enc_ints Cons_nth_drop_Suc [symmetric])

lemma enc_width_id [simp]: "enc \<in> {2, 4, 8} \<Longrightarrow> enc_width enc = enc"
  by (auto simp: enc_width_def)

lemma to_signed_le_bytes:
  assumes "fits w v" "0 < w"
  shows "to_signed (8 * w) (le_val (le_bytes w v)) = v"
proof -
  have "(256::int) ^ w = 2 ^ (8 * w)" by (simp add: power_mult)
  then show ?thesis
    using assms to_signed_mod [of "8 * w" v] by (simp add: le_val_le_bytes fits_def)
qed

lemma fits_mono: "fits a v \<Longrightarrow> a \<le> b \<Longrightarrow> fits b v"
proof -
  assume "fits a v" "a \<le> b"
  moreover have "(2::int) ^ (8 * a - 1) \<le> 2 ^ (8 * b - 1)"
    using \<open>a \<le> b\<close> by (intro power_increasing) auto
  ultimately show ?thesis unfolding fits_def by linarith
qed

lemma fits_int64: "enc \<in> {2, 4, 8} \<Longrightarrow> fits enc v \<Longrightarrow> is_int64 v"
  by (auto simp: fits_def is_int64_def)

lemma fits_value_encoding:
  assumes "is_int64 v" "enc \<in> {2, 4, 8}"
  shows "i_intsetValueEncoding v \<le> enc \<longleftrightarrow> fits enc v"
  using assms by (auto simp: i_intsetValueEncoding_def fits_def is_int64_def)

lemma value_encoding_range: "i_intsetValueEncoding v \<in> {2, 4, 8}"
  by (simp add: i_intsetValueEncoding_def)

lemma intset_elems_rep: "intset_rep is xs \<Longrightarrow> intset_elems is = xs"
proof -
  assume rep: "intset_rep is xs"
  then have "0 < encoding is" by (auto simp: intset_rep_def)
  then show ?thesis
    using rep by (intro nth_equalityI)
      (simp_all add: intset_elems_def intset_rep_def enc_ints_nth to_signed_le_bytes)
qed

section \<open>Reading and searching\<close>

lemma getEncoded_take:
  assumes "take (n * enc) (contents is) = enc_ints enc xs" "length xs = n" "n * enc \<le> length (contents is)"
    "i < n" "enc \<in> {2, 4, 8}" "fits enc (xs ! i)"
  shows "i_intsetGetEncoded is (int i) enc = Some (xs ! i)"
proof -
  have le: "i * enc + enc \<le> n * enc" using assms(4) mult_le_mono1 [of "Suc i" n enc] by simp
  have "take enc (drop (i * enc) (contents is)) = take enc (drop (i * enc) (take (n * enc) (contents is)))"
    using le by (simp add: take_drop min_def)
  also have "\<dots> = le_bytes enc (xs ! i)" using assms by (simp add: enc_ints_nth)
  finally have "mem_read (contents is) (i * enc) enc = Some (le_bytes enc (xs ! i))"
    using le assms(3) by (simp add: mem_read_def)
  moreover have "0 < enc" using assms(5) by auto
  ultimately show ?thesis
    using assms(5,6) by (simp add: i_intsetGetEncoded_def to_signed_le_bytes)
qed

lemma intsetGet_rep:
  assumes "intset_rep is xs" "i < length xs"
  shows "i_intsetGet is (int i) = Some (xs ! i)"
  unfolding i_intsetGet_def
  using assms by (intro getEncoded_take [of "length xs"]) (auto simp: intset_rep_def)

lemma intsetGet_rep_int:
  "intset_rep is xs \<Longrightarrow> 0 \<le> p \<Longrightarrow> p < int (length xs) \<Longrightarrow> i_intsetGet is p = Some (xs ! nat p)"
  using intsetGet_rep [of "is" xs "nat p"] by simp

lemma sorted_wrt_less_nth: "sorted_wrt (<) (xs :: int list) \<Longrightarrow> i < j \<Longrightarrow> j < length xs \<Longrightarrow> xs ! i < xs ! j"
  by (rule sorted_wrt_nth_less)

text \<open>The loop keeps: everything left of \<open>lo\<close> is smaller, everything right of \<open>hi\<close> larger.\<close>

lemma search_loop_correct:
  assumes "intset_rep is xs"
  shows "0 \<le> lo \<Longrightarrow> hi < int (length xs) \<Longrightarrow> lo \<le> hi \<Longrightarrow>
     (\<forall>i < length xs. (int i < lo \<longrightarrow> xs ! i < v) \<and> (hi < int i \<longrightarrow> v < xs ! i)) \<Longrightarrow>
     \<exists>lo' mid' cur'. intsetSearch_loop is v lo hi mid cur = Some (lo', mid', cur') \<and>
       (if v \<in> set xs then cur' = v \<and> 0 \<le> mid' \<and> nat mid' < length xs \<and> xs ! nat mid' = v
        else cur' \<noteq> v \<and> 0 \<le> lo' \<and> nat lo' \<le> length xs
          \<and> (\<forall>i < length xs. (i < nat lo' \<longrightarrow> xs ! i < v) \<and> (nat lo' \<le> i \<longrightarrow> v < xs ! i)))"
proof (induction "nat (hi - lo)" arbitrary: lo hi mid cur rule: less_induct)
  case less
  let ?m = "(lo + hi) div 2"
  have m: "lo \<le> ?m" "?m \<le> hi" using less.prems by auto
  have get: "i_intsetGet is ?m = Some (xs ! nat ?m)"
    using assms less.prems m by (intro intsetGet_rep_int) auto
  have nm: "nat ?m < length xs" using less.prems m by linarith
  have sorted: "sorted_wrt (<) xs" using assms by (simp add: intset_rep_def)
  have below: "xs ! i < xs ! nat ?m" if "int i < ?m" for i
    using sorted_wrt_nth_less [OF sorted, of i "nat ?m"] that nm by simp
  have above: "xs ! nat ?m < xs ! i" if "?m < int i" "i < length xs" for i
    using sorted_wrt_nth_less [OF sorted, of "nat ?m" i] that less.prems m by (simp add: nat_less_iff)
  consider (gt) "v > xs ! nat ?m" | (lt) "v < xs ! nat ?m" | (eq) "v = xs ! nat ?m" by linarith
  then show ?case
  proof cases
    case eq
    then show ?thesis
      using less.prems get m nm by (subst intsetSearch_loop.simps) (auto simp: Let_def)
  next
    case gt
    have inv: "\<forall>i < length xs. (int i < ?m + 1 \<longrightarrow> xs ! i < v) \<and> (hi < int i \<longrightarrow> v < xs ! i)"
    proof (intro allI impI conjI)
      fix i assume i: "i < length xs"
      show "v < xs ! i" if "hi < int i" using less.prems(4) i that by blast
      show "xs ! i < v" if "int i < ?m + 1"
      proof (cases "int i = ?m")
        case True
        then have "i = nat ?m" by linarith
        then show ?thesis using gt by simp
      next
        case False
        then show ?thesis using below [of i] that gt by linarith
      qed
    qed
    have step: "intsetSearch_loop is v lo hi mid cur = intsetSearch_loop is v (?m + 1) hi ?m (xs ! nat ?m)"
      using less.prems get gt by (subst intsetSearch_loop.simps) (simp add: Let_def)
    show ?thesis
    proof (cases "?m + 1 \<le> hi")
      case True
      then show ?thesis
        unfolding step using less.prems m inv by (intro less.hyps) auto
    next
      case False
      then have "hi = ?m" using m by simp
      have "v \<notin> set xs"
        using inv \<open>hi = ?m\<close> by (auto simp: in_set_conv_nth)
      moreover have "intsetSearch_loop is v (?m + 1) hi ?m (xs ! nat ?m) = Some (?m + 1, ?m, xs ! nat ?m)"
        using False by (subst intsetSearch_loop.simps) simp
      ultimately show ?thesis
        using step inv \<open>hi = ?m\<close> gt nm m less.prems(1) by (auto simp: nat_le_iff zless_nat_eq_int_zless)
    qed
  next
    case lt
    have inv: "\<forall>i < length xs. (int i < lo \<longrightarrow> xs ! i < v) \<and> (?m - 1 < int i \<longrightarrow> v < xs ! i)"
    proof (intro allI impI conjI)
      fix i assume i: "i < length xs"
      show "xs ! i < v" if "int i < lo" using less.prems(4) i that by blast
      show "v < xs ! i" if "?m - 1 < int i"
      proof (cases "int i = ?m")
        case True
        then have "i = nat ?m" by linarith
        then show ?thesis using lt by simp
      next
        case False
        then show ?thesis using above [of i] that i lt by linarith
      qed
    qed
    have step: "intsetSearch_loop is v lo hi mid cur = intsetSearch_loop is v lo (?m - 1) ?m (xs ! nat ?m)"
      using less.prems get lt by (subst intsetSearch_loop.simps) (simp add: Let_def)
    show ?thesis
    proof (cases "lo \<le> ?m - 1")
      case True
      then show ?thesis
        unfolding step using less.prems m inv by (intro less.hyps) auto
    next
      case False
      then have "lo = ?m" using m by simp
      have "v \<notin> set xs"
        using inv \<open>lo = ?m\<close> by (auto simp: in_set_conv_nth)
      moreover have "intsetSearch_loop is v lo (?m - 1) ?m (xs ! nat ?m) = Some (lo, ?m, xs ! nat ?m)"
        using False by (subst intsetSearch_loop.simps) simp
      ultimately show ?thesis
        using step inv \<open>lo = ?m\<close> lt nm m less.prems(1) by (auto simp: nat_le_iff zless_nat_eq_int_zless)
    qed
  qed
qed

lemma intsetSearch_rep:
  assumes "intset_rep is xs"
  shows "\<exists>pos. intsetSearch is v = Some (v \<in> set xs, int pos) \<and>
    (if v \<in> set xs then pos < length xs \<and> xs ! pos = v
     else pos \<le> length xs \<and> (\<forall>i < length xs. (i < pos \<longrightarrow> xs ! i < v) \<and> (pos \<le> i \<longrightarrow> v < xs ! i)))"
proof (cases "xs = []")
  case True
  then show ?thesis using assms by (simp add: intsetSearch_def intset_rep_def)
next
  case False
  have len: "is_length is = length xs" and sorted: "sorted_wrt (<) xs"
    using assms by (simp_all add: intset_rep_def)
  have last: "i_intsetGet is (int (is_length is) - 1) = Some (xs ! (length xs - 1))"
    using assms False intsetGet_rep_int [of "is" xs "int (length xs) - 1"] by (simp add: len Suc_le_eq nat_diff_distrib)
  have first: "i_intsetGet is 0 = Some (xs ! 0)"
    using assms False intsetGet_rep [of "is" xs 0] by simp
  have le_last: "xs ! i \<le> xs ! (length xs - 1)" if "i < length xs" for i
  proof (cases "i = length xs - 1")
    case False
    then have "i < length xs - 1" "length xs - 1 < length xs" using that by simp_all
    then show ?thesis using sorted_wrt_nth_less [OF sorted, of i "length xs - 1"] that by (simp add: order_less_imp_le)
  qed simp
  have ge_first: "xs ! 0 \<le> xs ! i" if "i < length xs" for i
    using sorted_wrt_nth_less [OF sorted, of 0 i] that by (cases i) auto
  consider (gt) "v > xs ! (length xs - 1)" | (lt) "v < xs ! 0" "v \<le> xs ! (length xs - 1)"
    | (mid) "xs ! 0 \<le> v" "v \<le> xs ! (length xs - 1)" by linarith
  then show ?thesis
  proof cases
    case gt
    then have "v \<notin> set xs" using le_last by (fastforce simp: in_set_conv_nth)
    moreover have "intsetSearch is v = Some (False, int (length xs))"
      using gt False last by (simp add: intsetSearch_def len Let_def)
    ultimately show ?thesis using gt by (auto dest: le_last)
  next
    case lt
    then have "v \<notin> set xs" using ge_first by (fastforce simp: in_set_conv_nth)
    moreover have "intsetSearch is v = Some (False, 0)"
      using lt False last first by (simp add: intsetSearch_def len Let_def)
    ultimately show ?thesis using lt by (intro exI [of _ 0]) (auto dest: ge_first)
  next
    case mid
    obtain lo' mid' cur' where loop: "intsetSearch_loop is v 0 (int (length xs) - 1) (-1) (-1) = Some (lo', mid', cur')"
      and res: "if v \<in> set xs then cur' = v \<and> 0 \<le> mid' \<and> nat mid' < length xs \<and> xs ! nat mid' = v
        else cur' \<noteq> v \<and> 0 \<le> lo' \<and> nat lo' \<le> length xs
          \<and> (\<forall>i < length xs. (i < nat lo' \<longrightarrow> xs ! i < v) \<and> (nat lo' \<le> i \<longrightarrow> v < xs ! i))"
      using search_loop_correct [OF assms, of 0 "int (length xs) - 1" v "-1" "-1"] False
      by (auto simp: Suc_le_eq)
    have "intsetSearch is v = Some (if v = cur' then (True, mid') else (False, lo'))"
      using mid False last first loop by (simp add: intsetSearch_def len Let_def)
    then show ?thesis
    proof (cases "v \<in> set xs")
      case True
      then show ?thesis
        using res \<open>intsetSearch is v = _\<close> by (intro exI [of _ "nat mid'"]) simp
    next
      case False
      then show ?thesis
        using res \<open>intsetSearch is v = _\<close> by (intro exI [of _ "nat lo'"]) simp
    qed
  qed
qed

section \<open>The invariant as a check\<close>

lemma le_bytes_mod: "le_bytes n (v mod 256 ^ n) = le_bytes n v"
  using le_bytes_le_val [of "le_bytes n v"] by (simp add: le_val_le_bytes)

lemma le_bytes_cong: "a mod 256 ^ n = b mod 256 ^ n \<Longrightarrow> le_bytes n a = le_bytes n b"
  by (metis le_bytes_mod)

lemma le_bytes_to_signed:
  assumes "length bs = w" "0 < w"
  shows "le_bytes w (to_signed (8 * w) (le_val bs)) = bs \<and> fits w (to_signed (8 * w) (le_val bs))"
proof -
  have p: "(2::int) ^ (8 * w) = 256 ^ w" by (simp add: power_mult)
  have "to_signed (8 * w) (le_val bs) mod 256 ^ w = le_val bs mod 256 ^ w"
    by (simp add: to_signed_def p)
  then have "le_bytes w (to_signed (8 * w) (le_val bs)) = bs"
    using le_bytes_cong le_bytes_le_val [of bs] assms(1) by metis
  moreover have "8 * w = Suc (8 * w - 1)" using assms(2) by simp
  then have "(2::int) ^ (8 * w) = 2 * 2 ^ (8 * w - 1)" by (metis power_Suc)
  then have "fits w (to_signed (8 * w) (le_val bs))"
    using le_val_bounds [of bs] assms(1) p
    by (auto simp: fits_def to_signed_def intro: order_trans [OF _ le_val_nonneg])
  ultimately show ?thesis by simp
qed

lemma concat_chunks:
  "length bs = n * w \<Longrightarrow> concat (map (\<lambda>i. take w (drop (i * w) bs)) [0..<n]) = bs"
proof (induction n arbitrary: bs)
  case 0
  then show ?case by simp
next
  case (Suc n)
  have "map (\<lambda>i. take w (drop (i * w) bs)) [0..<n] = map (\<lambda>i. take w (drop (i * w) (take (n * w) bs))) [0..<n]"
  proof (rule map_cong [OF refl])
    fix i assume "i \<in> set [0..<n]"
    then have "i * w + w \<le> n * w" using mult_le_mono1 [of "Suc i" n w] by simp
    then show "take w (drop (i * w) bs) = take w (drop (i * w) (take (n * w) bs))"
      by (simp add: take_drop min_def)
  qed
  moreover have "concat (map (\<lambda>i. take w (drop (i * w) (take (n * w) bs))) [0..<n]) = take (n * w) bs"
    using Suc.prems by (intro Suc.IH) simp
  moreover have "take w (drop (n * w) bs) = drop (n * w) bs" using Suc.prems by simp
  ultimately have "concat (map (\<lambda>i. take w (drop (i * w) bs)) [0..<Suc n]) = take (n * w) bs @ drop (n * w) bs"
    by (simp only: upt_Suc_append [OF le0] map_append concat_append list.map concat.simps append_Nil2)
  then show ?case by simp
qed

lemma intset_ok_rep: "intset_ok is \<longleftrightarrow> intset_rep is (intset_elems is)"
proof
  assume ok: "intset_ok is"
  then have w: "0 < encoding is" by (auto simp: intset_ok_def)
  have chunk: "length (take (encoding is) (drop (i * encoding is) (contents is))) = encoding is"
    if "i < is_length is" for i
    using that ok mult_le_mono1 [of "Suc i" "is_length is" "encoding is"] by (simp add: intset_ok_def)
  have "enc_ints (encoding is) (intset_elems is)
      = concat (map (\<lambda>i. take (encoding is) (drop (i * encoding is) (contents is))) [0..<is_length is])"
    unfolding enc_ints_def intset_elems_def map_map
    by (intro arg_cong [where f = concat] map_cong refl) (simp add: le_bytes_to_signed [OF chunk w])
  also have "\<dots> = contents is" using ok by (intro concat_chunks) (simp add: intset_ok_def)
  finally have "contents is = enc_ints (encoding is) (intset_elems is)" by simp
  moreover have "\<forall>x \<in> set (intset_elems is). fits (encoding is) x"
    using le_bytes_to_signed [OF chunk w] by (auto simp: intset_elems_def)
  moreover have "length (intset_elems is) = is_length is" by (simp add: intset_elems_def)
  ultimately show "intset_rep is (intset_elems is)"
    using ok by (simp add: intset_rep_def intset_ok_def)
next
  assume "intset_rep is (intset_elems is)"
  then show "intset_ok is"
    by (auto simp: intset_rep_def intset_ok_def)
qed

lemma intset_repI: "intset_ok is \<Longrightarrow> intset_rep is (intset_elems is)"
  by (simp only: intset_ok_rep)

lemma intset_repD: "intset_rep is xs \<Longrightarrow> intset_ok is \<and> intset_elems is = xs"
  using intset_elems_rep [of "is" xs] by (simp add: intset_ok_rep)

section \<open>Upgrading in place\<close>

lemma mem_write_take:
  "mem_write buf off xs = Some buf' \<Longrightarrow> n \<le> off \<Longrightarrow> take n buf' = take n buf"
  by (auto simp: mem_write_def min_def split: if_splits)

lemma mem_write_drop:
  "mem_write buf off xs = Some buf' \<Longrightarrow> drop off buf' = xs @ drop (off + length xs) buf"
  by (auto simp: mem_write_def split: if_splits)

lemma intsetSet_contents:
  assumes "i_intsetSet is (int i) v = Some is'"
  shows "mem_write (contents is) (i * enc_width (encoding is)) (le_bytes (enc_width (encoding is)) v) = Some (contents is')
     \<and> encoding is' = encoding is \<and> is_length is' = is_length is"
  using assms by (auto simp: i_intsetSet_def Let_def split: bind_splits)

lemma intsetSet_some:
  assumes "encoding is \<in> {2, 4, 8}" "(i + 1) * encoding is \<le> length (contents is)"
  obtains is' where "i_intsetSet is (int i) v = Some is'" "encoding is' = encoding is"
    "is_length is' = is_length is" "length (contents is') = length (contents is)"
    "drop (i * encoding is) (contents is') = le_bytes (encoding is) v @ drop ((i + 1) * encoding is) (contents is)"
    "\<And>n. n \<le> i * encoding is \<Longrightarrow> take n (contents is') = take n (contents is)"
proof -
  let ?w = "encoding is"
  have "enc_width ?w = ?w" using assms(1) by simp
  obtain c where c: "mem_write (contents is) (i * ?w) (le_bytes ?w v) = Some c"
    using assms(2) by (simp add: mem_write_def)
  show ?thesis
  proof (rule that)
    show "i_intsetSet is (int i) v = Some (is\<lparr>contents := c\<rparr>)"
      using c assms(1) by (simp add: i_intsetSet_def)
  qed (use mem_write_drop [OF c] mem_write_take [OF c] mem_write_length [OF c] in \<open>auto simp: algebra_simps\<close>)
qed

text \<open>
  The loop reads record \<open>len - 1\<close> at the old width and writes it at the new one. What is still to
  be read lies below everything written so far.
\<close>

lemma upgrade_loop_correct:
  assumes "old \<in> {2, 4, 8}" "old \<le> encoding is" "encoding is \<in> {2, 4, 8}" "p \<in> {0, 1 :: nat}"
    "n \<le> length xs" "\<forall>x \<in> set xs. fits old x"
    "take (n * old) (contents is) = enc_ints old (take n xs)"
    "drop ((n + p) * encoding is) (contents is) = enc_ints (encoding is) (drop n xs) @ T"
    "(n + p) * encoding is \<le> length (contents is)"
  shows "\<exists>is'. upgrade_loop is old n (int p) = Some is' \<and> encoding is' = encoding is
    \<and> is_length is' = is_length is \<and> length (contents is') = length (contents is)
    \<and> drop (p * encoding is) (contents is') = enc_ints (encoding is) xs @ T"
  using assms
proof (induction n arbitrary: "is")
  case 0
  then show ?case by simp
next
  case (Suc n)
  let ?w = "encoding is"
  have le1: "n * old \<le> (n + p) * ?w" using Suc.prems(2) by (intro mult_le_mono) auto
  have le2: "Suc n * old \<le> length (contents is)"
    using Suc.prems(2,9) mult_le_mono [of "Suc n" "Suc n + p" old ?w] by linarith
  have get: "i_intsetGetEncoded is (int n) old = Some (xs ! n)"
    using getEncoded_take [of "Suc n" old "is" "take (Suc n) xs" n] Suc.prems le2 by simp
  obtain is' where s: "i_intsetSet is (int (n + p)) (xs ! n) = Some is'" "encoding is' = ?w"
    "is_length is' = is_length is" "length (contents is') = length (contents is)"
    and d: "drop ((n + p) * ?w) (contents is') = le_bytes ?w (xs ! n) @ drop ((n + p + 1) * ?w) (contents is)"
    and t: "\<And>m. m \<le> (n + p) * ?w \<Longrightarrow> take m (contents is') = take m (contents is)"
    using intsetSet_some [of "is" "n + p" "xs ! n"] Suc.prems(3,9) by (auto simp: algebra_simps)
  have "take (n * old) (contents is') = take (n * old) (take (Suc n * old) (contents is))"
    using t [OF le1] by (simp add: min_def)
  also have "\<dots> = enc_ints old (take n xs)"
    unfolding Suc.prems(7) by (simp add: take_enc_ints min_def)
  finally have t': "take (n * old) (contents is') = enc_ints old (take n xs)" .
  have d': "drop ((n + p) * ?w) (contents is') = enc_ints ?w (drop n xs) @ T"
    using d Suc.prems(5,8) by (simp add: Cons_nth_drop_Suc [symmetric])
  have "\<exists>is''. upgrade_loop is' old n (int p) = Some is'' \<and> encoding is'' = encoding is'
    \<and> is_length is'' = is_length is' \<and> length (contents is'') = length (contents is')
    \<and> drop (p * encoding is') (contents is'') = enc_ints (encoding is') xs @ T"
    using Suc.prems s t' d' by (intro Suc.IH) auto
  then show ?case using get s by simp
qed

lemma intsetResize_some:
  assumes "n < 2 ^ 32" "encoding is \<in> {2, 4, 8}"
  shows "intsetResize junk is n = Some (is\<lparr>contents := mem_resize junk (contents is) (n * encoding is)\<rparr>)"
proof -
  have "n * encoding is \<le> n * 8" using assms(2) by (intro mult_le_mono) auto
  also have "\<dots> < 2 ^ 36" using assms(1) by simp
  finally have "n * encoding is < 2 ^ 36" .
  then show ?thesis by (simp add: intsetResize_def)
qed

lemma take_mem_resize: "k \<le> n \<Longrightarrow> k \<le> length buf \<Longrightarrow> take k (mem_resize junk buf n) = take k buf"
  by (simp add: mem_resize_def min_def)

text \<open>A value that does not fit the current width is below or above every element.\<close>

lemma not_fits_extreme:
  assumes "\<not> fits w v" "\<forall>x \<in> set xs. fits w x" "x \<in> set xs"
  shows "if v < 0 then v < x else x < v"
proof -
  have "(0::int) < 2 ^ (8 * w - 1)" by simp
  then show ?thesis using assms unfolding fits_def by (smt (verit))
qed

lemma intsetUpgradeAndAdd_rep:
  assumes rep: "intset_rep is xs" and v: "is_int64 v" and up: "encoding is < i_intsetValueEncoding v"
    and room: "length xs + 1 < 2 ^ 31"
  shows "\<exists>is'. intsetUpgradeAndAdd junk is v = Some is' \<and> encoding is' = i_intsetValueEncoding v \<and>
     intset_rep is' (if v < 0 then v # xs else xs @ [v])"
proof -
  let ?new = "i_intsetValueEncoding v" and ?old = "encoding is" and ?n = "length xs"
  define p :: nat where "p = (if v < 0 then 1 else 0)"
  let ?is1 = "is\<lparr>encoding := ?new, contents := mem_resize junk (contents is) ((?n + 1) * ?new)\<rparr>"
  have enc: "?old \<in> {2, 4, 8}" "is_length is = ?n" "contents is = enc_ints ?old xs"
    "\<forall>x \<in> set xs. fits ?old x" "sorted_wrt (<) xs"
    using rep by (simp_all add: intset_rep_def)
  have new: "?new \<in> {2, 4, 8}" by (rule value_encoding_range)
  have nf: "\<not> fits ?old v" "fits ?new v"
    using fits_value_encoding [OF v enc(1)] fits_value_encoding [OF v new] up by auto
  have le: "?n * ?old \<le> (?n + 1) * ?new" using up by (intro mult_le_mono) auto
  have resize: "intsetResize junk (is\<lparr>encoding := ?new\<rparr>) (?n + 1) = Some ?is1"
    using intsetResize_some [of "?n + 1" "is\<lparr>encoding := ?new\<rparr>"] room new by simp
  have pn: "(?n + p) * ?new \<le> (?n + 1) * ?new" by (intro mult_le_mono1) (simp add: p_def)
  obtain T where T: "drop ((?n + p) * ?new) (contents ?is1) = T" by simp
  have lenT: "length T = (1 - p) * ?new"
    unfolding T [symmetric] by (simp add: p_def)
  have take1: "take (?n * ?old) (contents ?is1) = enc_ints ?old xs"
    using take_mem_resize [OF le, of "contents is" junk] enc(3) by simp
  obtain is2 where is2: "upgrade_loop ?is1 ?old ?n (int p) = Some is2" "encoding is2 = ?new"
    "is_length is2 = ?n" "length (contents is2) = (?n + 1) * ?new"
    "drop (p * ?new) (contents is2) = enc_ints ?new xs @ T"
    using upgrade_loop_correct [of ?old ?is1 p ?n xs T] enc new take1 T up pn
    by (auto simp: p_def split: if_splits)
  define pos where "pos = (if v < 0 then 0 else ?n)"
  have "(pos + 1) * ?new \<le> (?n + 1) * ?new" by (intro mult_le_mono1) (simp add: pos_def)
  then have room2: "(pos + 1) * encoding is2 \<le> length (contents is2)" using is2 by simp
  obtain is3 where is3: "i_intsetSet is2 (int pos) v = Some is3" "encoding is3 = ?new"
    "is_length is3 = ?n" "length (contents is3) = (?n + 1) * ?new"
    "drop (pos * ?new) (contents is3) = le_bytes ?new v @ drop ((pos + 1) * ?new) (contents is2)"
    "take (pos * ?new) (contents is3) = take (pos * ?new) (contents is2)"
    using intsetSet_some [OF _ room2, of v] is2 new by (metis order_refl)
  have cont: "contents is3 = enc_ints ?new (if v < 0 then v # xs else xs @ [v])"
  proof (cases "v < 0")
    case True
    then show ?thesis using is3(5) is2(5) lenT by (simp add: p_def pos_def)
  next
    case False
    have "contents is3 = take (?n * ?new) (contents is3) @ drop (?n * ?new) (contents is3)" by simp
    also have "\<dots> = take (?n * ?new) (contents is2) @ le_bytes ?new v"
      using False is3(5,6) is2(4) by (simp add: pos_def)
    also have "take (?n * ?new) (contents is2) = enc_ints ?new xs"
      using False is2(5) by (simp add: p_def)
    finally show ?thesis using False by (simp add: enc_ints_append)
  qed
  have "intsetUpgradeAndAdd junk is v = Some (is3\<lparr>is_length := ?n + 1\<rparr>)"
    using resize is2(1,3) is3(1,3) room enc(2)
    by (cases "v < 0") (simp_all add: intsetUpgradeAndAdd_def Let_def p_def pos_def)
  moreover have "intset_rep (is3\<lparr>is_length := ?n + 1\<rparr>) (if v < 0 then v # xs else xs @ [v])"
    using cont is3 new nf enc up room not_fits_extreme [OF nf(1) enc(4)]
    by (auto simp: intset_rep_def sorted_wrt_append intro: fits_mono split: if_splits)
  ultimately show ?thesis using is3(2) by auto
qed

section \<open>Inserting and deleting by moving the tail\<close>

text \<open>The \<open>uint32_t\<close> arithmetic of the byte count is exact while the area is below 4 GB.\<close>

lemma moveTail_bytes:
  fixes n k w :: nat
  assumes "k \<le> n" "n * w < 2 ^ 32" "0 < w"
  shows "((n + (2 ^ 32 - k)) mod 2 ^ 32 * w) mod 2 ^ 32 = (n - k) * w"
proof -
  have "n * 1 \<le> n * w" using assms(3) by (intro mult_le_mono) auto
  then have n: "n < 2 ^ 32" using assms(2) by linarith
  then have "n + (2 ^ 32 - k) = (n - k) + 2 ^ 32" using assms(1) by simp
  then have "(n + (2 ^ 32 - k)) mod 2 ^ 32 = (n - k) mod 2 ^ 32"
    by (simp only: mod_add_self2)
  then have "(n + (2 ^ 32 - k)) mod 2 ^ 32 = n - k"
    using n by simp
  moreover have "(n - k) * w \<le> n * w" by (intro mult_le_mono1) simp
  then have "(n - k) * w < 2 ^ 32" using assms(2) by (rule le_less_trans)
  ultimately show ?thesis by simp
qed

lemma sorted_insert_at:
  fixes xs :: "int list"
  assumes "sorted_wrt (<) xs" "pos \<le> length xs"
    "\<forall>i < length xs. (i < pos \<longrightarrow> xs ! i < v) \<and> (pos \<le> i \<longrightarrow> v < xs ! i)"
  shows "sorted_wrt (<) (take pos xs @ v # drop pos xs)"
proof -
  have a: "\<forall>x \<in> set (take pos xs). x < v"
    using assms(2,3) by (auto simp: in_set_conv_nth)
  have b: "\<forall>x \<in> set (drop pos xs). v < x"
    using assms(2,3) by (auto simp: in_set_conv_nth)
  have "sorted_wrt (<) (take pos xs @ drop pos xs)" using assms(1) by simp
  then have "sorted_wrt (<) (take pos xs)" "sorted_wrt (<) (drop pos xs)"
    by (simp_all only: sorted_wrt_append)
  then show ?thesis
    using a b by (auto simp: sorted_wrt_append intro: order.strict_trans)
qed

lemma sorted_delete_at:
  fixes xs :: "int list"
  assumes "sorted_wrt (<) xs" "pos < length xs"
  shows "sorted_wrt (<) (take pos xs @ drop (Suc pos) xs)"
    and "set (take pos xs @ drop (Suc pos) xs) = set xs - {xs ! pos}"
proof -
  have split: "xs = take pos xs @ xs ! pos # drop (Suc pos) xs"
    by (simp add: id_take_nth_drop assms(2))
  have "sorted_wrt (<) (take pos xs @ xs ! pos # drop (Suc pos) xs)"
    using assms(1) split by simp
  then show "sorted_wrt (<) (take pos xs @ drop (Suc pos) xs)"
    by (simp add: sorted_wrt_append)
  have "distinct (take pos xs @ xs ! pos # drop (Suc pos) xs)"
    using assms(1) split strict_sorted_iff by metis
  then have "set (take pos xs @ xs ! pos # drop (Suc pos) xs) - {xs ! pos}
      = set (take pos xs @ drop (Suc pos) xs)" by auto
  then show "set (take pos xs @ drop (Suc pos) xs) = set xs - {xs ! pos}"
    using split by simp
qed

text \<open>The state after growing the area by one record, and the effect of the move.\<close>

lemma intsetMoveTail_up:
  assumes "contents is = enc_ints w xs @ extra" "length extra = w" "encoding is = w" "w \<in> {2, 4, 8}"
    "is_length is = length xs" "length xs * w < 2 ^ 32" "pos \<le> length xs"
  shows "\<exists>old. length old = w \<and> intsetMoveTail is pos (pos + 1) =
    Some (is\<lparr>contents := enc_ints w (take pos xs) @ old @ enc_ints w (drop pos xs)\<rparr>)"
proof -
  let ?c = "contents is" and ?k = "(length xs - pos) * w"
  have w: "0 < w" using assms(4) by auto
  have len: "length ?c = (length xs + 1) * w" using assms(1,2) by simp
  have k: "pos * w + ?k = length xs * w"
    using assms(7) by (simp add: add_mult_distrib [symmetric])
  have "?c = enc_ints w (take pos xs) @ enc_ints w (drop pos xs) @ extra"
    using assms(1) by (simp add: enc_ints_append [symmetric])
  then have read: "mem_read ?c (pos * w) ?k = Some (enc_ints w (drop pos xs))"
    using assms(7) by (simp add: mem_read_append)
  have "mem_write ?c ((pos + 1) * w) (enc_ints w (drop pos xs))
      = Some (take ((pos + 1) * w) ?c @ enc_ints w (drop pos xs))"
    using len k by (simp add: mem_write_def)
  moreover have "take ((pos + 1) * w) ?c = enc_ints w (take pos xs) @ take w (drop (pos * w) ?c)"
  proof -
    have "take ((pos + 1) * w) ?c = take (pos * w) ?c @ take w (drop (pos * w) ?c)"
      by (simp add: take_add add.commute [of w])
    moreover have "take (pos * w) ?c = enc_ints w (take pos xs)"
      using \<open>?c = enc_ints w (take pos xs) @ _\<close> assms(7) by simp
    ultimately show ?thesis by simp
  qed
  moreover have "length (take w (drop (pos * w) ?c)) = w" using len k by simp
  ultimately show ?thesis
    using read moveTail_bytes [OF assms(7,6) w] assms(3,4,5)
    by (intro exI [of _ "take w (drop (pos * w) ?c)"])
      (simp add: intsetMoveTail_def mem_move_def Let_def)
qed

lemma intsetAdd_rep_new:
  assumes rep: "intset_rep is xs" and f: "fits (encoding is) v" and new: "v \<notin> set xs"
    and enc: "i_intsetValueEncoding v \<le> encoding is" and room: "(length xs + 1) * 8 < 2 ^ 32"
  shows "\<exists>is' xs'. intsetAdd junk is v = Some (is', True) \<and> intset_rep is' xs' \<and> set xs' = insert v (set xs)"
proof -
  let ?w = "encoding is" and ?n = "length xs"
  have r: "?w \<in> {2, 4, 8}" "is_length is = ?n" "contents is = enc_ints ?w xs" "?n < 2 ^ 31"
    "\<forall>x \<in> set xs. fits ?w x" "sorted_wrt (<) xs"
    using rep by (simp_all add: intset_rep_def)
  have small: "length xs * ?w < 2 ^ 32"
    using r(1) room by auto
  obtain pos where pos: "intsetSearch is v = Some (False, int pos)" "pos \<le> ?n"
    "\<forall>i < ?n. (i < pos \<longrightarrow> xs ! i < v) \<and> (pos \<le> i \<longrightarrow> v < xs ! i)"
    using intsetSearch_rep [OF rep, of v] new by auto
  define extra where "extra = map junk [?n * ?w..<(?n + 1) * ?w]"
  let ?is1 = "is\<lparr>contents := enc_ints ?w xs @ extra\<rparr>"
  have ex: "length extra = ?w" by (simp add: extra_def)
  have resize: "intsetResize junk is (?n + 1) = Some ?is1"
    using intsetResize_some [of "?n + 1" "is" junk] room r(1,3) by (simp add: mem_resize_def extra_def)
  obtain old is2 where old: "length old = ?w"
    and is2: "is2 = ?is1\<lparr>contents := enc_ints ?w (take pos xs) @ old @ enc_ints ?w (drop pos xs)\<rparr>"
    and mv: "(if int pos < int ?n then intsetMoveTail ?is1 pos (pos + 1) else Some ?is1) = Some is2"
  proof (cases "pos < ?n")
    case True
    then show ?thesis
      using intsetMoveTail_up [of ?is1 ?w xs extra pos] ex r small pos(2) that by auto
  next
    case False
    then have "pos = ?n" using pos(2) by simp
    then show ?thesis using that [of extra ?is1] ex by simp
  qed
  let ?xs' = "take pos xs @ v # drop pos xs"
  have set: "i_intsetSet is2 (int pos) v = Some (is2\<lparr>contents := enc_ints ?w ?xs'\<rparr>)"
    using r(1) old pos(2) is2 by (simp add: i_intsetSet_def mem_write_append enc_ints_append Let_def)
  have "intsetAdd junk is v = Some (is2\<lparr>contents := enc_ints ?w ?xs', is_length := ?n + 1\<rparr>, True)"
    using enc pos(1) resize mv set r(2) room is2
    by (cases "pos < ?n") (auto simp: intsetAdd_def Let_def)
  moreover have sx: "set ?xs' = insert v (set xs)"
    by (metis append_take_drop_id insert_is_Un list.set(2) set_append sup_left_commute)
  moreover have "intset_rep (is2\<lparr>contents := enc_ints ?w ?xs', is_length := ?n + 1\<rparr>) ?xs'"
    unfolding intset_rep_def sx
    using r f room pos(2) is2 sorted_insert_at [OF r(6) pos(2,3)] by simp
  ultimately show ?thesis by blast
qed

lemma intsetAdd_rep:
  assumes rep: "intset_rep is xs" and v: "is_int64 v" and room: "(length xs + 1) * 8 < 2 ^ 32"
  shows "\<exists>is' xs'. intsetAdd junk is v = Some (is', v \<notin> set xs) \<and> intset_rep is' xs'
     \<and> set xs' = insert v (set xs)"
proof (cases "encoding is < i_intsetValueEncoding v")
  case True
  have "encoding is \<in> {2, 4, 8}" using rep by (simp add: intset_rep_def)
  then have "\<not> fits (encoding is) v" using fits_value_encoding [OF v, of "encoding is"] True by simp
  then have new: "v \<notin> set xs" using rep by (auto simp: intset_rep_def)
  obtain is' where "intsetUpgradeAndAdd junk is v = Some is'"
    "intset_rep is' (if v < 0 then v # xs else xs @ [v])"
    using intsetUpgradeAndAdd_rep [OF rep v True] room by auto
  then show ?thesis using True new
    by (intro exI [of _ is'] exI [of _ "if v < 0 then v # xs else xs @ [v]"])
      (simp add: intsetAdd_def)
next
  case False
  have f: "fits (encoding is) v"
    using fits_value_encoding [OF v, of "encoding is"] False rep by (auto simp: intset_rep_def)
  show ?thesis
  proof (cases "v \<in> set xs")
    case True
    then obtain pos where "intsetSearch is v = Some (True, int pos)"
      using intsetSearch_rep [OF rep, of v] by auto
    then show ?thesis using False True rep
      by (intro exI [of _ "is"] exI [of _ xs]) (auto simp: intsetAdd_def)
  next
    case False
    then show ?thesis
      using intsetAdd_rep_new [OF rep f False _ room] \<open>\<not> encoding is < _\<close> by simp
  qed
qed

lemma intsetMoveTail_down:
  assumes "contents is = enc_ints w xs" "encoding is = w" "w \<in> {2, 4, 8}"
    "is_length is = length xs" "length xs * w < 2 ^ 32" "Suc pos < length xs"
  shows "\<exists>old. length old = w \<and> intsetMoveTail is (pos + 1) pos =
    Some (is\<lparr>contents := enc_ints w (take pos xs @ drop (Suc pos) xs) @ old\<rparr>)"
proof -
  let ?c = "contents is" and ?k = "(length xs - Suc pos) * w"
  have w: "0 < w" using assms(3) by auto
  have "Suc pos + (length xs - Suc pos) = length xs" using assms(6) by simp
  then have k: "Suc pos * w + ?k = length xs * w" by (metis add_mult_distrib)
  have read: "mem_read ?c (Suc pos * w) ?k = Some (enc_ints w (drop (Suc pos) xs))"
    using k drop_enc_ints [of "Suc pos" w xs] assms(1) by (simp add: mem_read_def)
  have "mem_write ?c (pos * w) (enc_ints w (drop (Suc pos) xs))
      = Some (enc_ints w (take pos xs) @ enc_ints w (drop (Suc pos) xs) @ drop (pos * w + ?k) ?c)"
    using k assms(1) by (simp add: mem_write_def take_enc_ints)
  moreover have "length (drop (pos * w + ?k) ?c) = w" using k assms(1) by simp
  ultimately show ?thesis
    using read moveTail_bytes [of "Suc pos" "length xs" w] assms w
    by (intro exI [of _ "drop (pos * w + ?k) ?c"])
      (simp add: intsetMoveTail_def mem_move_def Let_def enc_ints_append)
qed

lemma intsetRemove_rep_found:
  assumes rep: "intset_rep is xs" and enc: "i_intsetValueEncoding v \<le> encoding is"
    and room: "length xs * 8 < 2 ^ 32" and mem: "v \<in> set xs"
  shows "\<exists>is' xs'. intsetRemove junk is v = Some (is', True) \<and> intset_rep is' xs' \<and> set xs' = set xs - {v}
     \<and> length xs' \<le> length xs"
proof -
  let ?w = "encoding is" and ?n = "length xs"
  have r: "?w \<in> {2, 4, 8}" "is_length is = ?n" "contents is = enc_ints ?w xs" "?n < 2 ^ 31"
    "\<forall>x \<in> set xs. fits ?w x" "sorted_wrt (<) xs"
    using rep by (simp_all add: intset_rep_def)
  have small: "?n * ?w < 2 ^ 32" using r(1) room by auto
  obtain pos where pos: "intsetSearch is v = Some (True, int pos)" "pos < ?n" "xs ! pos = v"
    using intsetSearch_rep [OF rep, of v] mem by auto
  let ?ys = "take pos xs @ drop (Suc pos) xs"
  have ly: "length ?ys = ?n - 1" using pos(2) by simp
  obtain old where old: "length old = ?w"
    and mv: "(if int pos < int ?n - 1 then intsetMoveTail is (pos + 1) pos else Some is)
        = Some (is\<lparr>contents := enc_ints ?w ?ys @ old\<rparr>)"
  proof (cases "Suc pos < ?n")
    case True
    then show ?thesis
      using intsetMoveTail_down [of "is" ?w xs pos] r small that by auto
  next
    case False
    then have "?n = Suc pos" using pos(2) by simp
    then have xs: "xs = take pos xs @ [v]"
      using pos(3) by (metis lessI take_Suc_conv_app_nth take_all order_refl)
    have "enc_ints ?w xs = enc_ints ?w (take pos xs) @ le_bytes ?w v"
      using arg_cong [OF xs, of "enc_ints ?w"] by (simp add: enc_ints_append)
    then have "contents is = enc_ints ?w ?ys @ le_bytes ?w v"
      using r(3) \<open>?n = Suc pos\<close> by simp
    then have "is = is\<lparr>contents := enc_ints ?w ?ys @ le_bytes ?w v\<rparr>" by simp
    then show ?thesis using that [of "le_bytes ?w v"] False by simp
  qed
  have n1: "(?n - 1) * ?w + ?w = ?n * ?w"
    using pos(2) by (cases ?n) simp_all
  have "mem_resize junk (enc_ints ?w ?ys @ old) ((?n - 1) * ?w) = enc_ints ?w ?ys"
    using ly old n1 by (simp add: mem_resize_def)
  then have res: "intsetResize junk (is\<lparr>contents := enc_ints ?w ?ys @ old\<rparr>) (?n - 1)
      = Some (is\<lparr>contents := enc_ints ?w ?ys\<rparr>)"
    using intsetResize_some [of "?n - 1" "is\<lparr>contents := enc_ints ?w ?ys @ old\<rparr>" junk] r(1,4) by simp
  have "intsetRemove junk is v = Some (is\<lparr>contents := enc_ints ?w ?ys, is_length := ?n - 1\<rparr>, True)"
    using enc pos(1) mv res r(2) by (auto simp: intsetRemove_def Let_def)
  moreover have "set ?ys = set xs - {v}" "sorted_wrt (<) ?ys"
    using sorted_delete_at [OF r(6) pos(2)] pos(3) by simp_all
  then have "intset_rep (is\<lparr>contents := enc_ints ?w ?ys, is_length := ?n - 1\<rparr>) ?ys"
    using r ly by (auto simp: intset_rep_def)
  ultimately show ?thesis using ly \<open>set ?ys = _\<close> by (metis diff_le_self)
qed

lemma intsetRemove_rep:
  assumes rep: "intset_rep is xs" and v: "is_int64 v" and room: "length xs * 8 < 2 ^ 32"
  shows "\<exists>is' xs'. intsetRemove junk is v = Some (is', v \<in> set xs) \<and> intset_rep is' xs'
    \<and> set xs' = set xs - {v} \<and> length xs' \<le> length xs"
proof (cases "i_intsetValueEncoding v \<le> encoding is \<and> v \<in> set xs")
  case True
  then show ?thesis using intsetRemove_rep_found [OF rep _ room] by simp
next
  case False
  have fit: "i_intsetValueEncoding v \<le> encoding is \<longleftrightarrow> fits (encoding is) v" 
    using fits_value_encoding [OF v, of "encoding is"] rep by (simp add: intset_rep_def)
  then have new: "v \<notin> set xs" using False rep by (auto simp: intset_rep_def)
  obtain pos where "intsetSearch is v = Some (False, pos)"
    using intsetSearch_rep [OF rep, of v] new by auto
  then have "intsetRemove junk is v = Some (is, False)" by (simp add: intsetRemove_def)
  then show ?thesis using new rep by auto
qed

lemma intsetFind_rep:
  assumes rep: "intset_rep is xs" and v: "is_int64 v"
  shows "intsetFind is v = Some (v \<in> set xs)"
proof -
  have fit: "i_intsetValueEncoding v \<le> encoding is \<longleftrightarrow> fits (encoding is) v" 
    using fits_value_encoding [OF v, of "encoding is"] rep by (simp add: intset_rep_def)
  then have "v \<notin> set xs" if "\<not> i_intsetValueEncoding v \<le> encoding is"
    using that rep by (auto simp: intset_rep_def)
  then show ?thesis
    using intsetSearch_rep [OF rep, of v] by (auto simp: intsetFind_def)
qed

section \<open>The set contract\<close>

lemma intset_inv_rep: "intset_inv is \<Longrightarrow> intset_rep is (intset_elems is) \<and> length (intset_elems is) = is_length is"
  using intset_repI [of "is"] by (auto simp: intset_inv_def intset_elems_def)

lemma intsetAdd_inv:
  assumes "intset_inv is" "is_int64 v" "is_length is + 1 < 2 ^ 29"
  shows "\<exists>is'. intsetAdd junk is v = Some (is', v \<notin> set (intset_elems is)) \<and> intset_inv is'
    \<and> set (intset_elems is') = insert v (set (intset_elems is)) \<and> is_length is' \<le> is_length is + 1"
proof -
  have rep: "intset_rep is (intset_elems is)" and len: "length (intset_elems is) = is_length is"
    using intset_inv_rep [OF assms(1)] by simp_all
  obtain is' xs' where *: "intsetAdd junk is v = Some (is', v \<notin> set (intset_elems is))"
    "intset_rep is' xs'" "set xs' = insert v (set (intset_elems is))"
    using intsetAdd_rep [OF rep assms(2), of junk] assms(3) len by auto
  have "is_length is' = card (set xs')"
    using *(2) distinct_card [of xs'] by (auto simp: intset_rep_def strict_sorted_iff)
  also have "\<dots> \<le> is_length is + 1"
    using *(3) card_length [of "v # intset_elems is"] len by simp
  finally show ?thesis
    using * intset_repD [OF *(2)] assms(3) by (auto simp: intset_inv_def)
qed

lemma intsetRemove_inv:
  assumes "intset_inv is" "is_int64 v"
  shows "\<exists>is'. intsetRemove junk is v = Some (is', v \<in> set (intset_elems is)) \<and> intset_inv is'
    \<and> set (intset_elems is') = set (intset_elems is) - {v} \<and> is_length is' \<le> is_length is"
proof -
  have rep: "intset_rep is (intset_elems is)" and len: "length (intset_elems is) = is_length is"
    using intset_inv_rep [OF assms(1)] by simp_all
  obtain is' xs' where *: "intsetRemove junk is v = Some (is', v \<in> set (intset_elems is))"
    "intset_rep is' xs'" "set xs' = set (intset_elems is) - {v}" "length xs' \<le> length (intset_elems is)"
    using intsetRemove_rep [OF rep assms(2), of junk] assms(1) len by (auto simp: intset_inv_def)
  moreover have "is_length is' = length xs'" using *(2) by (simp add: intset_rep_def)
  ultimately show ?thesis
    using intset_repD [OF *(2)] assms(1) len by (auto simp: intset_inv_def)
qed

interpretation intset_set: set_adt intset_inv "\<lambda>is. set (intset_elems is)" is_int64 is_length "\<lambda>_. 1" "2 ^ 29"
  intsetNew "intsetAdd junk" "intsetRemove junk" intsetFind for junk
proof unfold_locales
  show "intset_inv intsetNew" "set (intset_elems intsetNew) = {}"
    by (simp_all add: intset_inv_def intset_ok_def intset_elems_def intsetNew_def)
next
  fix s v assume "intset_inv s" "is_int64 v"
  then show "intsetFind s v = Some (v \<in> set (intset_elems s))"
    using intset_inv_rep intsetFind_rep by blast
next
  fix s v assume "intset_inv s" "is_int64 v" "is_length s + 1 < 2 ^ 29"
  then show "\<exists>s'. intsetAdd junk s v = Some (s', v \<notin> set (intset_elems s)) \<and> intset_inv s' \<and>
    set (intset_elems s') = insert v (set (intset_elems s)) \<and> is_length s' \<le> is_length s + 1"
    by (rule intsetAdd_inv)
next
  fix s v assume "intset_inv s" "is_int64 v"
  then show "\<exists>s'. intsetRemove junk s v = Some (s', v \<in> set (intset_elems s)) \<and> intset_inv s' \<and>
    set (intset_elems s') = set (intset_elems s) - {v} \<and> is_length s' \<le> is_length s"
    by (rule intsetRemove_inv)
qed

lemma ops_cost_length: "ops_cost (\<lambda>_. 1) ops \<le> length ops"
  by (induction "\<lambda>_ :: 'a. 1 :: nat" ops rule: ops_cost.induct) auto

section \<open>Validating an untrusted payload\<close>

lemma validate_loop_correct:
  assumes "\<And>i. i < n \<Longrightarrow> i_intsetGet is (int i) = Some (f i)" "is_length is = n" "n < 2 ^ 31"
  shows "i \<le> n \<Longrightarrow> 0 < i \<Longrightarrow> validate_loop is i (f (i - 1)) = Some (\<forall>j. i \<le> j \<and> j < n \<longrightarrow> f (j - 1) < f j)"
proof (induction "n - i" arbitrary: i)
  case 0
  then show ?case using assms(2) by (subst validate_loop.simps) auto
next
  case (Suc k)
  have sgn: "to_signed 32 (int i) = int i" using Suc.hyps(2) assms(3) by (simp add: to_signed_def)
  have rec: "validate_loop is (Suc i) (f i) = Some (\<forall>j. Suc i \<le> j \<and> j < n \<longrightarrow> f (j - 1) < f j)"
    using Suc.hyps(1) [of "Suc i"] Suc.hyps(2) Suc.prems by simp
  have i: "i < is_length is" "i < n" using Suc.hyps(2) assms(2) by simp_all
  have split: "(\<forall>j. i \<le> j \<and> j < n \<longrightarrow> f (j - 1) < f j) \<longleftrightarrow>
      f (i - 1) < f i \<and> (\<forall>j. Suc i \<le> j \<and> j < n \<longrightarrow> f (j - 1) < f j)"
  proof -
    have le: "i \<le> j \<longleftrightarrow> j = i \<or> Suc i \<le> j" for j by auto
    show ?thesis unfolding le using i(2) by blast
  qed
  show ?case
    using rec i assms(1) [OF i(2)] sgn unfolding split
    by (subst validate_loop.simps) (auto simp: not_le)
qed

lemma sorted_wrt_neighbours:
  fixes xs :: "int list"
  shows "sorted_wrt (<) xs \<longleftrightarrow> (\<forall>j. 1 \<le> j \<and> j < length xs \<longrightarrow> xs ! (j - 1) < xs ! j)"
proof -
  have "sorted_wrt (<) xs \<longleftrightarrow> (\<forall>i. Suc i < length xs \<longrightarrow> xs ! i < xs ! Suc i)"
    by (rule sorted_wrt_iff_nth_Suc_transp) simp
  also have "\<dots> \<longleftrightarrow> (\<forall>j. 1 \<le> j \<and> j < length xs \<longrightarrow> xs ! (j - 1) < xs ! j)"
    by (metis One_nat_def Suc_le_D diff_Suc_1 le_add1 plus_1_eq_Suc)
  finally show ?thesis .
qed

lemma intsetGet_elems:
  assumes "encoding is \<in> {2, 4, 8}" "length (contents is) = is_length is * encoding is" "i < is_length is"
  shows "i_intsetGet is (int i) = Some (intset_elems is ! i)"
proof -
  have "i * encoding is + encoding is \<le> is_length is * encoding is"
    using assms(3) mult_le_mono1 [of "Suc i" "is_length is" "encoding is"] by simp
  then show ?thesis
    using assms by (simp add: i_intsetGet_def i_intsetGetEncoded_def mem_read_def intset_elems_def)
qed

text \<open>Deep validation accepts exactly the well-formed, non-empty sets.\<close>

lemma intsetValidateIntegrity_deep:
  assumes "length p < 2 ^ 32"
  shows "intsetValidateIntegrity p True = Some (8 \<le> length p \<and> intset_ok (intset_of_blob p)
    \<and> is_length (intset_of_blob p) \<noteq> 0)"
proof -
  let ?is = "intset_of_blob p"
  have c: "length (contents ?is) = length p - 8" by (simp add: intset_of_blob_def)
  consider (short) "length p < 8" | (enc) "8 \<le> length p" "encoding ?is \<notin> {2, 4, 8}"
    | (size) "8 \<le> length p" "encoding ?is \<in> {2, 4, 8}" "8 + is_length ?is * encoding ?is \<noteq> length p"
    | (zero) "8 \<le> length p" "is_length ?is = 0"
    | (scan) "8 \<le> length p" "encoding ?is \<in> {2, 4, 8}" "8 + is_length ?is * encoding ?is = length p"
       "is_length ?is \<noteq> 0" by linarith
  then show ?thesis
  proof cases
    case scan
    have len: "length (contents ?is) = is_length ?is * encoding ?is"
      using scan c by simp
    have "is_length ?is * 2 \<le> is_length ?is * encoding ?is" using scan(2) by (intro mult_le_mono) auto
    also have "\<dots> < 2 ^ 32" using scan(3) assms by simp
    finally have n: "is_length ?is < 2 ^ 31" by simp
    have get: "i_intsetGet ?is (int i) = Some (intset_elems ?is ! i)" if "i < is_length ?is" for i
      using intsetGet_elems [OF scan(2) len that] .
    have l: "length (intset_elems ?is) = is_length ?is" by (simp add: intset_elems_def)
    have "intsetValidateIntegrity p True = validate_loop ?is 1 (intset_elems ?is ! 0)"
      using scan get [of 0] by (auto simp: intsetValidateIntegrity_def Let_def)
    also have "\<dots> = Some (sorted_wrt (<) (intset_elems ?is))"
      using validate_loop_correct [OF get refl n, of 1] scan(4) l
      by (simp add: sorted_wrt_neighbours)
    also have "sorted_wrt (<) (intset_elems ?is) \<longleftrightarrow> intset_ok ?is"
      using scan(2) len n by (simp add: intset_ok_def)
    finally show ?thesis using scan by simp
  next
    case size
    then have "length (contents ?is) \<noteq> is_length ?is * encoding ?is" using c by linarith
    then show ?thesis using size by (simp add: intsetValidateIntegrity_def Let_def intset_ok_def)
  qed (simp_all add: intsetValidateIntegrity_def Let_def intset_ok_def)
qed

section \<open>Properties\<close>

text \<open>
  \<^bold>\<open>C10\<close>: any sequence of \<open>intsetAdd\<close> and \<open>intsetRemove\<close> calls on a well-formed integer set that
  keeps it under \<open>2\<^sup>2\<^sup>9\<close> elements stays in bounds, answers each call as the mathematical set does,
  and ends in a well-formed structure on which \<open>intsetFind\<close> decides membership.
\<close>

theorem intset_refines_set:
  assumes "intset_inv is" "list_all (\<lambda>op. is_int64 (op_value op)) ops" "is_length is + length ops < 2 ^ 29"
  shows "\<exists>is' rs. run_set_ops (intsetAdd junk) (intsetRemove junk) is ops = Some (is', rs)
    \<and> intset_inv is' \<and> spec_set_ops (set (intset_elems is)) ops = (set (intset_elems is'), rs)
    \<and> (\<forall>v. is_int64 v \<longrightarrow> intsetFind is' v = Some (v \<in> set (intset_elems is')))"
proof -
  have "is_length is + ops_cost (\<lambda>_. 1) ops < 2 ^ 29"
    using assms(3) ops_cost_length [of ops] by linarith
  then show ?thesis
    using intset_set.run_ops_refines [OF assms(1,2), of junk] intset_set.mem_correct by blast
qed

theorem intset_refines_set_witness:
  "\<exists>is' rs. run_set_ops (intsetAdd (\<lambda>_. 0)) (intsetRemove (\<lambda>_. 0)) intsetNew [SAdd 5, SAdd (-70000), SRem 5]
      = Some (is', rs) \<and> intset_inv is' \<and> spec_set_ops {} [SAdd 5, SAdd (-70000), SRem 5] = (set (intset_elems is'), rs)
    \<and> (\<forall>v. is_int64 v \<longrightarrow> intsetFind is' v = Some (v \<in> set (intset_elems is')))"
proof -
  have "intset_inv intsetNew" "intset_elems intsetNew = []" "is_length intsetNew = 0" by code_simp+
  then show ?thesis
    using intset_refines_set [of intsetNew "[SAdd 5, SAdd (-70000), SRem 5]" "\<lambda>_. 0"]
    by (simp add: is_int64_def)
qed

text \<open>
  \<^bold>\<open>C16\<close>: \<open>intsetUpgradeAndAdd\<close> re-encodes the whole area in place at the wider width without losing
  an element, and the new value goes to the front when it is negative and to the end otherwise,
  which keeps the order.
\<close>

theorem intsetUpgradeAndAdd_correct:
  assumes "intset_ok is" "is_int64 v" "encoding is < i_intsetValueEncoding v" "is_length is + 1 < 2 ^ 31"
  shows "\<exists>is'. intsetUpgradeAndAdd junk is v = Some is' \<and> intset_ok is'
    \<and> encoding is' = i_intsetValueEncoding v
    \<and> intset_elems is' = (if v < 0 then v # intset_elems is else intset_elems is @ [v])"
proof -
  have rep: "intset_rep is (intset_elems is)" using assms(1) by (rule intset_repI)
  have "length (intset_elems is) + 1 < 2 ^ 31" using assms(4) by (simp add: intset_elems_def)
  from intsetUpgradeAndAdd_rep [OF rep assms(2,3) this, of junk]
  obtain is' where *: "intsetUpgradeAndAdd junk is v = Some is'" "encoding is' = i_intsetValueEncoding v"
    "intset_rep is' (if v < 0 then v # intset_elems is else intset_elems is @ [v])"
    by blast
  then show ?thesis using intset_repD [OF *(3)] by simp
qed

theorem intsetUpgradeAndAdd_correct_witness:
  "\<exists>is'. intsetUpgradeAndAdd (\<lambda>_. 0) \<lparr>encoding = 2, is_length = 2, contents = [255, 255, 7, 0]\<rparr> (-70000) = Some is'
    \<and> intset_ok is' \<and> encoding is' = 4 \<and> intset_elems is' = [-70000, -1, 7]"
proof -
  let ?is = "\<lparr>encoding = 2, is_length = 2, contents = [255, 255, 7, 0]\<rparr>"
  have "intset_ok ?is" "intset_elems ?is = [-1, 7]" by code_simp+
  then show ?thesis
    using intsetUpgradeAndAdd_correct [of ?is "-70000" "\<lambda>_. 0"]
    by (simp add: is_int64_def i_intsetValueEncoding_def)
qed

text \<open>
  \<^bold>\<open>C17\<close>: deep validation of an untrusted payload (under 4 GB) never reads outside it, and accepts
  exactly the payloads that are well-formed, non-empty integer sets.
\<close>

theorem intsetValidateIntegrity_iff:
  assumes "length p < 2 ^ 32"
  shows "intsetValidateIntegrity p True = Some (8 \<le> length p \<and> intset_ok (intset_of_blob p)
    \<and> is_length (intset_of_blob p) \<noteq> 0)"
  using assms by (rule intsetValidateIntegrity_deep)

theorem intsetValidateIntegrity_iff_witness:
  "intsetValidateIntegrity [2, 0, 0, 0, 2, 0, 0, 0, 5, 0, 3, 0] True = Some False
   \<and> intsetValidateIntegrity [2, 0, 0, 0, 2, 0, 0, 0, 3, 0, 5, 0] True = Some True"
proof -
  have "\<not> intset_ok (intset_of_blob [2, 0, 0, 0, 2, 0, 0, 0, 5, 0, 3, 0])"
    "intset_ok (intset_of_blob [2, 0, 0, 0, 2, 0, 0, 0, 3, 0, 5, 0])"
    "is_length (intset_of_blob [2, 0, 0, 0, 2, 0, 0, 0, 3, 0, 5, 0]) = 2" by code_simp+
  then show ?thesis
    using intsetValidateIntegrity_iff [of "[2, 0, 0, 0, 2, 0, 0, 0, 5, 0, 3, 0]"]
      intsetValidateIntegrity_iff [of "[2, 0, 0, 0, 2, 0, 0, 0, 3, 0, 5, 0]"] by simp
qed

text \<open>
  The accessors agree with the abstract set: \<open>intsetMin\<close> and \<open>intsetMax\<close> return its extremes,
  \<open>intsetRandom\<close> returns a member for every value of \<open>rand()\<close> and can return each of them.
\<close>

theorem intset_accessors:
  assumes "intset_ok is" "is_length is \<noteq> 0"
  shows "intsetMin is = Some (Min (set (intset_elems is)))
    \<and> intsetMax is = Some (Max (set (intset_elems is)))
    \<and> {intsetRandom r is |r. True} = Some ` set (intset_elems is)"
proof -
  let ?xs = "intset_elems is" and ?n = "is_length is"
  have rep: "intset_rep is ?xs" using assms(1) by (rule intset_repI)
  have n: "length ?xs = ?n" by (simp add: intset_elems_def)
  have sorted: "sorted ?xs" using rep by (auto simp: intset_rep_def strict_sorted_iff)
  have ne: "?xs \<noteq> []" using n assms(2) by auto
  have "intsetMin is = Some (?xs ! 0)"
    using intsetGet_rep [OF rep, of 0] assms(2) n by (simp add: intsetMin_def)
  moreover have "Min (set ?xs) = ?xs ! 0"
    using sorted ne by (intro Min_eqI) (auto simp: in_set_conv_nth sorted_iff_nth_mono)
  moreover have "intsetMax is = Some (?xs ! (?n - 1))"
    using intsetGet_rep [OF rep, of "?n - 1"] assms(2) n by (simp add: intsetMax_def of_nat_diff)
  moreover have "Max (set ?xs) = ?xs ! (?n - 1)"
    using sorted assms(2) n nth_mem [of "?n - 1" ?xs]
    by (intro Max_eqI) (auto simp: in_set_conv_nth sorted_iff_nth_mono)
  moreover have rnd: "intsetRandom r is = Some (?xs ! (r mod ?n))" for r
    using intsetGet_rep [OF rep, of "r mod ?n"] assms(2) n by (simp add: intsetRandom_def)
  have "{intsetRandom r is |r. True} = Some ` set ?xs"
  proof (intro equalityI subsetI)
    fix x assume "x \<in> Some ` set ?xs"
    then obtain i where i: "i < ?n" "x = Some (?xs ! i)" by (auto simp: in_set_conv_nth n)
    then have "x = intsetRandom i is" using rnd [of i] by simp
    then show "x \<in> {intsetRandom r is |r. True}" by blast
  qed (use rnd assms(2) n in auto)
  ultimately show ?thesis by simp
qed

theorem intset_accessors_witness:
  "intsetMin \<lparr>encoding = 2, is_length = 2, contents = [255, 255, 7, 0]\<rparr> = Some (-1)
   \<and> intsetMax \<lparr>encoding = 2, is_length = 2, contents = [255, 255, 7, 0]\<rparr> = Some 7"
proof -
  let ?is = "\<lparr>encoding = 2, is_length = 2, contents = [255, 255, 7, 0]\<rparr>"
  have "intset_ok ?is" "intset_elems ?is = [-1, 7]" by code_simp+
  then show ?thesis using intset_accessors [of ?is] by simp
qed

text \<open>
  \<^bold>\<open>C18\<close>: the byte count of \<open>intsetMoveTail\<close> is a \<open>uint32_t\<close>, so on \<open>2\<^sup>2\<^sup>9\<close> elements of 64 bits the
  tail is not moved at all. \<open>intsetMaxEntries\<close> in \<open>t_set.c\<close> allows \<open>2\<^sup>3\<^sup>0\<close> elements.
\<close>

theorem intsetMoveTail_wraps:
  assumes "encoding is = INTSET_ENC_INT64" "is_length is = 2 ^ 29" "length (contents is) \<ge> 8"
  shows "intsetMoveTail is 0 1 = Some is"
  using assms by (simp add: intsetMoveTail_def enc_width_def mem_move_def mem_read_def mem_write_def)

theorem intsetMoveTail_wraps_witness:
  "intsetMoveTail \<lparr>encoding = 8, is_length = 2 ^ 29, contents = [1, 2, 3, 4, 5, 6, 7, 8]\<rparr> 0 1
    = Some \<lparr>encoding = 8, is_length = 2 ^ 29, contents = [1, 2, 3, 4, 5, 6, 7, 8]\<rparr>"
  by (rule intsetMoveTail_wraps) simp_all

end
