(* ===== verification/Listpack.thy ===== *)
theory Listpack
  imports Util_Num Set_Interface
begin

text \<open>
  Listpacks of \<open>src/redis/redis-7.2.3/src/listpack.c\<close>, at the level of their bytes: a 6-byte header
  (total bytes, number of elements), the entries, and the terminator \<open>0xFF\<close>. An entry is an
  encoding byte with its payload followed by its own length, written so that it can be
  read backwards.

  A listpack is the list of bytes of its allocation, a pointer into it an offset. The byte
  combinations \<open>p[i]<<k | ...\<close> have disjoint bits and are written as sums. The allocator is a parameter
  \<open>al\<close>: the usable size it gives to a request and the indeterminate bytes of fresh memory.
\<close>

section \<open>Encodings\<close>

record allocator =
  usable :: "nat \<Rightarrow> nat"
  junk :: "nat \<Rightarrow> byte"

definition alloc_ok :: "allocator \<Rightarrow> bool" where
  "alloc_ok al \<longleftrightarrow> (\<forall>n. n \<le> usable al n)"

definition lp_realloc :: "allocator \<Rightarrow> bytes \<Rightarrow> nat \<Rightarrow> bytes" where
  "lp_realloc al lp n = mem_resize (junk al) lp (usable al n)"

abbreviation (input) LP_EOF :: byte where "LP_EOF \<equiv> 255"
abbreviation (input) LP_HDR_SIZE :: nat where "LP_HDR_SIZE \<equiv> 6"
abbreviation (input) LP_HDR_NUMELE_UNKNOWN :: nat where "LP_HDR_NUMELE_UNKNOWN \<equiv> 65535"

definition LP_ENCODING_IS_7BIT_UINT :: "byte \<Rightarrow> bool" where
  "LP_ENCODING_IS_7BIT_UINT b \<longleftrightarrow> b AND 0x80 = 0"

definition LP_ENCODING_IS_6BIT_STR :: "byte \<Rightarrow> bool" where
  "LP_ENCODING_IS_6BIT_STR b \<longleftrightarrow> b AND 0xC0 = 0x80"

definition LP_ENCODING_IS_13BIT_INT :: "byte \<Rightarrow> bool" where
  "LP_ENCODING_IS_13BIT_INT b \<longleftrightarrow> b AND 0xE0 = 0xC0"

definition LP_ENCODING_IS_12BIT_STR :: "byte \<Rightarrow> bool" where
  "LP_ENCODING_IS_12BIT_STR b \<longleftrightarrow> b AND 0xF0 = 0xE0"

abbreviation (input) LP_ENCODING_32BIT_STR :: byte where "LP_ENCODING_32BIT_STR \<equiv> 0xF0"
abbreviation (input) LP_ENCODING_16BIT_INT :: byte where "LP_ENCODING_16BIT_INT \<equiv> 0xF1"
abbreviation (input) LP_ENCODING_24BIT_INT :: byte where "LP_ENCODING_24BIT_INT \<equiv> 0xF2"
abbreviation (input) LP_ENCODING_32BIT_INT :: byte where "LP_ENCODING_32BIT_INT \<equiv> 0xF3"
abbreviation (input) LP_ENCODING_64BIT_INT :: byte where "LP_ENCODING_64BIT_INT \<equiv> 0xF4"

definition LP_ENCODING_6BIT_STR_LEN :: "byte \<Rightarrow> nat" where
  "LP_ENCODING_6BIT_STR_LEN b = unat (b AND 0x3F)"

definition LP_ENCODING_12BIT_STR_LEN :: "byte \<Rightarrow> byte \<Rightarrow> nat" where
  "LP_ENCODING_12BIT_STR_LEN b0 b1 = unat (b0 AND 0xF) * 256 + unat b1"

definition lpGetTotalBytes :: "bytes \<Rightarrow> nat" where
  "lpGetTotalBytes lp = nat (le_val (take 4 lp))"

definition lpGetNumElements :: "bytes \<Rightarrow> nat" where
  "lpGetNumElements lp = nat (le_val (take 2 (drop 4 lp)))"

definition lpSetTotalBytes :: "bytes \<Rightarrow> nat \<Rightarrow> bytes" where
  "lpSetTotalBytes lp v = le_bytes 4 (int v) @ drop 4 lp"

definition lpSetNumElements :: "bytes \<Rightarrow> nat \<Rightarrow> bytes" where
  "lpSetNumElements lp v = take 4 lp @ le_bytes 2 (int v) @ drop 6 lp"

definition lpBytes :: "bytes \<Rightarrow> nat" where
  "lpBytes lp = lpGetTotalBytes lp"

definition lpSafeToAdd :: "bytes option \<Rightarrow> nat \<Rightarrow> bool" where
  "lpSafeToAdd lp add =
     (let len = (case lp of Some lp \<Rightarrow> lpGetTotalBytes lp | None \<Rightarrow> 0)
      in \<not> (len + add > 2 ^ 30))"

text \<open>\<open>lpStringToInt64\<close>: the index \<open>plen\<close> runs over the string.\<close>

function lpStringToInt64_loop :: "bytes \<Rightarrow> nat \<Rightarrow> int \<Rightarrow> (nat \<times> int) option" where
  "lpStringToInt64_loop s plen v =
     (if plen < length s \<and> s ! plen \<ge> 48 \<and> s ! plen \<le> 57 then
        (if v > UINT64_MAX div 10 then None
         else
           let v = v * 10; d = uint (s ! plen) - 48 in
           if v > UINT64_MAX - d then None
           else lpStringToInt64_loop s (plen + 1) (v + d))
      else Some (plen, v))"
  by pat_completeness auto
termination
  by (relation "measure (\<lambda>(s, plen, _). length s - plen)") auto

declare lpStringToInt64_loop.simps [simp del]

definition lpStringToInt64 :: "bytes \<Rightarrow> int option" where
  "lpStringToInt64 s =
     (let slen = length s in
      if slen = 0 \<or> slen \<ge> LONG_STR_SIZE then None
      else if slen = 1 \<and> s ! 0 = 48 then Some 0
      else
        let negative = (s ! 0 = 45); plen = (if negative then 1 else 0) in
        if negative \<and> plen = slen then None
        else if s ! plen \<ge> 49 \<and> s ! plen \<le> 57 then
          (case lpStringToInt64_loop s (plen + 1) (uint (s ! plen) - 48) of
             None \<Rightarrow> None
           | Some (plen, v) \<Rightarrow>
               if plen < slen then None
               else if negative then
                 (if v > - (INT64_MIN + 1) + 1 then None
                  else Some (to_signed 64 ((- v) mod 2 ^ 64)))
               else if v > INT64_MAX then None
               else Some v)
        else None)"

text \<open>The bytes written to \<open>intenc\<close>; \<open>*enclen\<close> is their number.\<close>

definition lpEncodeIntegerGetType :: "int \<Rightarrow> bytes" where
  "lpEncodeIntegerGetType v =
     (if v \<ge> 0 \<and> v \<le> 127 then [word_of_int v]
      else if v \<ge> -4096 \<and> v \<le> 4095 then
        let v = (if v < 0 then 2 ^ 13 + v else v)
        in [word_of_int ((v div 256) OR 0xC0), word_of_int v]
      else if v \<ge> -32768 \<and> v \<le> 32767 then
        let v = (if v < 0 then 2 ^ 16 + v else v) in LP_ENCODING_16BIT_INT # le_bytes 2 v
      else if v \<ge> -8388608 \<and> v \<le> 8388607 then
        let v = (if v < 0 then 2 ^ 24 + v else v) in LP_ENCODING_24BIT_INT # le_bytes 3 v
      else if v \<ge> -2147483648 \<and> v \<le> 2147483647 then
        let v = (if v < 0 then 2 ^ 32 + v else v) in LP_ENCODING_32BIT_INT # le_bytes 4 v
      else LP_ENCODING_64BIT_INT # le_bytes 8 (v mod 2 ^ 64))"

text \<open>
  \<open>Some intenc\<close> is \<open>LP_ENCODING_INT\<close>, \<open>None\<close> is \<open>LP_ENCODING_STRING\<close>; the number is \<open>*enclen\<close>.
\<close>

definition lpEncodeGetType :: "bytes \<Rightarrow> bytes option \<times> nat" where
  "lpEncodeGetType ele =
     (case lpStringToInt64 ele of
        Some v \<Rightarrow> let intenc = lpEncodeIntegerGetType v in (Some intenc, length intenc)
      | None \<Rightarrow>
          let size = length ele in
          (None, if size < 64 then 1 + size else if size < 4096 then 2 + size else 5 + size))"

text \<open>The bytes stored for a length; their number is the result of the \<open>NULL\<close> variant.\<close>

definition lpEncodeBacklen :: "nat \<Rightarrow> bytes" where
  "lpEncodeBacklen l =
     (let low = (\<lambda>x. word_of_int ((int x AND 127) OR 128)) in
      if l \<le> 127 then [of_nat l]
      else if l < 16383 then [of_nat (l div 2 ^ 7), low l]
      else if l < 2097151 then [of_nat (l div 2 ^ 14), low (l div 2 ^ 7), low l]
      else if l < 268435455 then
        [of_nat (l div 2 ^ 21), low (l div 2 ^ 14), low (l div 2 ^ 7), low l]
      else [of_nat (l div 2 ^ 28), low (l div 2 ^ 21), low (l div 2 ^ 14), low (l div 2 ^ 7), low l])"

text \<open>Reading backwards from \<open>p\<close>; stepping before the buffer is an out-of-bounds read.\<close>

function lpDecodeBacklen_loop :: "bytes \<Rightarrow> nat \<Rightarrow> nat \<Rightarrow> nat \<Rightarrow> nat option" where
  "lpDecodeBacklen_loop lp p val shift =
     (case mem_get lp p of
        None \<Rightarrow> None
      | Some b \<Rightarrow>
          let val = val + unat (b AND 127) * 2 ^ shift in
          if b AND 128 = 0 then Some val
          else
            let shift = shift + 7 in
            if shift > 28 then Some (2 ^ 64 - 1)
            else if p = 0 then None
            else lpDecodeBacklen_loop lp (p - 1) val shift)"
  by pat_completeness auto
termination
  by (relation "measure (\<lambda>(_, p, _, _). p)") auto

declare lpDecodeBacklen_loop.simps [simp del]

definition lpDecodeBacklen :: "bytes \<Rightarrow> nat \<Rightarrow> nat option" where
  "lpDecodeBacklen lp p = lpDecodeBacklen_loop lp p 0 0"

definition lpEncodeString :: "bytes \<Rightarrow> bytes" where
  "lpEncodeString s =
     (let len = int (length s) in
      if length s < 64 then word_of_int (len OR 0x80) # s
      else if length s < 4096 then [word_of_int ((len div 256) OR 0xE0), word_of_int len] @ s
      else LP_ENCODING_32BIT_STR # le_bytes 4 len @ s)"

definition lpCurrentEncodedSizeUnsafe :: "bytes \<Rightarrow> nat \<Rightarrow> nat option" where
  "lpCurrentEncodedSizeUnsafe lp p =
     do { b \<leftarrow> mem_get lp p;
          (if LP_ENCODING_IS_7BIT_UINT b then Some 1
           else if LP_ENCODING_IS_6BIT_STR b then Some (1 + LP_ENCODING_6BIT_STR_LEN b)
           else if LP_ENCODING_IS_13BIT_INT b then Some 2
           else if b = LP_ENCODING_16BIT_INT then Some 3
           else if b = LP_ENCODING_24BIT_INT then Some 4
           else if b = LP_ENCODING_32BIT_INT then Some 5
           else if b = LP_ENCODING_64BIT_INT then Some 9
           else if LP_ENCODING_IS_12BIT_STR b then
             do { b1 \<leftarrow> mem_get lp (p + 1); Some (2 + LP_ENCODING_12BIT_STR_LEN b b1) }
           else if b = LP_ENCODING_32BIT_STR then
             do { bs \<leftarrow> mem_read lp (p + 1) 4; Some ((5 + nat (le_val bs)) mod 2 ^ 32) }
           else if b = LP_EOF then Some 1
           else Some 0) }"

definition lpCurrentEncodedSizeBytes :: "bytes \<Rightarrow> nat \<Rightarrow> nat option" where
  "lpCurrentEncodedSizeBytes lp p =
     do { b \<leftarrow> mem_get lp p;
          Some (if LP_ENCODING_IS_7BIT_UINT b then 1
           else if LP_ENCODING_IS_6BIT_STR b then 1
           else if LP_ENCODING_IS_13BIT_INT b then 1
           else if b = LP_ENCODING_16BIT_INT then 1
           else if b = LP_ENCODING_24BIT_INT then 1
           else if b = LP_ENCODING_32BIT_INT then 1
           else if b = LP_ENCODING_64BIT_INT then 1
           else if LP_ENCODING_IS_12BIT_STR b then 2
           else if b = LP_ENCODING_32BIT_STR then 5
           else if b = LP_EOF then 1
           else 0) }"

section \<open>Walking\<close>

text \<open>
  A result of type \<open>'a option option\<close>: \<open>None\<close> is a failed assertion or a bad read, \<open>Some None\<close> the
  \<open>NULL\<close> pointer.
\<close>

definition lpSkip :: "bytes \<Rightarrow> nat \<Rightarrow> nat option" where
  "lpSkip lp p =
     do { entrylen \<leftarrow> lpCurrentEncodedSizeUnsafe lp p;
          Some (p + (entrylen + length (lpEncodeBacklen entrylen))) }"

definition lp_out_of_range :: "nat \<Rightarrow> nat \<Rightarrow> bool" where
  "lp_out_of_range lpbytes p \<longleftrightarrow> p < LP_HDR_SIZE \<or> p + 1 > lpbytes"

text \<open>\<open>lpValidateNext(lp, &p, lpbytes)\<close> returns the verdict and the updated \<open>p\<close>.\<close>

definition lpValidateNext :: "bytes \<Rightarrow> nat option \<Rightarrow> nat \<Rightarrow> (bool \<times> nat option) option" where
  "lpValidateNext lp pp lpbytes =
     (case pp of
        None \<Rightarrow> Some (False, pp)
      | Some p \<Rightarrow>
          if lp_out_of_range lpbytes p then Some (False, pp)
          else
            do { b \<leftarrow> mem_get lp p;
                 (if b = LP_EOF then Some (True, None)
                  else
                    do { lenbytes \<leftarrow> lpCurrentEncodedSizeBytes lp p;
                         (if lenbytes = 0 then Some (False, pp)
                          else if lp_out_of_range lpbytes (p + lenbytes) then Some (False, pp)
                          else
                            do { entrylen \<leftarrow> lpCurrentEncodedSizeUnsafe lp p;
                                 let encodedBacklen = length (lpEncodeBacklen entrylen);
                                     entrylen = entrylen + encodedBacklen
                                 in if lp_out_of_range lpbytes (p + entrylen) then Some (False, pp)
                                    else
                                      do { prevlen \<leftarrow> lpDecodeBacklen lp (p + entrylen - 1);
                                           (if (prevlen + encodedBacklen) mod 2 ^ 64 \<noteq> entrylen
                                            then Some (False, pp)
                                            else Some (True, Some (p + entrylen))) } }) }) })"

definition lpAssertValidEntry :: "bytes \<Rightarrow> nat \<Rightarrow> nat \<Rightarrow> unit option" where
  "lpAssertValidEntry lp lpbytes p =
     do { (ok, _) \<leftarrow> lpValidateNext lp (Some p) lpbytes; c_assert ok }"

definition lpNext :: "bytes \<Rightarrow> nat \<Rightarrow> nat option option" where
  "lpNext lp p =
     do { p \<leftarrow> lpSkip lp p;
          b \<leftarrow> mem_get lp p;
          (if b = LP_EOF then Some None
           else do { lpAssertValidEntry lp (lpBytes lp) p; Some (Some p) }) }"

definition lpPrev :: "bytes \<Rightarrow> nat \<Rightarrow> nat option option" where
  "lpPrev lp p =
     (if p = LP_HDR_SIZE then Some None
      else if p = 0 then None
      else
        do { prevlen \<leftarrow> lpDecodeBacklen lp (p - 1);
             let prevlen = (prevlen + length (lpEncodeBacklen prevlen)) mod 2 ^ 64
             in if p < prevlen then None
                else do { lpAssertValidEntry lp (lpBytes lp) (p - prevlen);
                          Some (Some (p - prevlen)) } })"

definition lpFirst :: "bytes \<Rightarrow> nat option option" where
  "lpFirst lp =
     do { b \<leftarrow> mem_get lp LP_HDR_SIZE;
          (if b = LP_EOF then Some None
           else do { lpAssertValidEntry lp (lpBytes lp) LP_HDR_SIZE; Some (Some LP_HDR_SIZE) }) }"

definition lpLast :: "bytes \<Rightarrow> nat option option" where
  "lpLast lp = lpPrev lp (lpGetTotalBytes lp - 1)"

text \<open>The scanning loops end because the position grows.\<close>

definition lpLength_step :: "bytes \<Rightarrow> nat option \<times> nat \<Rightarrow> (nat + nat option \<times> nat) option" where
  "lpLength_step lp = (\<lambda>(p, count).
     case p of
       None \<Rightarrow> Some (Inl count)
     | Some p \<Rightarrow> do { p \<leftarrow> lpNext lp p; Some (Inr (p, (count + 1) mod 2 ^ 32)) })"

definition lpLength :: "bytes \<Rightarrow> (bytes \<times> nat) option" where
  "lpLength lp =
     (let numele = lpGetNumElements lp in
      if numele \<noteq> LP_HDR_NUMELE_UNKNOWN then Some (lp, numele)
      else
        do { p \<leftarrow> lpFirst lp;
             count \<leftarrow> c_loop (lpLength_step lp) (p, 0);
             Some (if count < LP_HDR_NUMELE_UNKNOWN then lpSetNumElements lp count else lp, count) })"

section \<open>Reading entries\<close>

text \<open>A pointer into the listpack with a length, or \<open>NULL\<close> with an integer in \<open>*count\<close>.\<close>

datatype lp_value = LP_Str nat nat | LP_Int int

text \<open>The unsigned value is turned into a signed one by the three-step rule of the code.\<close>

definition lp_signed :: "nat \<Rightarrow> nat \<Rightarrow> nat \<Rightarrow> int" where
  "lp_signed uval negstart negmax =
     (if uval \<ge> negstart then - int (negmax - uval) - 1 else int uval)"

text \<open>The second component is \<open>*entry_size\<close>, \<open>None\<close> when it is left unset.\<close>

definition lpGetWithSize :: "bytes \<Rightarrow> nat \<Rightarrow> (lp_value \<times> nat option) option" where
  "lpGetWithSize lp p =
     (let str = (\<lambda>hdr count. Some (LP_Str (p + hdr) count,
                   Some (hdr + count + length (lpEncodeBacklen (count + hdr)))));
          int_le = (\<lambda>n. do { bs \<leftarrow> mem_read lp (p + 1) n;
                              Some (LP_Int (lp_signed (nat (le_val bs)) (2 ^ (8 * n - 1)) (2 ^ (8 * n) - 1)),
                                    Some (n + 2)) })
      in do { b \<leftarrow> mem_get lp p;
              (if LP_ENCODING_IS_7BIT_UINT b then
                 Some (LP_Int (lp_signed (unat (b AND 0x7f)) (2 ^ 64 - 1) 0), Some 2)
               else if LP_ENCODING_IS_6BIT_STR b then str 1 (LP_ENCODING_6BIT_STR_LEN b)
               else if LP_ENCODING_IS_13BIT_INT b then
                 do { b1 \<leftarrow> mem_get lp (p + 1);
                      Some (LP_Int (lp_signed (unat (b AND 0x1f) * 256 + unat b1) (2 ^ 12) 8191), Some 3) }
               else if b = LP_ENCODING_16BIT_INT then int_le 2
               else if b = LP_ENCODING_24BIT_INT then int_le 3
               else if b = LP_ENCODING_32BIT_INT then int_le 4
               else if b = LP_ENCODING_64BIT_INT then int_le 8
               else if LP_ENCODING_IS_12BIT_STR b then
                 do { b1 \<leftarrow> mem_get lp (p + 1); str 2 (LP_ENCODING_12BIT_STR_LEN b b1) }
               else if b = LP_ENCODING_32BIT_STR then
                 do { bs \<leftarrow> mem_read lp (p + 1) 4; str 5 (nat (le_val bs)) }
               else
                 Some (LP_Int (lp_signed (12345678900000000 + unat b) (2 ^ 64 - 1) 0), None)) })"

definition lpGetValue :: "bytes \<Rightarrow> nat \<Rightarrow> lp_value option" where
  "lpGetValue lp p = map_option fst (lpGetWithSize lp p)"

text \<open>\<open>lpGet\<close> with an \<open>intbuf\<close>: the bytes of the element in either case.\<close>

definition lpGet :: "bytes \<Rightarrow> nat \<Rightarrow> bytes \<Rightarrow> bytes option" where
  "lpGet lp p intbuf =
     do { (v, _) \<leftarrow> lpGetWithSize lp p;
          (case v of
             LP_Str q count \<Rightarrow> mem_read lp q count
           | LP_Int val \<Rightarrow>
               do { (buf, count) \<leftarrow> ll2string intbuf 21 val; Some (take count buf) }) }"

definition lpCompare :: "bytes \<Rightarrow> nat \<Rightarrow> bytes \<Rightarrow> bool option" where
  "lpCompare lp p s =
     do { b \<leftarrow> mem_get lp p;
          (if b = LP_EOF then Some False
           else
             do { (v, _) \<leftarrow> lpGetWithSize lp p;
                  (case v of
                     LP_Str q sz \<Rightarrow>
                       if length s = sz then map_option (\<lambda>bs. bs = s) (mem_read lp q sz) else Some False
                   | LP_Int sz \<Rightarrow>
                       (case lpStringToInt64 s of Some sval \<Rightarrow> Some (sz = sval) | None \<Rightarrow> Some False)) }) }"

text \<open>
  \<open>lpFind\<close>: \<open>venc\<close> is \<open>None\<close> while \<open>vencoding\<close> is 0, \<open>Some None\<close> for \<open>UCHAR_MAX\<close> and \<open>Some (Some vll)\<close>
  once the searched string is known to be the integer \<open>vll\<close>; \<open>esize\<close> is \<open>entry_size\<close>.
\<close>

definition lpFind_advance ::
  "bytes \<Rightarrow> nat \<Rightarrow> nat \<Rightarrow> 'a \<Rightarrow> (nat option + nat \<times> 'a) option" where
  "lpFind_advance lp lp_bytes p st =
     do { (if p + 8 \<ge> lp_bytes then lpAssertValidEntry lp lp_bytes p
           else c_assert (p \<ge> LP_HDR_SIZE \<and> p < lp_bytes));
          b \<leftarrow> mem_get lp p;
          Some (if b = LP_EOF then Inl None else Inr (p, st)) }"

definition lpFind_step ::
  "bytes \<Rightarrow> bytes \<Rightarrow> nat \<Rightarrow> nat \<Rightarrow> nat \<times> nat \<times> int option option \<times> nat
     \<Rightarrow> (nat option + nat \<times> nat \<times> int option option \<times> nat) option" where
  "lpFind_step lp s skip lp_bytes = (\<lambda>(p, skipcnt, venc, esize).
     if skipcnt = 0 then
       do { (v, es) \<leftarrow> lpGetWithSize lp p;
            let esize = (case es of Some e \<Rightarrow> e | None \<Rightarrow> esize)
            in (case v of
                  LP_Str q ll \<Rightarrow>
                    do { c_assert (p \<ge> LP_HDR_SIZE \<and> p + esize < lp_bytes);
                         eq \<leftarrow> (if length s = ll then map_option (\<lambda>bs. bs = s) (mem_read lp q ll)
                               else Some False);
                         (if eq then Some (Inl (Some p))
                          else lpFind_advance lp lp_bytes (p + esize) (skip, venc, esize)) }
                | LP_Int ll \<Rightarrow>
                    let venc = (case venc of
                          None \<Rightarrow> if length s \<ge> 32 \<or> length s = 0 then Some None
                                  else Some (lpStringToInt64 s)
                        | Some x \<Rightarrow> Some x)
                    in if venc = Some (Some ll) then Some (Inl (Some p))
                       else lpFind_advance lp lp_bytes (p + esize) (skip, venc, esize)) }
     else
       do { p \<leftarrow> lpSkip lp p; lpFind_advance lp lp_bytes p (skipcnt - 1, venc, esize) })"

definition lpFind :: "bytes \<Rightarrow> nat \<Rightarrow> bytes \<Rightarrow> nat \<Rightarrow> nat option option" where
  "lpFind lp p s skip = c_loop (lpFind_step lp s skip (lpBytes lp)) (p, 0, None, 123456789)"

section \<open>Updates\<close>

datatype lp_where = LP_BEFORE | LP_AFTER | LP_REPLACE

text \<open>
  The element to insert: a string, an already encoded integer, or nothing (delete). The result is
  the new listpack and \<open>*newp\<close>; \<open>Some None\<close> is the \<open>NULL\<close> of an oversized listpack.
\<close>

datatype lp_elem = EleStr bytes | EleInt bytes | EleDel

definition lp_assert_integrity :: "bytes \<Rightarrow> nat \<Rightarrow> unit option" where
  "lp_assert_integrity lp p = c_assert (p \<ge> LP_HDR_SIZE \<and> p < lpGetTotalBytes lp)"

definition lp_assert_integrity_len :: "bytes \<Rightarrow> nat \<Rightarrow> nat \<Rightarrow> unit option" where
  "lp_assert_integrity_len lp p len = c_assert (p \<ge> LP_HDR_SIZE \<and> p + len < lpGetTotalBytes lp)"

text \<open>
  The middle of \<open>lpInsert\<close>: reallocate before if more room is needed, move the tail, reallocate after
  if there is less. \<open>added\<close> is \<open>enclen + backlen_size\<close>.
\<close>

definition lpInsert_relocate :: "allocator \<Rightarrow> bytes \<Rightarrow> lp_where \<Rightarrow> nat \<Rightarrow> nat \<Rightarrow> nat \<Rightarrow> nat \<Rightarrow> nat \<Rightarrow> bytes option" where
  "lpInsert_relocate al lp whr poff added replaced_len old_listpack_bytes new_listpack_bytes =
     (let lp = (if new_listpack_bytes > old_listpack_bytes \<and> new_listpack_bytes > length lp
                then lp_realloc al lp new_listpack_bytes else lp)
      in do { lp \<leftarrow> (if whr = LP_BEFORE
                     then mem_move lp (poff + added) poff (old_listpack_bytes - poff)
                     else mem_move lp (poff + added) (poff + replaced_len)
                            (old_listpack_bytes - poff - replaced_len));
              Some (if new_listpack_bytes < old_listpack_bytes
                    then lp_realloc al lp new_listpack_bytes else lp) })"

text \<open>Storing the entry: the encoded integer or string, then the backward length.\<close>

definition lpInsert_store :: "bytes \<Rightarrow> lp_elem \<Rightarrow> bytes option \<Rightarrow> nat \<Rightarrow> nat \<Rightarrow> bytes \<Rightarrow> bytes option" where
  "lpInsert_store lp ele intenc poff enclen backlen =
     (if ele = EleDel then Some lp
      else
        do { lp \<leftarrow> (case (intenc, ele) of
                       (Some e, _) \<Rightarrow> mem_write lp poff e
                     | (None, EleStr s) \<Rightarrow> mem_write lp poff (lpEncodeString s)
                     | (None, _) \<Rightarrow> None);
             mem_write lp (poff + enclen) backlen })"

definition lpInsert_header :: "bytes \<Rightarrow> bool \<Rightarrow> bool \<Rightarrow> nat \<Rightarrow> bytes" where
  "lpInsert_header lp replace del new_listpack_bytes =
     (let num = lpGetNumElements lp;
          lp = (if \<not> replace \<or> del then
                  if num \<noteq> LP_HDR_NUMELE_UNKNOWN then
                    if \<not> del then lpSetNumElements lp (num + 1)
                    else lpSetNumElements lp ((num + 2 ^ 32 - 1) mod 2 ^ 32)
                  else lp
                else lp)
      in lpSetTotalBytes lp new_listpack_bytes)"

definition lpInsert :: "allocator \<Rightarrow> bytes \<Rightarrow> lp_elem \<Rightarrow> nat \<Rightarrow> lp_where
    \<Rightarrow> (bytes \<times> nat option) option option" where
  "lpInsert al lp ele p whr =
     (let del = (ele = EleDel); whr = (if del then LP_REPLACE else whr) in
      do { (p, whr) \<leftarrow> (if whr = LP_AFTER
                         then do { p \<leftarrow> lpSkip lp p; lp_assert_integrity lp p; Some (p, LP_BEFORE) }
                         else Some (p, whr));
           let poff = p;
               (intenc, enclen) = (case ele of
                   EleStr s \<Rightarrow> lpEncodeGetType s
                 | EleInt e \<Rightarrow> (Some e, length e)
                 | EleDel \<Rightarrow> (None, 0));
               backlen = (if del then [] else lpEncodeBacklen enclen);
               backlen_size = length backlen;
               old_listpack_bytes = lpGetTotalBytes lp
           in do { replaced_len \<leftarrow> (if whr = LP_REPLACE then
                       do { l \<leftarrow> lpCurrentEncodedSizeUnsafe lp p;
                            let l = (l + length (lpEncodeBacklen l)) mod 2 ^ 32
                            in do { lp_assert_integrity_len lp p l; Some l } }
                     else Some 0);
                   let new_listpack_bytes = old_listpack_bytes + enclen + backlen_size - replaced_len
                   in if new_listpack_bytes > 2 ^ 32 - 1 then Some None
                      else
                        do { lp \<leftarrow> lpInsert_relocate al lp whr poff (enclen + backlen_size) replaced_len
                                      old_listpack_bytes new_listpack_bytes;
                             newp \<leftarrow> (if del
                                then do { b \<leftarrow> mem_get lp poff; Some (if b = LP_EOF then None else Some poff) }
                                else Some (Some poff));
                             lp \<leftarrow> lpInsert_store lp ele intenc poff enclen backlen;
                             Some (Some (lpInsert_header lp (whr = LP_REPLACE) del new_listpack_bytes, newp)) } } })"

definition lpInsertInteger :: "allocator \<Rightarrow> bytes \<Rightarrow> int \<Rightarrow> nat \<Rightarrow> lp_where
    \<Rightarrow> (bytes \<times> nat option) option option" where
  "lpInsertInteger al lp lval p whr = lpInsert al lp (EleInt (lpEncodeIntegerGetType lval)) p whr"

definition lpAppend :: "allocator \<Rightarrow> bytes \<Rightarrow> bytes \<Rightarrow> bytes option option" where
  "lpAppend al lp ele =
     map_option (map_option fst) (lpInsert al lp (EleStr ele) (lpGetTotalBytes lp - 1) LP_BEFORE)"

definition lpAppendInteger :: "allocator \<Rightarrow> bytes \<Rightarrow> int \<Rightarrow> bytes option option" where
  "lpAppendInteger al lp lval =
     map_option (map_option fst) (lpInsertInteger al lp lval (lpGetTotalBytes lp - 1) LP_BEFORE)"

definition lpPrepend :: "allocator \<Rightarrow> bytes \<Rightarrow> bytes \<Rightarrow> bytes option option" where
  "lpPrepend al lp s =
     do { p \<leftarrow> lpFirst lp;
          (case p of
             None \<Rightarrow> lpAppend al lp s
           | Some p \<Rightarrow> map_option (map_option fst) (lpInsert al lp (EleStr s) p LP_BEFORE)) }"

definition lpPrependInteger :: "allocator \<Rightarrow> bytes \<Rightarrow> int \<Rightarrow> bytes option option" where
  "lpPrependInteger al lp lval =
     do { p \<leftarrow> lpFirst lp;
          (case p of
             None \<Rightarrow> lpAppendInteger al lp lval
           | Some p \<Rightarrow> map_option (map_option fst) (lpInsertInteger al lp lval p LP_BEFORE)) }"

definition lpReplace :: "allocator \<Rightarrow> bytes \<Rightarrow> nat \<Rightarrow> bytes \<Rightarrow> (bytes \<times> nat option) option option" where
  "lpReplace al lp p s = lpInsert al lp (EleStr s) p LP_REPLACE"

definition lpReplaceInteger :: "allocator \<Rightarrow> bytes \<Rightarrow> nat \<Rightarrow> int \<Rightarrow> (bytes \<times> nat option) option option" where
  "lpReplaceInteger al lp p lval = lpInsertInteger al lp lval p LP_REPLACE"

definition lpDelete :: "allocator \<Rightarrow> bytes \<Rightarrow> nat \<Rightarrow> (bytes \<times> nat option) option option" where
  "lpDelete al lp p = lpInsert al lp EleDel p LP_REPLACE"

definition lpNew :: "allocator \<Rightarrow> nat \<Rightarrow> bytes" where
  "lpNew al capacity =
     (let size = usable al (if capacity > LP_HDR_SIZE + 1 then capacity else LP_HDR_SIZE + 1);
          lp = map (junk al) [0..<size];
          lp = lpSetTotalBytes lp (LP_HDR_SIZE + 1);
          lp = lpSetNumElements lp 0
      in lp[LP_HDR_SIZE := LP_EOF])"

definition lpShrinkToFit :: "allocator \<Rightarrow> bytes \<Rightarrow> bytes" where
  "lpShrinkToFit al lp =
     (let size = lpGetTotalBytes lp in
      if size < length lp then lp_realloc al lp size else lp)"

definition lpDup :: "allocator \<Rightarrow> bytes \<Rightarrow> bytes option" where
  "lpDup al lp =
     (let lpbytes = lpBytes lp in
      do { bs \<leftarrow> mem_read lp 0 lpbytes;
           mem_write (map (junk al) [0..<usable al lpbytes]) 0 bs })"

text \<open>The loop of \<open>lpDeleteRangeWithEntry\<close> that looks for the end of the range.\<close>

fun lpDeleteRange_tail :: "bytes \<Rightarrow> nat \<Rightarrow> nat \<Rightarrow> nat \<Rightarrow> nat \<Rightarrow> (nat \<times> nat) option" where
  "lpDeleteRange_tail lp nbytes 0 deleted tail = Some (deleted, tail)"
| "lpDeleteRange_tail lp nbytes (Suc num) deleted tail =
     do { tail \<leftarrow> lpSkip lp tail;
          b \<leftarrow> mem_get lp tail;
          (if b = LP_EOF then Some (deleted + 1, tail)
           else do { lpAssertValidEntry lp nbytes tail;
                     lpDeleteRange_tail lp nbytes num (deleted + 1) tail }) }"

definition lpDeleteRangeWithEntry :: "allocator \<Rightarrow> bytes \<Rightarrow> nat \<Rightarrow> nat \<Rightarrow> (bytes \<times> nat option) option" where
  "lpDeleteRangeWithEntry al lp p num =
     (let nbytes = lpBytes lp; eofptr = nbytes - 1; first = p in
      if num = 0 then Some (lp, Some p)
      else
        do { (deleted, tail) \<leftarrow> lpDeleteRange_tail lp nbytes num 0 p;
             c_assert (tail \<le> eofptr + 1);
             lp \<leftarrow> mem_move lp first tail (eofptr + 1 - tail);
             let lp = lpSetTotalBytes lp (nbytes - (tail - first));
                 numele = lpGetNumElements lp;
                 lp = (if numele \<noteq> LP_HDR_NUMELE_UNKNOWN
                       then lpSetNumElements lp (nat ((int numele - int deleted) mod 2 ^ 32)) else lp);
                 lp = lpShrinkToFit al lp
             in do { b \<leftarrow> mem_get lp first;
                     Some (lp, if b = LP_EOF then None else Some first) } })"

fun lpSeek_fwd :: "bytes \<Rightarrow> nat \<Rightarrow> nat option \<Rightarrow> nat option option" where
  "lpSeek_fwd lp 0 ele = Some ele"
| "lpSeek_fwd lp (Suc n) None = Some None"
| "lpSeek_fwd lp (Suc n) (Some p) = do { ele \<leftarrow> lpNext lp p; lpSeek_fwd lp n ele }"

fun lpSeek_bwd :: "bytes \<Rightarrow> nat \<Rightarrow> nat option \<Rightarrow> nat option option" where
  "lpSeek_bwd lp 0 ele = Some ele"
| "lpSeek_bwd lp (Suc n) None = Some None"
| "lpSeek_bwd lp (Suc n) (Some p) = do { ele \<leftarrow> lpPrev lp p; lpSeek_bwd lp n ele }"

text \<open>The loops of \<open>lpSeek\<close> run \<open>index\<close> times forward, or \<open>-1 - index\<close> times backward.\<close>

definition lpSeek :: "bytes \<Rightarrow> int \<Rightarrow> nat option option" where
  "lpSeek lp index =
     (let numele = int (lpGetNumElements lp);
          fwd = (\<lambda>index. do { ele \<leftarrow> lpFirst lp; lpSeek_fwd lp (nat index) ele });
          bwd = (\<lambda>index. do { ele \<leftarrow> lpLast lp; lpSeek_bwd lp (nat (- 1 - index)) ele })
      in if lpGetNumElements lp \<noteq> LP_HDR_NUMELE_UNKNOWN then
           (let index = (if index < 0 then numele + index else index) in
            if index < 0 then Some None
            else if index \<ge> numele then Some None
            else if index > numele div 2 then bwd (index - numele)
            else fwd index)
         else if index < 0 then bwd index
         else fwd index)"

definition lpDeleteRange :: "allocator \<Rightarrow> bytes \<Rightarrow> int \<Rightarrow> nat \<Rightarrow> bytes option" where
  "lpDeleteRange al lp index num =
     (let numele = lpGetNumElements lp in
      if num = 0 then Some lp
      else
        do { p \<leftarrow> lpSeek lp index;
             (case p of
                None \<Rightarrow> Some lp
              | Some p \<Rightarrow>
                  let known = (numele \<noteq> LP_HDR_NUMELE_UNKNOWN);
                      index = (if known \<and> index < 0 then int numele + index else index)
                  in if known \<and> (int numele - index) mod 2 ^ 64 \<le> int num then
                       do { lp \<leftarrow> mem_write lp p [LP_EOF];
                            let lp = lpSetTotalBytes lp (p + 1);
                                lp = lpSetNumElements lp (nat index)
                            in Some (lpShrinkToFit al lp) }
                     else map_option fst (lpDeleteRangeWithEntry al lp p num)) })"

text \<open>\<open>lpBatchDelete\<close>: the loop over the element pointers \<open>ps\<close>; the result is the final \<open>dst\<close>.\<close>

fun lpBatchDelete_loop :: "bytes \<Rightarrow> nat \<Rightarrow> nat list \<Rightarrow> nat \<Rightarrow> (bytes \<times> nat) option" where
  "lpBatchDelete_loop lp lp_end [] dst = Some (lp, dst)"
| "lpBatchDelete_loop lp lp_end (skip # ps) dst =
     do { b \<leftarrow> mem_get lp skip;
          c_assert (b \<noteq> LP_EOF);
          keep_start \<leftarrow> lpSkip lp skip;
          let keep_end = (case ps of q # _ \<Rightarrow> q | [] \<Rightarrow> lp_end)
          in if ps \<noteq> [] \<and> keep_start = keep_end then lpBatchDelete_loop lp lp_end ps dst
             else
               do { c_assert (keep_end > keep_start);
                    lp \<leftarrow> mem_move lp dst keep_start (keep_end - keep_start);
                    lpBatchDelete_loop lp lp_end ps (dst + (keep_end - keep_start)) } }"

definition lpBatchDelete :: "allocator \<Rightarrow> bytes \<Rightarrow> nat list \<Rightarrow> bytes option" where
  "lpBatchDelete al lp ps =
     (if ps = [] then Some lp
      else
        let total_bytes = lpGetTotalBytes lp; lp_end = total_bytes in
        do { c_assert (lp_end \<noteq> 0);
             e \<leftarrow> mem_get lp (lp_end - 1);
             c_assert (e = LP_EOF);
             (lp, dst) \<leftarrow> lpBatchDelete_loop lp lp_end ps (hd ps);
             let deleted_bytes = lp_end - dst; total_bytes = total_bytes - deleted_bytes
             in do { c_assert (total_bytes \<noteq> 0);
                     e \<leftarrow> mem_get lp (total_bytes - 1);
                     c_assert (e = LP_EOF);
                     let lp = lpSetTotalBytes lp total_bytes;
                         numele = lpGetNumElements lp;
                         lp = (if numele \<noteq> LP_HDR_NUMELE_UNKNOWN
                               then lpSetNumElements lp (nat ((int numele - int (length ps)) mod 2 ^ 32))
                               else lp)
                     in Some (lpShrinkToFit al lp) } })"

text \<open>
  \<open>lpMerge\<close> of two distinct listpacks: the merged listpack, and whether it reuses \<open>*first\<close>.
\<close>

definition lpMerge :: "allocator \<Rightarrow> bytes \<Rightarrow> bytes \<Rightarrow> (bytes \<times> bool) option" where
  "lpMerge al first second =
     do { let first_bytes = lpBytes first;
          (first, first_len) \<leftarrow> lpLength first;
          let second_bytes = lpBytes second;
          (second, second_len) \<leftarrow> lpLength second;
          let append = (first_bytes \<ge> second_bytes);
              (target, target_bytes, source, source_bytes) =
                (if append then (first, first_bytes, second, second_bytes)
                 else (second, second_bytes, first, first_bytes));
              lpbytes = first_bytes + second_bytes - LP_HDR_SIZE - 1
          in do { c_assert (lpbytes < 2 ^ 32 - 1);
                  let lplength = first_len + second_len;
                      lplength = (if lplength < 65535 then lplength else 65535);
                      target = lp_realloc al target lpbytes
                  in do { target \<leftarrow> (if append then
                              do { bs \<leftarrow> mem_read source LP_HDR_SIZE (source_bytes - LP_HDR_SIZE);
                                   mem_write target (target_bytes - 1) bs }
                            else
                              do { target \<leftarrow> mem_move target (source_bytes - 1) LP_HDR_SIZE
                                               (target_bytes - LP_HDR_SIZE);
                                   bs \<leftarrow> mem_read source 0 (source_bytes - 1);
                                   mem_write target 0 bs });
                          Some (lpSetTotalBytes (lpSetNumElements target lplength) lpbytes, append) } } }"

definition lpEstimateBytesRepeatedInteger :: "int \<Rightarrow> nat \<Rightarrow> nat" where
  "lpEstimateBytesRepeatedInteger lval rep =
     (let enclen = length (lpEncodeIntegerGetType lval);
          backlen = length (lpEncodeBacklen enclen)
      in LP_HDR_SIZE + (enclen + backlen) * rep + 1)"

section \<open>Validation of untrusted payloads\<close>

definition lpValidateFirst :: "bytes \<Rightarrow> nat option option" where
  "lpValidateFirst lp =
     do { b \<leftarrow> mem_get lp LP_HDR_SIZE; Some (if b = LP_EOF then None else Some LP_HDR_SIZE) }"

text \<open>
  One iteration over the entries; the callback sees the entry, the element count of the header and
  its own data \<open>ud\<close>. Leaving with \<open>None\<close> is \<open>return 0\<close>, with \<open>Some (p, count)\<close> the end of the scan.
\<close>

definition lpValidate_step ::
  "(nat \<Rightarrow> nat \<Rightarrow> 'u \<Rightarrow> bool \<times> 'u) option \<Rightarrow> bytes \<Rightarrow> nat \<Rightarrow> nat option \<times> nat \<times> 'u
     \<Rightarrow> ((nat option \<times> nat) option + nat option \<times> nat \<times> 'u) option" where
  "lpValidate_step entry_cb lp nbytes = (\<lambda>(p, count, ud).
     case p of
       None \<Rightarrow> Some (Inl (Some (p, count)))
     | Some q \<Rightarrow>
         do { b \<leftarrow> mem_get lp q;
              (if b = LP_EOF then Some (Inl (Some (p, count)))
               else
                 do { (ok, p') \<leftarrow> lpValidateNext lp p nbytes;
                      (if \<not> ok then Some (Inl None)
                       else
                         case entry_cb of
                           None \<Rightarrow> Some (Inr (p', (count + 1) mod 2 ^ 32, ud))
                         | Some cb \<Rightarrow>
                             (case cb q (lpGetNumElements lp) ud of (ok, ud) \<Rightarrow>
                                if \<not> ok then Some (Inl None)
                                else Some (Inr (p', (count + 1) mod 2 ^ 32, ud)))) }) })"

definition lpValidateIntegrity ::
  "bytes \<Rightarrow> bool \<Rightarrow> (nat \<Rightarrow> nat \<Rightarrow> 'u \<Rightarrow> bool \<times> 'u) option \<Rightarrow> 'u \<Rightarrow> bool option" where
  "lpValidateIntegrity lp deep entry_cb ud =
     (let size = length lp in
      if size < LP_HDR_SIZE + 1 then Some False
      else
        let nbytes = lpGetTotalBytes lp in
        if nbytes \<noteq> size then Some False
        else
          do { e \<leftarrow> mem_get lp (size - 1);
               (if e \<noteq> LP_EOF then Some False
                else if \<not> deep then Some True
                else
                  do { r \<leftarrow> c_loop (lpValidate_step entry_cb lp nbytes) (Some LP_HDR_SIZE, 0, ud);
                       Some (case r of
                               None \<Rightarrow> False
                             | Some (p, count) \<Rightarrow>
                                 let numele = lpGetNumElements lp in
                                 if p \<noteq> Some (size - 1) then False
                                 else if numele \<noteq> LP_HDR_NUMELE_UNKNOWN \<and> numele \<noteq> count then False
                                 else True) }) })"

section \<open>Encoding bytes\<close>

lemma lp_class:
  "LP_ENCODING_IS_7BIT_UINT b \<longleftrightarrow> uint b < 128"
  "LP_ENCODING_IS_6BIT_STR b \<longleftrightarrow> 128 \<le> uint b \<and> uint b < 192"
  "LP_ENCODING_IS_13BIT_INT b \<longleftrightarrow> 192 \<le> uint b \<and> uint b < 224"
  "LP_ENCODING_IS_12BIT_STR b \<longleftrightarrow> 224 \<le> uint b \<and> uint b < 240"
proof -
  note u = uint_byte_bounds [of b]
  have "uint (b AND 0x80) = (uint b div 2 ^ 7) * 2 ^ 7" by (rule byte_and_high [of _ _ 1]) (use u in \<open>simp_all add: mask_eq_exp_minus_1 push_bit_eq_mult\<close>)
  then show "LP_ENCODING_IS_7BIT_UINT b \<longleftrightarrow> uint b < 128"
    using u by (auto simp: LP_ENCODING_IS_7BIT_UINT_def word_uint_eq_iff)
  have "uint (b AND 0xC0) = (uint b div 2 ^ 6) * 2 ^ 6" by (rule byte_and_high [of _ _ 2]) (use u in \<open>simp_all add: mask_eq_exp_minus_1 push_bit_eq_mult\<close>)
  then show "LP_ENCODING_IS_6BIT_STR b \<longleftrightarrow> 128 \<le> uint b \<and> uint b < 192"
    using u by (auto simp: LP_ENCODING_IS_6BIT_STR_def word_uint_eq_iff)
  have "uint (b AND 0xE0) = (uint b div 2 ^ 5) * 2 ^ 5" by (rule byte_and_high [of _ _ 3]) (use u in \<open>simp_all add: mask_eq_exp_minus_1 push_bit_eq_mult\<close>)
  then show "LP_ENCODING_IS_13BIT_INT b \<longleftrightarrow> 192 \<le> uint b \<and> uint b < 224"
    using u by (auto simp: LP_ENCODING_IS_13BIT_INT_def word_uint_eq_iff)
  have "uint (b AND 0xF0) = (uint b div 2 ^ 4) * 2 ^ 4" by (rule byte_and_high [of _ _ 4]) (use u in \<open>simp_all add: mask_eq_exp_minus_1 push_bit_eq_mult\<close>)
  then show "LP_ENCODING_IS_12BIT_STR b \<longleftrightarrow> 224 \<le> uint b \<and> uint b < 240"
    using u by (auto simp: LP_ENCODING_IS_12BIT_STR_def word_uint_eq_iff)
qed

lemma byte_high_bit: "b AND 128 = (0 :: byte) \<longleftrightarrow> uint b < 128"
  using lp_class(1) [of b] by (simp add: LP_ENCODING_IS_7BIT_UINT_def)

end
