(* ===== verification/Listpack_Rep.thy ===== *)
theory Listpack_Rep
  imports Listpack
begin

text \<open>
  What the bytes of a listpack mean: the representation relation between an allocation and a list
  of entries, that reading an entry does not depend on its neighbours, that the backward length
  decodes to what was encoded, and that every integer and string is read back as it was written.
\<close>

section \<open>Abstraction\<close>

text \<open>
  The data part of an entry (encoding byte and payload), the whole entry, and the bytes between
  header and terminator. A well-formed data part is exactly as long as its own encoding says.
\<close>

definition wf_entry :: "bytes \<Rightarrow> bool" where
  "wf_entry d \<longleftrightarrow> d \<noteq> [] \<and> hd d \<noteq> LP_EOF \<and> length d < 2 ^ 32 \<and> lpCurrentEncodedSizeUnsafe d 0 = Some (length d)"

definition lp_entry :: "bytes \<Rightarrow> bytes" where
  "lp_entry d = d @ lpEncodeBacklen (length d)"

definition lp_body :: "bytes list \<Rightarrow> bytes" where
  "lp_body ds = concat (map lp_entry ds)"

definition lp_size :: "bytes list \<Rightarrow> nat" where
  "lp_size ds = 7 + length (lp_body ds)"

definition lp_off :: "bytes list \<Rightarrow> nat \<Rightarrow> nat" where
  "lp_off ds i = 6 + length (lp_body (take i ds))"

definition lp_hdr :: "nat \<Rightarrow> nat \<Rightarrow> bytes" where
  "lp_hdr sz n = le_bytes 4 (int sz) @ le_bytes 2 (int n)"

text \<open>The header count is exact, or the marker of an unknown number of elements.\<close>

definition lp_num_ok :: "nat \<Rightarrow> nat \<Rightarrow> bool" where
  "lp_num_ok n k \<longleftrightarrow> n = LP_HDR_NUMELE_UNKNOWN \<or> n = k \<and> k < LP_HDR_NUMELE_UNKNOWN"

definition lp_rep :: "bytes \<Rightarrow> bytes list \<Rightarrow> bool" where
  "lp_rep lp ds \<longleftrightarrow> list_all wf_entry ds \<and> lp_size ds < 2 ^ 32 \<and>
     (\<exists>n rest. lp = lp_hdr (lp_size ds) n @ lp_body ds @ LP_EOF # rest \<and> lp_num_ok n (length ds))"

text \<open>The value an entry stands for.\<close>

datatype lp_val = VStr bytes | VInt int

definition entry_val :: "bytes \<Rightarrow> lp_val" where
  "entry_val d =
     (case lpGetWithSize d 0 of
        Some (LP_Str q n, _) \<Rightarrow> VStr (take n (drop q d))
      | Some (LP_Int v, _) \<Rightarrow> VInt v
      | None \<Rightarrow> VInt 0)"

text \<open>The element as a string, as every command shows it.\<close>

definition val_bytes :: "lp_val \<Rightarrow> bytes" where
  "val_bytes v = (case v of VStr s \<Rightarrow> s | VInt i \<Rightarrow> ll_repr i)"

text \<open>The data part that \<open>lpInsert\<close> writes for a string.\<close>

definition lp_encode :: "bytes \<Rightarrow> bytes" where
  "lp_encode s = (case lpStringToInt64 s of Some v \<Rightarrow> lpEncodeIntegerGetType v | None \<Rightarrow> lpEncodeString s)"

section \<open>Locality\<close>

text \<open>What is read inside a block does not depend on what surrounds it.\<close>

lemma mem_get_block: "mem_get d k = Some x \<Longrightarrow> mem_get (pre @ d @ post) (length pre + k) = Some x"
  by (auto simp: mem_get_def nth_append split: if_splits)

lemma mem_read_block: "mem_read d k n = Some x \<Longrightarrow> mem_read (pre @ d @ post) (length pre + k) n = Some x"
  by (auto simp: mem_read_def split: if_splits)

lemma encodedSize_block:
  assumes "lpCurrentEncodedSizeUnsafe d 0 = Some n"
  shows "lpCurrentEncodedSizeUnsafe (pre @ d @ post) (length pre) = Some n"
proof -
  obtain b where b: "mem_get d 0 = Some b"
    using assms by (cases "mem_get d 0") (auto simp: lpCurrentEncodedSizeUnsafe_def)
  show ?thesis
    using assms b mem_get_block [OF b, of pre post] mem_get_block [of d 1 _ pre post] mem_read_block [of d 1 4 _ pre post]
    by (auto simp: lpCurrentEncodedSizeUnsafe_def bind_eq_Some_conv split: if_splits)
qed

fun shift_value :: "nat \<Rightarrow> lp_value \<times> nat option \<Rightarrow> lp_value \<times> nat option" where
  "shift_value k (LP_Str q n, e) = (LP_Str (k + q) n, e)"
| "shift_value k (LP_Int v, e) = (LP_Int v, e)"

lemma getWithSize_block:
  assumes "lpGetWithSize d 0 = Some r"
  shows "lpGetWithSize (pre @ d @ post) (length pre) = Some (shift_value (length pre) r)"
proof -
  obtain b where b: "mem_get d 0 = Some b"
    using assms by (cases "mem_get d 0") (auto simp: lpGetWithSize_def)
  show ?thesis
    using assms b mem_get_block [OF b, of pre post] mem_get_block [of d 1 _ pre post] mem_read_block [of d 1 _ _ pre post]
    by (auto simp: lpGetWithSize_def Let_def bind_eq_Some_conv split: if_splits)
qed

section \<open>The backward length\<close>

lemma length_backlen: "1 \<le> length (lpEncodeBacklen l)" "length (lpEncodeBacklen l) \<le> 5"
  by (simp_all add: lpEncodeBacklen_def Let_def)

lemma uint_byte_of_int: "0 \<le> x \<Longrightarrow> x < 256 \<Longrightarrow> uint (word_of_int x :: byte) = x"
  by (simp add: uint_word_of_int)

lemma unat_byte_of_nat: "n < 256 \<Longrightarrow> unat (of_nat n :: byte) = n"
  by (simp add: unat_of_nat)

lemma backlen_low:
  fixes x :: nat
  defines "b \<equiv> word_of_int ((int x AND 127) OR 128) :: byte"
  shows "unat (b AND 127) = x mod 128" "b AND 128 \<noteq> 0"
proof -
  have "int x AND 127 = int x mod 128"
    using take_bit_eq_mask [of 7 "int x"] by (simp add: mask_eq_exp_minus_1 take_bit_eq_mod)
  moreover have "(int x mod 128) OR 128 = int x mod 128 + 128" by (rule or_high_bits [of _ 7]) auto
  ultimately have "b = word_of_int (int x mod 128 + 128)" by (simp only: b_def)
  then have "uint b = int x mod 128 + 128"
    using uint_byte_of_int [of "int x mod 128 + 128"] by simp
  then have u: "unat b = x mod 128 + 128"
    by (metis (mono_tags, lifting) of_nat_add of_nat_eq_iff of_nat_mod of_nat_numeral uint_nat)
  then show "unat (b AND 127) = x mod 128" by (simp add: byte_low_masks)
  show "b AND 128 \<noteq> 0" using \<open>uint b = _\<close> by (simp add: byte_high_bit)
qed

lemma backlen_high:
  assumes "h < 128"
  shows "unat ((of_nat h :: byte) AND 127) = h" "(of_nat h :: byte) AND 128 = 0"
proof -
  have "unat (of_nat h :: byte) = h" using assms by (intro unat_byte_of_nat) simp
  then show "unat ((of_nat h :: byte) AND 127) = h" using assms by (simp add: byte_low_masks)
  show "(of_nat h :: byte) AND 128 = 0" using assms by (simp add: byte_high_bit uint_nat \<open>unat (of_nat h :: byte) = h\<close>)
qed

text \<open>The same digits, by recursion on their number.\<close>

fun backlen_digits :: "nat \<Rightarrow> nat \<Rightarrow> bytes" where
  "backlen_digits 0 l = [of_nat l]"
| "backlen_digits (Suc k) l = backlen_digits k (l div 128) @ [word_of_int ((int l AND 127) OR 128)]"

lemma length_backlen_digits [simp]: "length (backlen_digits k l) = Suc k"
  by (induction k arbitrary: l) simp_all

lemma lpEncodeBacklen_digits:
  assumes "l < 2 ^ 32"
  obtains k where "lpEncodeBacklen l = backlen_digits k l" "l < 128 ^ Suc k" "k \<le> 4"
proof -
  have d: "l div 128 div 128 = l div 2 ^ 14" "l div 2 ^ 14 div 128 = l div 2 ^ 21" "l div 2 ^ 21 div 128 = l div 2 ^ 28"
    by (simp_all flip: div_mult2_eq)
  consider "l \<le> 127" | "127 < l" "l < 16383" | "16383 \<le> l" "l < 2097151" | "2097151 \<le> l" "l < 268435455"
    | "268435455 \<le> l" by linarith
  then show thesis
  proof cases
    case 1 show thesis by (rule that [of 0]) (use 1 in \<open>simp_all add: lpEncodeBacklen_def Let_def\<close>)
  next
    case 2 show thesis by (rule that [of 1]) (use 2 in \<open>simp_all add: lpEncodeBacklen_def Let_def\<close>)
  next
    case 3 show thesis by (rule that [of "Suc (Suc 0)"]) (use 3 d in \<open>simp_all add: lpEncodeBacklen_def Let_def\<close>)
  next
    case 4 show thesis by (rule that [of "Suc (Suc (Suc 0))"]) (use 4 d in \<open>simp_all add: lpEncodeBacklen_def Let_def\<close>)
  next
    case 5 show thesis by (rule that [of "Suc (Suc (Suc (Suc 0)))"])
        (use 5 d assms in \<open>simp_all add: lpEncodeBacklen_def Let_def\<close>)
  qed
qed

lemma decode_backlen_loop:
  assumes "l < 128 ^ Suc k" "shift + 7 * k \<le> 28"
  shows "lpDecodeBacklen_loop (pre @ backlen_digits k l @ post) (length pre + k) val shift = Some (val + l * 2 ^ shift)"
  using assms
proof (induction k arbitrary: l post val shift)
  case 0
  then show ?case
    using backlen_high [of l] by (subst lpDecodeBacklen_loop.simps) (simp add: mem_get_def Let_def)
next
  case (Suc k)
  let ?b = "word_of_int ((int l AND 127) OR 128) :: byte"
  have "l div 128 < 128 ^ Suc k" using Suc.prems(1) by (simp add: div_less_iff_less_mult mult.commute)
  then have "lpDecodeBacklen_loop (pre @ backlen_digits k (l div 128) @ ?b # post) (length pre + k)
      (val + l mod 128 * 2 ^ shift) (shift + 7) = Some (val + l mod 128 * 2 ^ shift + (l div 128) * 2 ^ (shift + 7))"
    using Suc.prems(2) by (intro Suc.IH) simp_all
  also have "val + l mod 128 * 2 ^ shift + (l div 128) * 2 ^ (shift + 7) = val + (l mod 128 + l div 128 * 128) * 2 ^ shift"
    by (simp only: power_add add_mult_distrib) simp
  also have "l mod 128 + l div 128 * 128 = l" by simp
  finally have rec: "lpDecodeBacklen_loop (pre @ backlen_digits k (l div 128) @ ?b # post) (length pre + k)
      (val + l mod 128 * 2 ^ shift) (shift + 7) = Some (val + l * 2 ^ shift)" .
  have "mem_get (pre @ backlen_digits k (l div 128) @ ?b # post) (Suc (length pre + k)) = Some ?b"
    using mem_get_block [of "[?b]" 0 ?b "pre @ backlen_digits k (l div 128)" post] by (simp add: mem_get_def)
  then show ?case
    using rec backlen_low [of l] Suc.prems(2) by (subst lpDecodeBacklen_loop.simps) (simp add: Let_def)
qed

lemma decode_backlen:
  assumes "l < 2 ^ 32"
  shows "lpDecodeBacklen (pre @ lpEncodeBacklen l @ post) (length pre + length (lpEncodeBacklen l) - 1) = Some l"
proof -
  obtain k where k: "lpEncodeBacklen l = backlen_digits k l" "l < 128 ^ Suc k" "k \<le> 4"
    using lpEncodeBacklen_digits [OF assms] .
  show ?thesis
    using decode_backlen_loop [OF k(2), of 0 pre post 0] k(1,3) by (simp add: lpDecodeBacklen_def)
qed

section \<open>Entries\<close>

lemma mem_get_0 [simp]: "mem_get (b # d) 0 = Some b"
  by (simp add: mem_get_def)

lemma mem_get_Suc: "mem_get (b # d) (Suc i) = mem_get d i"
  by (simp add: mem_get_def)

lemma mem_read_tl: "length bs = n \<Longrightarrow> mem_read (b # bs @ d) (Suc 0) n = Some bs"
  using mem_read_append [of "[b]" 1 bs n d] by simp

lemma mem_read_tl_all: "length bs = n \<Longrightarrow> mem_read (b # bs) (Suc 0) n = Some bs"
  using mem_read_tl [of bs n b "[]"] by simp

text \<open>The encodings in the order the code tests them.\<close>

lemma lp_cases:
  obtains (I7) "LP_ENCODING_IS_7BIT_UINT b"
  | (S6) "\<not> LP_ENCODING_IS_7BIT_UINT b" "LP_ENCODING_IS_6BIT_STR b"
  | (I13) "\<not> LP_ENCODING_IS_7BIT_UINT b" "\<not> LP_ENCODING_IS_6BIT_STR b" "LP_ENCODING_IS_13BIT_INT b"
  | (I) n :: nat where "n \<in> {2, 3, 4, 8}" "b = 0xF1 \<and> n = 2 \<or> b = 0xF2 \<and> n = 3 \<or> b = 0xF3 \<and> n = 4 \<or> b = 0xF4 \<and> n = 8"
  | (S12) "\<not> LP_ENCODING_IS_7BIT_UINT b" "\<not> LP_ENCODING_IS_6BIT_STR b" "\<not> LP_ENCODING_IS_13BIT_INT b"
       "b \<notin> {0xF1, 0xF2, 0xF3, 0xF4}" "LP_ENCODING_IS_12BIT_STR b"
  | (S32) "b = 0xF0"
  | (BAD) "\<not> LP_ENCODING_IS_7BIT_UINT b" "\<not> LP_ENCODING_IS_6BIT_STR b" "\<not> LP_ENCODING_IS_13BIT_INT b"
       "\<not> LP_ENCODING_IS_12BIT_STR b" "b \<notin> {0xF0, 0xF1, 0xF2, 0xF3, 0xF4}"
  by blast

lemma lp_class_num:
  "\<not> LP_ENCODING_IS_7BIT_UINT 0xF0" "\<not> LP_ENCODING_IS_6BIT_STR 0xF0" "\<not> LP_ENCODING_IS_13BIT_INT 0xF0" "\<not> LP_ENCODING_IS_12BIT_STR 0xF0"
  "\<not> LP_ENCODING_IS_7BIT_UINT 0xF1" "\<not> LP_ENCODING_IS_6BIT_STR 0xF1" "\<not> LP_ENCODING_IS_13BIT_INT 0xF1"
  "\<not> LP_ENCODING_IS_7BIT_UINT 0xF2" "\<not> LP_ENCODING_IS_6BIT_STR 0xF2" "\<not> LP_ENCODING_IS_13BIT_INT 0xF2"
  "\<not> LP_ENCODING_IS_7BIT_UINT 0xF3" "\<not> LP_ENCODING_IS_6BIT_STR 0xF3" "\<not> LP_ENCODING_IS_13BIT_INT 0xF3"
  "\<not> LP_ENCODING_IS_7BIT_UINT 0xF4" "\<not> LP_ENCODING_IS_6BIT_STR 0xF4" "\<not> LP_ENCODING_IS_13BIT_INT 0xF4"
  "\<not> LP_ENCODING_IS_7BIT_UINT 0xFF" "\<not> LP_ENCODING_IS_6BIT_STR 0xFF" "\<not> LP_ENCODING_IS_13BIT_INT 0xFF" "\<not> LP_ENCODING_IS_12BIT_STR 0xFF"
  by (simp_all add: lp_class)

text \<open>The encoded size, case by case; the bytes read are those of the entry.\<close>

lemma encodedSize_I: 
  "b = 0xF1 \<and> n = 2 \<or> b = 0xF2 \<and> n = 3 \<or> b = 0xF3 \<and> n = 4 \<or> b = 0xF4 \<and> n = 8 \<Longrightarrow>
     lpCurrentEncodedSizeUnsafe (b # d) 0 = Some (Suc n)"
  by (elim disjE) (simp_all add: lpCurrentEncodedSizeUnsafe_def lp_class_num)

lemma getWithSize_I:
  assumes "b = 0xF1 \<and> n = 2 \<or> b = 0xF2 \<and> n = 3 \<or> b = 0xF3 \<and> n = 4 \<or> b = 0xF4 \<and> n = 8" "length d = n"
  shows "lpGetWithSize (b # d) 0 = Some (LP_Int (lp_signed (nat (le_val d)) (2 ^ (8 * n - 1)) (2 ^ (8 * n) - 1)), Some (n + 2))"
  using assms mem_read_tl_all [OF assms(2), of b]
  by (elim disjE) (simp_all add: lpGetWithSize_def lp_class_num)

text \<open>The size of a well-formed entry and where its string lies.\<close>

lemma wf_entry_get:
  assumes "wf_entry d"
  shows "\<exists>v. lpGetWithSize d 0 = Some (v, Some (length (lp_entry d)))
    \<and> (case v of LP_Str q n \<Rightarrow> q + n = length d | LP_Int _ \<Rightarrow> True)"
proof -
  obtain b d' where d: "d = b # d'" using assms by (cases d) (auto simp: wf_entry_def)
  have size: "lpCurrentEncodedSizeUnsafe (b # d') 0 = Some (length d)" "b \<noteq> LP_EOF" "length d < 2 ^ 32"
    using assms d by (auto simp: wf_entry_def)
  have bl: "length (lpEncodeBacklen n) = 1" if "n \<le> 127" for n
    using that by (simp add: lpEncodeBacklen_def)
  show ?thesis
  proof (cases b rule: lp_cases)
    case I7
    then have "length d = 1" using size(1) by (simp add: lpCurrentEncodedSizeUnsafe_def)
    then show ?thesis using I7 bl [of 1] by (simp add: d lpGetWithSize_def lp_entry_def)
  next
    case S6
    then have "length d = 1 + LP_ENCODING_6BIT_STR_LEN b" using size(1) by (simp add: lpCurrentEncodedSizeUnsafe_def)
    then show ?thesis using S6 by (simp add: d lpGetWithSize_def lp_entry_def Let_def)
  next
    case I13
    then have l: "length d = 2" using size(1) by (simp add: lpCurrentEncodedSizeUnsafe_def)
    then obtain c where "d' = [c]" using d by (cases d') auto
    moreover have "length (lp_entry d) = 3" using l bl [of 2] by (simp add: lp_entry_def)
    ultimately show ?thesis using I13 by (simp add: d lpGetWithSize_def mem_get_def)
  next
    case (I n)
    have l: "length d = Suc n" using encodedSize_I [OF I(2), of d'] size(1) by simp
    then have "length d' = n" using d by simp
    note get = getWithSize_I [OF I(2) this]
    have "length (lpEncodeBacklen (length d)) = 1" unfolding l using I(1) by (intro bl) auto
    then have "length (lp_entry d) = n + 2" using l by (simp add: lp_entry_def)
    then show ?thesis using get unfolding d by simp
  next
    case S12
    then obtain c where c: "mem_get d 1 = Some c" "length d = 2 + LP_ENCODING_12BIT_STR_LEN b c"
      using size(1) by (auto simp: lpCurrentEncodedSizeUnsafe_def d bind_eq_Some_conv)
    then show ?thesis using S12 by (simp add: d lpGetWithSize_def lp_entry_def Let_def)
  next
    case S32
    then obtain bs where bs: "mem_read d 1 4 = Some bs" "length d = (5 + nat (le_val bs)) mod 2 ^ 32"
      using size(1) by (auto simp: lpCurrentEncodedSizeUnsafe_def d bind_eq_Some_conv lp_class_num)
    have l: "5 \<le> length d" "length bs = 4" using bs(1) by (auto simp: mem_read_def split: if_splits)
    have "nat (le_val bs) < 2 ^ 32" using le_val_bounds [of bs] l(2) by simp
    then have "length d = 5 + nat (le_val bs)"
      using bs(2) l(1) by (auto simp: mod_if split: if_splits)
    then have "length d = nat (le_val bs) + 5" by simp
    then show ?thesis using S32 bs(1) by (simp add: d lpGetWithSize_def lp_entry_def Let_def lp_class_num
          add.commute [of "nat (le_val bs)" 5])
  next
    case BAD
    then show ?thesis using size by (simp add: lpCurrentEncodedSizeUnsafe_def d)
  qed
qed

section \<open>Encoding and decoding\<close>

lemma word_or_high:
  assumes "0 \<le> x" "x < 2 ^ k" "m mod 2 ^ k = 0" "x + m < 256" "0 \<le> m"
  shows "uint (word_of_int (x OR m) :: byte) = x + m"
  using or_high_bits [OF assms(1-3)] uint_byte_of_int [of "x + m"] assms by simp

lemma lp_signed_wrap:
  assumes "- (2 ^ (k - 1)) \<le> v" "v < 2 ^ (k - 1)" "0 < k"
  shows "lp_signed (nat (v mod 2 ^ k)) (2 ^ (k - 1)) (2 ^ k - 1) = v"
proof -
  have p: "(2::int) ^ k = 2 * 2 ^ (k - 1)" using assms(3) by (cases k) simp_all
  have pn: "nat (2 ^ n) = 2 ^ n" for n by (simp add: nat_power_eq)
  show ?thesis
  proof (cases "0 \<le> v")
    case True
    then have "v mod 2 ^ k = v" using assms p by (intro mod_pos_pos_trivial) auto
    then show ?thesis using True assms by (auto simp: lp_signed_def le_nat_iff)
  next
    case False
    have "v mod 2 ^ k = (v + 2 ^ k) mod 2 ^ k" by simp
    also have "\<dots> = v + 2 ^ k" using False assms p by (intro mod_pos_pos_trivial) auto
    finally have m: "v mod 2 ^ k = v + 2 ^ k" .
    have "2 ^ (k - 1) \<le> nat (v + 2 ^ k)" using assms(1) p by (simp add: le_nat_iff)
    moreover have "int (2 ^ k - 1 - nat (v + 2 ^ k)) = - v - 1"
      using False assms(1) p by (subst of_nat_diff) (auto simp: nat_le_iff of_nat_diff le_nat_iff)
    ultimately show ?thesis unfolding m by (simp add: lp_signed_def)
  qed
qed
text \<open>The 16, 24, 32 and 64 bit forms share one argument.\<close>

lemma encode_I:
  assumes "b = 0xF1 \<and> n = 2 \<or> b = 0xF2 \<and> n = 3 \<or> b = 0xF3 \<and> n = 4 \<or> b = 0xF4 \<and> n = 8"
    "- (2 ^ (8 * n - 1)) \<le> v" "v < 2 ^ (8 * n - 1)" "v' mod 2 ^ (8 * n) = v mod 2 ^ (8 * n)"
  shows "wf_entry (b # le_bytes n v') \<and> entry_val (b # le_bytes n v') = VInt v"
proof -
  have n: "0 < 8 * n" "b \<noteq> LP_EOF" "n \<le> 8" using assms(1) by auto
  have "le_val (le_bytes n v') = v mod 2 ^ (8 * n)"
    using assms(4) by (simp add: le_val_le_bytes power_mult)
  then have "entry_val (b # le_bytes n v') = VInt v"
    using getWithSize_I [OF assms(1), of "le_bytes n v'"] lp_signed_wrap [OF assms(2,3) n(1)]
    by (simp add: entry_val_def)
  then show ?thesis using encodedSize_I [OF assms(1), of "le_bytes n v'"] n by (simp add: wf_entry_def)
qed

lemma mod_add_self_num: "x < m \<Longrightarrow> (x + k * m) mod m = (x :: nat)"
  by simp

lemma encode_13:
  assumes "- 4096 \<le> v" "v \<le> 4095"
  defines "v' \<equiv> if v < 0 then 2 ^ 13 + v else v"
  defines "d \<equiv> [word_of_int ((v' div 256) OR 0xC0), word_of_int v']"
  shows "wf_entry d \<and> entry_val d = VInt v"
proof -
  have v': "0 \<le> v'" "v' < 8192" using assms(1,2) by (auto simp: v'_def)
  let ?b = "word_of_int ((v' div 256) OR 0xC0) :: byte" and ?c = "word_of_int v' :: byte"
  have b: "uint ?b = v' div 256 + 192" by (rule word_or_high [of _ 5]) (use v' in auto)
  then have nb: "unat ?b = nat (v' div 256) + 192" using v' by (simp add: unat_eq_nat_uint nat_add_distrib)
  have c: "unat ?c = nat (v' mod 256)" by (simp add: unat_eq_nat_uint uint_word_of_int)
  have cls: "\<not> LP_ENCODING_IS_7BIT_UINT ?b" "\<not> LP_ENCODING_IS_6BIT_STR ?b" "LP_ENCODING_IS_13BIT_INT ?b"
    using b v' by (auto simp: lp_class)
  have "nat (v' div 256) < 32" using v' by auto
  then have "unat (?b AND 0x1F) = nat (v' div 256)"
    using nb mod_add_self_num [of "nat (v' div 256)" 32 6] by (simp add: byte_low_masks)
  then have "unat (?b AND 0x1F) * 256 + unat ?c = nat v'"
    using c v' by (simp add: nat_div_distrib nat_mod_distrib)
  moreover have "lp_signed (nat v') (2 ^ 12) 8191 = v"
    using assms(1,2) by (auto simp: lp_signed_def v'_def)
  ultimately have "entry_val d = VInt v"
    using cls by (simp add: entry_val_def d_def lpGetWithSize_def mem_get_Suc)
  moreover have "?b \<noteq> 255" using b v' by auto
  ultimately show ?thesis using cls by (simp add: wf_entry_def d_def lpCurrentEncodedSizeUnsafe_def)
qed

lemma encode_7:
  assumes "0 \<le> v" "v \<le> 127"
  shows "wf_entry [word_of_int v] \<and> entry_val [word_of_int v] = VInt v"
proof -
  let ?b = "word_of_int v :: byte"
  have u: "uint ?b = v" by (rule uint_byte_of_int) (use assms in auto)
  then have cls: "LP_ENCODING_IS_7BIT_UINT ?b" using assms by (simp add: lp_class)
  have "unat ?b = nat v" using u by (simp add: unat_eq_nat_uint)
  then have "unat (?b AND 0x7F) = nat v" using assms by (simp add: byte_low_masks nat_less_iff)
  then have "entry_val [?b] = VInt v"
    using cls assms by (simp add: entry_val_def lpGetWithSize_def lp_signed_def)
  moreover have "?b \<noteq> 255" using u assms by auto
  ultimately show ?thesis using cls by (simp add: wf_entry_def lpCurrentEncodedSizeUnsafe_def)
qed

lemma encode_int:
  assumes "is_int64 v"
  shows "wf_entry (lpEncodeIntegerGetType v) \<and> entry_val (lpEncodeIntegerGetType v) = VInt v"
proof -
  let ?neg = "\<lambda>k :: nat. if v < 0 then 2 ^ k + v else v"
  have m: "?neg k mod 2 ^ k = v mod 2 ^ k" for k by simp
  consider "0 \<le> v" "v \<le> 127"
    | "\<not> (0 \<le> v \<and> v \<le> 127)" "-4096 \<le> v" "v \<le> 4095"
    | "\<not> (-4096 \<le> v \<and> v \<le> 4095)" "-32768 \<le> v" "v \<le> 32767"
    | "\<not> (-32768 \<le> v \<and> v \<le> 32767)" "-8388608 \<le> v" "v \<le> 8388607"
    | "\<not> (-8388608 \<le> v \<and> v \<le> 8388607)" "-2147483648 \<le> v" "v \<le> 2147483647"
    | "\<not> (-2147483648 \<le> v \<and> v \<le> 2147483647)" by linarith
  then show ?thesis
  proof cases
    case 1
    then show ?thesis using encode_7 by (simp add: lpEncodeIntegerGetType_def)
  next
    case 2
    then show ?thesis using encode_13 [of v] by (auto simp: lpEncodeIntegerGetType_def Let_def)
  next
    case 3
    then have "lpEncodeIntegerGetType v = 0xF1 # le_bytes 2 (?neg 16)" by (auto simp: lpEncodeIntegerGetType_def)
    then show ?thesis using 3 encode_I [of "0xF1" 2 v "?neg 16"] m [of 16] by simp
  next
    case 4
    then have "lpEncodeIntegerGetType v = 0xF2 # le_bytes 3 (?neg 24)" by (auto simp: lpEncodeIntegerGetType_def)
    then show ?thesis using 4 encode_I [of "0xF2" 3 v "?neg 24"] m [of 24] by simp
  next
    case 5
    then have "lpEncodeIntegerGetType v = 0xF3 # le_bytes 4 (?neg 32)" by (auto simp: lpEncodeIntegerGetType_def)
    then show ?thesis using 5 encode_I [of "0xF3" 4 v "?neg 32"] m [of 32] by simp
  next
    case 6
    then have "lpEncodeIntegerGetType v = 0xF4 # le_bytes 8 (v mod 2 ^ 64)" by (auto simp: lpEncodeIntegerGetType_def)
    then show ?thesis using assms encode_I [of "0xF4" 8 v "v mod 2 ^ 64"] by (simp add: is_int64_def)
  qed
qed

lemma encode_str:
  assumes "length s + 5 < 2 ^ 32"
  shows "wf_entry (lpEncodeString s) \<and> entry_val (lpEncodeString s) = VStr s"
proof -
  consider "length s < 64" | "64 \<le> length s" "length s < 4096" | "4096 \<le> length s" by linarith
  then show ?thesis
  proof cases
    case 1
    let ?b = "word_of_int (int (length s) OR 0x80) :: byte"
    have b: "uint ?b = int (length s) + 128" by (rule word_or_high [of _ 7]) (use 1 in auto)
    then have "unat ?b = length s + 128" by (simp add: unat_eq_nat_uint nat_add_distrib)
    then have "LP_ENCODING_6BIT_STR_LEN ?b = length s"
      using 1 mod_add_self_num [of "length s" 64 2] by (simp add: LP_ENCODING_6BIT_STR_LEN_def byte_low_masks)
    moreover have "\<not> LP_ENCODING_IS_7BIT_UINT ?b" "LP_ENCODING_IS_6BIT_STR ?b" "?b \<noteq> 255"
      using b 1 by (auto simp: lp_class)
    ultimately show ?thesis using 1
      by (simp add: lpEncodeString_def wf_entry_def entry_val_def lpCurrentEncodedSizeUnsafe_def lpGetWithSize_def Let_def)
  next
    case 2
    let ?l = "int (length s)"
    let ?b = "word_of_int ((?l div 256) OR 0xE0) :: byte" and ?c = "word_of_int ?l :: byte"
    have b: "uint ?b = ?l div 256 + 224" by (rule word_or_high [of _ 4]) (use 2 in auto)
    then have "unat ?b = length s div 256 + 224" by (simp add: unat_eq_nat_uint nat_add_distrib nat_div_distrib)
    moreover have "unat ?c = length s mod 256" by (simp add: unat_of_nat)
    moreover have "length s div 256 < 16" using 2 by auto
    ultimately have "LP_ENCODING_12BIT_STR_LEN ?b ?c = length s"
      using mod_add_self_num [of "length s div 256" 16 14]
      by (simp add: LP_ENCODING_12BIT_STR_LEN_def byte_low_masks)
    moreover have "\<not> LP_ENCODING_IS_7BIT_UINT ?b" "\<not> LP_ENCODING_IS_6BIT_STR ?b" "\<not> LP_ENCODING_IS_13BIT_INT ?b"
       "LP_ENCODING_IS_12BIT_STR ?b" "?b \<notin> {0xF1, 0xF2, 0xF3, 0xF4, 255}"
      using b 2 by (auto simp: lp_class)
    ultimately show ?thesis using 2
      by (simp add: lpEncodeString_def wf_entry_def entry_val_def lpCurrentEncodedSizeUnsafe_def lpGetWithSize_def Let_def
          mem_get_Suc)
  next
    case 3
    have "nat (le_val (le_bytes 4 (int (length s)))) = length s"
      using assms by (simp add: le_val_le_bytes nat_mod_distrib)
    moreover have "mem_read (0xF0 # le_bytes 4 (int (length s)) @ s) (Suc 0) 4 = Some (le_bytes 4 (int (length s)))"
      by (rule mem_read_tl) simp
    ultimately show ?thesis using 3 assms
      by (simp add: lpEncodeString_def wf_entry_def entry_val_def lpCurrentEncodedSizeUnsafe_def lpGetWithSize_def Let_def
          lp_class_num)
  qed
qed

lemma lpStringToInt64_loop_eq:
  "plen \<le> length s \<Longrightarrow> lpStringToInt64_loop s plen v =
     map_option (\<lambda>(v, rest). (length s - length rest, v)) (string2ll_loop v (drop plen s))"
proof (induction "length s - plen" arbitrary: plen v)
  case 0
  then show ?case by (subst lpStringToInt64_loop.simps) simp
next
  case (Suc k)
  then have d: "drop plen s = s ! plen # drop (Suc plen) s" "plen < length s"
    by (simp_all add: Cons_nth_drop_Suc)
  show ?case
    using Suc.hyps(1) [of "Suc plen"] Suc.hyps(2) Suc.prems d(2)
    unfolding d(1) by (subst lpStringToInt64_loop.simps) (auto simp: Let_def)
qed

lemma string2ll_loop_rest: "string2ll_loop v s = Some (v', rest) \<Longrightarrow> length rest \<le> length s"
  by (induction v s rule: string2ll_loop.induct) (auto simp: Let_def split: if_splits)

lemma lpStringToInt64_tail:
  assumes "drop k s = d # t" 
  shows "(case lpStringToInt64_loop s (Suc k) v of None \<Rightarrow> None | Some (plen, v) \<Rightarrow> if plen < length s then None else f v)
    = (case string2ll_loop v t of None \<Rightarrow> None | Some (v, rest) \<Rightarrow> if rest \<noteq> [] then None else f v)"
proof -
  have k: "Suc k \<le> length s" "drop (Suc k) s = t"
    using assms by (metis drop_eq_Nil linorder_not_le list.distinct(1) Suc_leI, metis drop_Suc tl_drop list.sel(3))
  have "length t = length s - Suc k" using arg_cong [OF assms, of length] by simp
  then show ?thesis
    using lpStringToInt64_loop_eq [OF k(1), of v] string2ll_loop_rest [of v t] k
    by (auto split: option.splits simp flip: length_greater_0_conv)
qed

lemma lpStringToInt64_eq: "lpStringToInt64 s = string2ll s"
proof (cases "length s = 0 \<or> length s \<ge> LONG_STR_SIZE \<or> length s = 1 \<and> hd s = 48")
  case True
  then show ?thesis by (auto simp: lpStringToInt64_def string2ll_def hd_conv_nth Let_def)
next
  case False
  then obtain c t where s: "s = c # t" by (cases s) auto
  show ?thesis
  proof (cases "c = 45")
    case True
    show ?thesis
    proof (cases t)
      case Nil
      then show ?thesis using True s by (simp add: lpStringToInt64_def string2ll_def)
    next
      case (Cons d u)
      then show ?thesis
        using False True lpStringToInt64_tail [of 1 s d u Some "uint d - 48"] unfolding s
        by (auto simp: lpStringToInt64_def string2ll_def Let_def split: option.splits if_splits)
    qed
  next
    case c: False
    then show ?thesis
      using False lpStringToInt64_tail [of 0 s c t Some "uint c - 48"] unfolding s
      by (auto simp: lpStringToInt64_def string2ll_def Let_def split: option.splits if_splits)
  qed
qed

section \<open>Positions\<close>

lemma lp_body_simps [simp]: "lp_body [] = []" "lp_body (d # ds) = lp_entry d @ lp_body ds"
  "lp_body (xs @ ys) = lp_body xs @ lp_body ys"
  by (simp_all add: lp_body_def)

lemma length_lp_hdr [simp]: "length (lp_hdr m n) = 6"
  by (simp add: lp_hdr_def)

lemma length_lp_entry: "length (lp_entry d) = length d + length (lpEncodeBacklen (length d))"
  by (simp add: lp_entry_def)

lemma lp_off_0 [simp]: "lp_off ds 0 = 6"
  by (simp add: lp_off_def)

lemma lp_off_Suc: "i < length ds \<Longrightarrow> lp_off ds (Suc i) = lp_off ds i + length (lp_entry (ds ! i))"
  by (simp add: lp_off_def take_Suc_conv_app_nth)

lemma lp_off_end: "lp_off ds (length ds) = lp_size ds - 1"
  by (simp add: lp_off_def lp_size_def)

lemma lp_off_mono: "i \<le> j \<Longrightarrow> j \<le> length ds \<Longrightarrow> lp_off ds i \<le> lp_off ds j"
proof (induction rule: inc_induct)
  case (step n)
  then show ?case using lp_off_Suc [of n ds] by simp
qed simp

lemma lp_off_less: "i < length ds \<Longrightarrow> lp_off ds (Suc i) < lp_size ds"
  using lp_off_mono [of "Suc i" "length ds" ds] lp_off_end [of ds] by (simp add: lp_size_def)

lemma lp_rep_header:
  assumes "lp_rep lp ds"
  shows "lpGetTotalBytes lp = lp_size ds" "lp_size ds \<le> length lp" "lp_size ds < 2 ^ 32"
    "lp_num_ok (lpGetNumElements lp) (length ds)" "\<And>d. d \<in> set ds \<Longrightarrow> wf_entry d"
proof -
  obtain n rest where lp: "lp = lp_hdr (lp_size ds) n @ lp_body ds @ LP_EOF # rest" "lp_num_ok n (length ds)"
    using assms by (auto simp: lp_rep_def)
  show s: "lp_size ds < 2 ^ 32" and "\<And>d. d \<in> set ds \<Longrightarrow> wf_entry d" using assms by (auto simp: lp_rep_def list_all_iff)
  show "lpGetTotalBytes lp = lp_size ds"
    using s lp(1) by (simp add: lpGetTotalBytes_def lp_hdr_def le_val_le_bytes nat_mod_distrib)
  show "lp_size ds \<le> length lp" using lp(1) by (simp add: lp_size_def)
  have "n < 65536" using lp(2) by (auto simp: lp_num_ok_def)
  then show "lp_num_ok (lpGetNumElements lp) (length ds)"
    using lp by (simp add: lpGetNumElements_def lp_hdr_def le_val_le_bytes nat_mod_distrib)
qed

text \<open>An allocation, cut at the start of entry \<open>i\<close>.\<close>

lemma lp_rep_split:
  assumes "lp_rep lp ds" "i \<le> length ds"
  obtains pre rest where "lp = pre @ lp_body (drop i ds) @ LP_EOF # rest" "length pre = lp_off ds i"
proof -
  obtain n rest where lp: "lp = lp_hdr (lp_size ds) n @ lp_body ds @ LP_EOF # rest"
    using assms by (auto simp: lp_rep_def)
  have "lp_body ds = lp_body (take i ds) @ lp_body (drop i ds)" by (simp flip: lp_body_simps(3))
  then show thesis
    using lp by (intro that [of "lp_hdr (lp_size ds) n @ lp_body (take i ds)" rest]) (simp_all add: lp_off_def)
qed

lemma lp_rep_entry:
  assumes "lp_rep lp ds" "i < length ds"
  obtains pre post where "lp = pre @ ds ! i @ lpEncodeBacklen (length (ds ! i)) @ post" "length pre = lp_off ds i"
proof -
  obtain pre rest where "lp = pre @ lp_body (drop i ds) @ LP_EOF # rest" "length pre = lp_off ds i"
    using lp_rep_split [OF assms(1), of i] assms(2) by auto
  then show thesis
    using that [of pre "lp_body (drop (Suc i) ds) @ LP_EOF # rest"] assms(2)
    by (simp add: Cons_nth_drop_Suc [symmetric] lp_entry_def)
qed

lemma lp_get_off:
  assumes "lp_rep lp ds"
  shows "i < length ds \<Longrightarrow> mem_get lp (lp_off ds i) = Some (hd (ds ! i)) \<and> hd (ds ! i) \<noteq> LP_EOF"
    and "mem_get lp (lp_off ds (length ds)) = Some LP_EOF"
proof -
  assume i: "i < length ds"
  then have wf: "wf_entry (ds ! i)" using lp_rep_header(5) [OF assms] by simp
  obtain pre post where lp: "lp = pre @ ds ! i @ lpEncodeBacklen (length (ds ! i)) @ post" "length pre = lp_off ds i"
    using lp_rep_entry [OF assms i] .
  have "mem_get (ds ! i) 0 = Some (hd (ds ! i))" using wf by (simp add: mem_get_def wf_entry_def hd_conv_nth)
  then show "mem_get lp (lp_off ds i) = Some (hd (ds ! i)) \<and> hd (ds ! i) \<noteq> LP_EOF"
    using mem_get_block [of "ds ! i" 0 _ pre] lp wf by (simp add: wf_entry_def)
next
  obtain pre rest where "lp = pre @ LP_EOF # rest" "length pre = lp_off ds (length ds)"
    using lp_rep_split [OF assms, of "length ds"] by auto
  then show "mem_get lp (lp_off ds (length ds)) = Some LP_EOF"
    by (metis mem_get_def length_append length_Cons less_add_Suc1 nth_append_length add_Suc_right)
qed

section \<open>Walking\<close>

lemma encodedSize_off:
  assumes "lp_rep lp ds" "i < length ds"
  shows "lpCurrentEncodedSizeUnsafe lp (lp_off ds i) = Some (length (ds ! i))"
proof -
  obtain pre post where "lp = pre @ ds ! i @ lpEncodeBacklen (length (ds ! i)) @ post" "length pre = lp_off ds i"
    using lp_rep_entry [OF assms] .
  then show ?thesis
    using encodedSize_block [of "ds ! i" "length (ds ! i)" pre] lp_rep_header(5) [OF assms(1), of "ds ! i"] assms(2)
    by (simp add: wf_entry_def)
qed

lemma lpSkip_off:
  assumes "lp_rep lp ds" "i < length ds"
  shows "lpSkip lp (lp_off ds i) = Some (lp_off ds (Suc i))"
  using encodedSize_off [OF assms] lp_off_Suc [OF assms(2)] by (simp add: lpSkip_def length_lp_entry)

lemma encodedSizeBytes_wf:
  assumes "wf_entry d"
  shows "\<exists>k. lpCurrentEncodedSizeBytes d 0 = Some k \<and> 0 < k \<and> k \<le> length d"
proof -
  obtain b d' where d: "d = b # d'" using assms by (cases d) (auto simp: wf_entry_def)
  have size: "lpCurrentEncodedSizeUnsafe (b # d') 0 = Some (length d)" "b \<noteq> LP_EOF"
    using assms d by (auto simp: wf_entry_def)
  show ?thesis
  proof (cases b rule: lp_cases)
    case (I n)
    then show ?thesis by (elim disjE) (simp_all add: d lpCurrentEncodedSizeBytes_def lp_class_num)
  next
    case S12
    then have "2 \<le> length d" using size(1) by (auto simp: lpCurrentEncodedSizeUnsafe_def bind_eq_Some_conv)
    then show ?thesis using S12 by (simp add: d lpCurrentEncodedSizeBytes_def)
  next
    case S32
    then have "5 \<le> length d" using size(1)
      by (auto simp: lpCurrentEncodedSizeUnsafe_def bind_eq_Some_conv lp_class_num mem_read_def d split: if_splits)
    then show ?thesis using S32 by (simp add: d lpCurrentEncodedSizeBytes_def lp_class_num)
  next
    case BAD
    then show ?thesis using size d by (simp add: lpCurrentEncodedSizeUnsafe_def)
  qed (simp_all add: d lpCurrentEncodedSizeBytes_def)
qed

lemma sizeBytes_block:
  "lpCurrentEncodedSizeBytes d 0 = Some k \<Longrightarrow> lpCurrentEncodedSizeBytes (pre @ d @ post) (length pre) = Some k"
  using mem_get_block [of d 0 _ pre post] by (auto simp: lpCurrentEncodedSizeBytes_def bind_eq_Some_conv)

lemma lpDecodeBacklen_off:
  assumes "lp_rep lp ds" "i < length ds"
  shows "lpDecodeBacklen lp (lp_off ds (Suc i) - 1) = Some (length (ds ! i))"
proof -
  obtain pre post where "lp = pre @ ds ! i @ lpEncodeBacklen (length (ds ! i)) @ post" "length pre = lp_off ds i"
    using lp_rep_entry [OF assms] .
  moreover have "length (ds ! i) < 2 ^ 32" using lp_rep_header(5) [OF assms(1), of "ds ! i"] assms(2) by (simp add: wf_entry_def)
  ultimately show ?thesis
    using decode_backlen [of "length (ds ! i)" "pre @ ds ! i" post] lp_off_Suc [OF assms(2)]
    by (simp add: length_lp_entry add.assoc)
qed

lemma lpValidateNext_off:
  assumes "lp_rep lp ds" "i < length ds"
  shows "lpValidateNext lp (Some (lp_off ds i)) (lp_size ds) = Some (True, Some (lp_off ds (Suc i)))"
proof -
  let ?d = "ds ! i"
  have wf: "wf_entry ?d" using lp_rep_header(5) [OF assms(1)] assms(2) by simp
  obtain pre post where lp: "lp = pre @ ?d @ lpEncodeBacklen (length ?d) @ post" "length pre = lp_off ds i"
    using lp_rep_entry [OF assms] .
  obtain k where k: "lpCurrentEncodedSizeBytes lp (lp_off ds i) = Some k" "0 < k" "k \<le> length ?d"
    using encodedSizeBytes_wf [OF wf] sizeBytes_block [of ?d _ pre] lp by auto
  have off: "6 \<le> lp_off ds i" by (simp add: lp_off_def)
  have suc: "lp_off ds (Suc i) = lp_off ds i + (length ?d + length (lpEncodeBacklen (length ?d)))"
    using lp_off_Suc [OF assms(2)] by (simp add: length_lp_entry)
  have lt: "lp_off ds (Suc i) < lp_size ds" by (rule lp_off_less [OF assms(2)])
  have "lp_size ds < 2 ^ 32" by (rule lp_rep_header(3) [OF assms(1)])
  then have small: "length ?d + length (lpEncodeBacklen (length ?d)) < 2 ^ 64" using suc lt by simp
  show ?thesis
    using lp_get_off(1) [OF assms(1,2)] k encodedSize_off [OF assms] lpDecodeBacklen_off [OF assms] off suc lt small
    by (simp add: lpValidateNext_def lp_out_of_range_def Let_def)
qed

lemma lpValidateNext_end:
  assumes "lp_rep lp ds"
  shows "lpValidateNext lp (Some (lp_off ds (length ds))) (lp_size ds) = Some (True, None)"
  using lp_get_off(2) [OF assms] by (simp add: lpValidateNext_def lp_out_of_range_def lp_off_def lp_size_def)

lemma lpAssertValidEntry_off:
  assumes "lp_rep lp ds" "i \<le> length ds"
  shows "lpAssertValidEntry lp (lp_size ds) (lp_off ds i) = Some ()"
  using lpValidateNext_off [OF assms(1), of i] lpValidateNext_end [OF assms(1)] assms(2)
  by (cases "i = length ds") (simp_all add: lpAssertValidEntry_def)

text \<open>The pointer to entry \<open>i\<close>, \<open>NULL\<close> past the last one.\<close>

definition lp_ptr :: "bytes list \<Rightarrow> nat \<Rightarrow> nat option" where
  "lp_ptr ds i = (if i < length ds then Some (lp_off ds i) else None)"

lemma lpNext_off:
  assumes "lp_rep lp ds" "i < length ds"
  shows "lpNext lp (lp_off ds i) = Some (lp_ptr ds (Suc i))"
proof (cases "Suc i < length ds")
  case True
  then show ?thesis
    using lpSkip_off [OF assms] lp_get_off(1) [OF assms(1) True] lpAssertValidEntry_off [OF assms(1), of "Suc i"] lp_rep_header(1) [OF assms(1)]
    by (simp add: lpNext_def lp_ptr_def lpBytes_def)
next
  case False
  then have "Suc i = length ds" using assms(2) by simp
  then show ?thesis
    using lpSkip_off [OF assms] lp_get_off(2) [OF assms(1)] by (simp add: lpNext_def lp_ptr_def)
qed

lemma lpFirst_rep:
  assumes "lp_rep lp ds"
  shows "lpFirst lp = Some (lp_ptr ds 0)"
proof (cases "ds = []")
  case True
  then show ?thesis using lp_get_off(2) [OF assms] by (simp add: lpFirst_def lp_ptr_def)
next
  case False
  then show ?thesis
    using lp_get_off(1) [OF assms, of 0] lpAssertValidEntry_off [OF assms, of 0] lp_rep_header(1) [OF assms]
    by (simp add: lpFirst_def lp_ptr_def lpBytes_def)
qed

lemma lpPrev_off:
  assumes "lp_rep lp ds" "i \<le> length ds"
  shows "lpPrev lp (lp_off ds i) = Some (if i = 0 then None else Some (lp_off ds (i - 1)))"
proof (cases i)
  case 0
  then show ?thesis by (simp add: lpPrev_def)
next
  case (Suc j)
  then have j: "j < length ds" using assms(2) by simp
  have suc: "lp_off ds (Suc j) = lp_off ds j + (length (ds ! j) + length (lpEncodeBacklen (length (ds ! j))))"
    using lp_off_Suc [OF j] by (simp add: length_lp_entry)
  have "lp_off ds (Suc j) < 2 ^ 64" using lp_off_less [OF j] lp_rep_header(3) [OF assms(1)] by simp
  then have small: "length (ds ! j) + length (lpEncodeBacklen (length (ds ! j))) < 2 ^ 64" using suc by simp
  have off: "6 \<le> lp_off ds j" by (simp add: lp_off_def)
  have bl: "1 \<le> length (lpEncodeBacklen (length (ds ! j)))" by (rule length_backlen)
  show ?thesis
    using lpDecodeBacklen_off [OF assms(1) j] lpAssertValidEntry_off [OF assms(1), of j] j suc small off bl
      lp_rep_header(1) [OF assms(1)] Suc
    by (simp add: lpPrev_def Let_def lpBytes_def)
qed

lemma lpLast_rep:
  assumes "lp_rep lp ds"
  shows "lpLast lp = Some (if ds = [] then None else Some (lp_off ds (length ds - 1)))"
  using lpPrev_off [OF assms order_refl] lp_rep_header(1) [OF assms] lp_off_end [of ds]
  by (simp add: lpLast_def)

lemma lpSeek_fwd_rep:
  assumes "lp_rep lp ds"
  shows "lpSeek_fwd lp n (lp_ptr ds i) = Some (lp_ptr ds (i + n))"
proof (induction n arbitrary: i)
  case 0
  then show ?case by simp
next
  case (Suc n)
  show ?case
  proof (cases "i < length ds")
    case True
    then show ?thesis using lpNext_off [OF assms True] Suc.IH [of "Suc i"] by (simp add: lp_ptr_def [of ds i])
  next
    case False
    then show ?thesis by (simp add: lp_ptr_def)
  qed
qed

lemma lpSeek_bwd_rep:
  assumes "lp_rep lp ds"
  shows "j < length ds \<Longrightarrow> lpSeek_bwd lp n (Some (lp_off ds j)) = Some (if n \<le> j then Some (lp_off ds (j - n)) else None)"
proof (induction n arbitrary: j)
  case 0
  then show ?case by simp
next
  case (Suc n)
  show ?case
  proof (cases j)
    case 0
    then have "lpSeek_bwd lp n None = Some None" by (cases n) simp_all
    then show ?thesis using 0 lpPrev_off [OF assms, of 0] by simp
  next
    case (Suc k)
    then show ?thesis using lpPrev_off [OF assms, of j] Suc.IH [of k] Suc.prems by simp
  qed
qed

definition seek_index :: "nat \<Rightarrow> int \<Rightarrow> nat option" where
  "seek_index n index =
     (let j = (if index < 0 then int n + index else index)
      in if 0 \<le> j \<and> j < int n then Some (nat j) else None)"

lemma lpSeek_rep:
  assumes "lp_rep lp ds"
  shows "lpSeek lp index = Some (map_option (lp_off ds) (seek_index (length ds) index))"
proof -
  let ?n = "length ds"
  have fwd: "(do { ele \<leftarrow> lpFirst lp; lpSeek_fwd lp (nat k) ele }) = Some (lp_ptr ds (nat k))" for k
    using lpFirst_rep [OF assms] lpSeek_fwd_rep [OF assms, of _ 0] by simp
  have bwd: "(do { ele \<leftarrow> lpLast lp; lpSeek_bwd lp (nat (- 1 - k)) ele })
      = Some (if 0 \<le> int ?n + k then Some (lp_off ds (nat (int ?n + k))) else None)" if "k < 0" for k
  proof (cases "ds = []")
    case True
    then have "lpSeek_bwd lp (nat (- 1 - k)) None = Some None" by (cases "nat (- 1 - k)") simp_all
    then show ?thesis using True that lpLast_rep [OF assms] by simp
  next
    case False
    have "nat (- 1 - k) \<le> ?n - 1 \<longleftrightarrow> 0 \<le> int ?n + k" using False that by (cases ds) auto
    moreover have "?n - 1 - nat (- 1 - k) = nat (int ?n + k)" using that by simp
    ultimately show ?thesis
      using lpLast_rep [OF assms] lpSeek_bwd_rep [OF assms, of "?n - 1" "nat (- 1 - k)"] False by simp
  qed
  have num: "lpGetNumElements lp = 65535 \<or> lpGetNumElements lp = ?n \<and> ?n \<noteq> 65535"
    using lp_rep_header(4) [OF assms] by (auto simp: lp_num_ok_def)
  then show ?thesis
  proof
    assume u: "lpGetNumElements lp = 65535"
    show ?thesis
    proof (cases "index < 0")
      case True
      then show ?thesis using u bwd [of index] by (simp add: lpSeek_def seek_index_def Let_def)
    next
      case False
      then show ?thesis using u fwd [of index] by (auto simp: lpSeek_def seek_index_def Let_def lp_ptr_def)
    qed
  next
    assume n: "lpGetNumElements lp = ?n \<and> ?n \<noteq> 65535"
    let ?j = "if index < 0 then int ?n + index else index"
    consider (out) "?j < 0 \<or> ?j \<ge> int ?n" | (far) "?j > int ?n div 2" "0 \<le> ?j" "?j < int ?n" | (near) "\<not> ?j > int ?n div 2" "0 \<le> ?j" "?j < int ?n"
      by linarith
    then show ?thesis
    proof cases
      case out
      then show ?thesis using n by (auto simp: lpSeek_def seek_index_def Let_def)
    next
      case far
      then have "lpSeek lp index = (do { ele \<leftarrow> lpLast lp; lpSeek_bwd lp (nat (- 1 - (?j - int ?n))) ele })"
        using n by (simp add: lpSeek_def Let_def)
      then show ?thesis using bwd [of "?j - int ?n"] far by (simp add: seek_index_def Let_def)
    next
      case near
      then have "lpSeek lp index = (do { ele \<leftarrow> lpFirst lp; lpSeek_fwd lp (nat ?j) ele })"
        using n by (simp add: lpSeek_def Let_def)
      then show ?thesis using fwd [of ?j] near by (simp add: seek_index_def Let_def lp_ptr_def nat_less_iff)
    qed
  qed
qed

section \<open>Counting\<close>

lemma lp_length_le_size: "2 * length ds \<le> length (lp_body ds)" if "list_all wf_entry ds"
  using that
proof (induction ds)
  case (Cons d ds)
  then have "1 \<le> length d" by (cases d) (auto simp: wf_entry_def)
  then show ?case using Cons length_backlen(1) [of "length d"] by (simp add: length_lp_entry)
qed simp

lemma lp_rep_length: "lp_rep lp ds \<Longrightarrow> length ds < 2 ^ 31"
  using lp_length_le_size [of ds] by (auto simp: lp_rep_def lp_size_def)

lemma lpLength_loop_rep:
  assumes "lp_rep lp ds"
  shows "i \<le> length ds \<Longrightarrow> c_loop (lpLength_step lp) (lp_ptr ds i, i) = Some (length ds)"
proof (induction "length ds - i" arbitrary: i)
  case 0
  then show ?case by (simp add: c_loop_step lpLength_step_def lp_ptr_def)
next
  case (Suc k)
  then have i: "i < length ds" by simp
  then have "lpLength_step lp (lp_ptr ds i, i) = Some (Inr (lp_ptr ds (Suc i), Suc i))"
    using lpNext_off [OF assms i] lp_rep_length [OF assms] by (simp add: lpLength_step_def lp_ptr_def [of ds i])
  then show ?case using Suc.hyps(1) [of "Suc i"] Suc.hyps(2) i by (simp add: c_loop_step)
qed

lemma lpSetNumElements_rep:
  assumes "lp_rep lp ds" "lp_num_ok n (length ds)"
  shows "lp_rep (lpSetNumElements lp n) ds"
proof -
  obtain m rest where lp: "lp = lp_hdr (lp_size ds) m @ lp_body ds @ LP_EOF # rest"
    using assms(1) by (auto simp: lp_rep_def)
  have "lpSetNumElements lp n = lp_hdr (lp_size ds) n @ lp_body ds @ LP_EOF # rest"
    unfolding lp by (simp add: lpSetNumElements_def lp_hdr_def)
  then show ?thesis using assms by (auto simp: lp_rep_def)
qed

lemma lpLength_rep:
  assumes "lp_rep lp ds"
  shows "\<exists>lp'. lpLength lp = Some (lp', length ds) \<and> lp_rep lp' ds \<and> length lp' = length lp"
proof (cases "lpGetNumElements lp = 65535")
  case False
  then show ?thesis using assms lp_rep_header(4) [OF assms] by (auto simp: lpLength_def lp_num_ok_def)
next
  case True
  have len: "6 \<le> length lp" using lp_rep_header(2) [OF assms] by (simp add: lp_size_def)
  have "lpLength lp = Some (if length ds < 65535 then lpSetNumElements lp (length ds) else lp, length ds)"
    using True lpFirst_rep [OF assms] lpLength_loop_rep [OF assms, of 0] by (simp add: lpLength_def)
  then show ?thesis
    using assms lpSetNumElements_rep [OF assms, of "length ds"] len
    by (auto simp: lp_num_ok_def lpSetNumElements_def)
qed

section \<open>Reading and searching\<close>

lemma getWithSize_off:
  assumes "lp_rep lp ds" "i < length ds"
  shows "\<exists>v. lpGetWithSize lp (lp_off ds i) = Some (v, Some (length (lp_entry (ds ! i))))
    \<and> (case v of LP_Str q n \<Rightarrow> q + n \<le> lp_off ds (Suc i) \<and> (\<exists>s. mem_read lp q n = Some s \<and> length s = n \<and> entry_val (ds ! i) = VStr s)
       | LP_Int x \<Rightarrow> entry_val (ds ! i) = VInt x)"
proof -
  let ?d = "ds ! i"
  obtain pre post where lp: "lp = pre @ ?d @ lpEncodeBacklen (length ?d) @ post" "length pre = lp_off ds i"
    using lp_rep_entry [OF assms] .
  obtain v where v: "lpGetWithSize ?d 0 = Some (v, Some (length (lp_entry ?d)))"
    "case v of LP_Str q n \<Rightarrow> q + n = length ?d | LP_Int _ \<Rightarrow> True"
    using wf_entry_get [OF lp_rep_header(5) [OF assms(1), of ?d]] assms(2) by auto
  note get = getWithSize_block [OF v(1), of pre "lpEncodeBacklen (length ?d) @ post", folded lp(1)]
  show ?thesis
  proof (cases v)
    case (LP_Int x)
    then show ?thesis using get v(1) lp(2) by (simp add: entry_val_def)
  next
    case (LP_Str q n)
    then have "q + n = length ?d" using v(2) by simp
    then have "mem_read ?d q n = Some (take n (drop q ?d))" by (simp add: mem_read_def)
    then have "mem_read lp (length pre + q) n = Some (take n (drop q ?d))"
      unfolding lp(1) by (rule mem_read_block)
    then show ?thesis
      using get v(1) LP_Str lp(2) \<open>q + n = length ?d\<close> lp_off_Suc [OF assms(2)]
      by (simp add: entry_val_def length_lp_entry)
  qed
qed

lemma lp_signed_int64:
  assumes "u < 2 ^ (8 * n)" "n \<in> {2, 3, 4, 8 :: nat}"
  shows "is_int64 (lp_signed u (2 ^ (8 * n - 1)) (2 ^ (8 * n) - 1))"
  using assms by (auto simp: lp_signed_def is_int64_def)

lemma entry_val_int64:
  assumes "wf_entry d" "entry_val d = VInt v"
  shows "is_int64 v"
proof -
  obtain b d' where d: "d = b # d'" using assms by (cases d) (auto simp: wf_entry_def)
  have size: "lpCurrentEncodedSizeUnsafe (b # d') 0 = Some (length d)" "b \<noteq> LP_EOF"
    using assms d by (auto simp: wf_entry_def)
  show ?thesis
  proof (cases b rule: lp_cases)
    case I7
    have "is_int64 (uint (b AND 0x7F))"
      using uint_byte_bounds [of "b AND 0x7F"] unfolding is_int64_def by linarith
    moreover have "unat (b AND 0x7F) < 2 ^ 64 - 1" by (simp add: byte_low_masks)
    ultimately show ?thesis using I7 assms(2) by (simp add: d entry_val_def lpGetWithSize_def lp_signed_def)
  next
    case I13
    then have l: "length d = 2" using size(1) by (simp add: lpCurrentEncodedSizeUnsafe_def)
    then obtain c where c: "d' = [c]" using d by (cases d') auto
    have "unat (b AND 0x1F) < 32" "unat c < 256" using unsigned_less [of c] by (simp_all add: byte_low_masks)
    then have u: "unat (b AND 0x1F) * 256 + unat c < 8192" by linarith
    have "is_int64 (lp_signed u (2 ^ 12) 8191)" if "u < 8192" for u
      using that by (auto simp: lp_signed_def is_int64_def)
    note this [OF u]
    then show ?thesis using I13 assms(2) c by (simp add: d entry_val_def lpGetWithSize_def mem_get_Suc)
  next
    case (I n)
    have l: "length d' = n" using encodedSize_I [OF I(2), of d'] size(1) d by simp
    have "le_val d' < 2 ^ (8 * n)" using le_val_bounds [of d'] l by (simp add: power_mult)
    then have "nat (le_val d') < 2 ^ (8 * n)" by (simp add: nat_less_iff)
    note lp_signed_int64 [OF this I(1)]
    then show ?thesis
      using getWithSize_I [OF I(2) l] assms(2) by (simp add: d entry_val_def)
  next
    case BAD
    then show ?thesis using size d by (simp add: lpCurrentEncodedSizeUnsafe_def)
  next
    case S32
    then obtain bs where bs: "mem_read d 1 4 = Some bs"
      using size(1) by (auto simp: lpCurrentEncodedSizeUnsafe_def d bind_eq_Some_conv lp_class_num)
    then show ?thesis using S32 assms(2) by (simp add: d entry_val_def lpGetWithSize_def lp_class_num Let_def)
  next
    case S12
    then obtain c where c: "mem_get d 1 = Some c" 
      using size(1) by (auto simp: lpCurrentEncodedSizeUnsafe_def d bind_eq_Some_conv)
    then show ?thesis using S12 assms(2) by (simp add: d entry_val_def lpGetWithSize_def Let_def)
  qed (use assms(2) in \<open>simp add: d entry_val_def lpGetWithSize_def Let_def\<close>)
qed

definition entry_matches :: "bytes \<Rightarrow> bytes \<Rightarrow> bool" where
  "entry_matches s d \<longleftrightarrow> val_bytes (entry_val d) = s"

lemma string2ll_repr: "is_int64 v \<Longrightarrow> string2ll s = Some v \<longleftrightarrow> s = ll_repr v"
  using string2ll_sound string2ll_complete by blast

lemma entry_matches_int:
  "wf_entry d \<Longrightarrow> entry_val d = VInt v \<Longrightarrow> entry_matches s d \<longleftrightarrow> string2ll s = Some v"
  using entry_val_int64 [of d v] by (auto simp: entry_matches_def val_bytes_def string2ll_repr)

lemma string2ll_len: "length s \<ge> 32 \<or> length s = 0 \<Longrightarrow> string2ll s = None"
  by (auto simp: string2ll_def)

lemma lpFind_advance_off:
  assumes "lp_rep lp ds" "k \<le> length ds"
  shows "lpFind_advance lp (lp_size ds) (lp_off ds k) st = Some (if k = length ds then Inl None else Inr (lp_off ds k, st))"
proof -
  have "6 \<le> lp_off ds k" by (simp add: lp_off_def)
  moreover have "lp_off ds k < lp_size ds"
    using lp_off_mono [of k "length ds" ds] assms(2) lp_off_end [of ds] by (simp add: lp_size_def)
  ultimately show ?thesis
    using lpAssertValidEntry_off [OF assms] lp_get_off(1) [OF assms(1), of k] lp_get_off(2) [OF assms(1)] assms(2)
    by (cases "k = length ds") (auto simp: lpFind_advance_def)
qed

lemma lpFind_step_skip:
  assumes "lp_rep lp ds" "k < length ds" "0 < c"
  shows "lpFind_step lp s skip (lp_size ds) (lp_off ds k, c, venc, es)
    = lpFind_advance lp (lp_size ds) (lp_off ds (Suc k)) (c - 1, venc, es)"
  using lpSkip_off [OF assms(1,2)] assms(3) by (simp add: lpFind_step_def)

lemma lpFind_step_cmp:
  assumes "lp_rep lp ds" "k < length ds" "venc \<in> {None, Some (string2ll s)}"
  shows "\<exists>venc' es'. venc' \<in> {None, Some (string2ll s)} \<and>
    lpFind_step lp s skip (lp_size ds) (lp_off ds k, 0, venc, es)
    = (if entry_matches s (ds ! k) then Some (Inl (Some (lp_off ds k)))
       else lpFind_advance lp (lp_size ds) (lp_off ds (Suc k)) (skip, venc', es'))"
proof -
  let ?d = "ds ! k"
  have wf: "wf_entry ?d" using lp_rep_header(5) [OF assms(1)] assms(2) by simp
  have off: "lp_off ds (Suc k) = lp_off ds k + length (lp_entry ?d)" "6 \<le> lp_off ds k"
    using lp_off_Suc [OF assms(2)] by (simp_all add: lp_off_def)
  obtain v where v: "lpGetWithSize lp (lp_off ds k) = Some (v, Some (length (lp_entry ?d)))"
    "case v of LP_Str q n \<Rightarrow> q + n \<le> lp_off ds (Suc k) \<and> (\<exists>s. mem_read lp q n = Some s \<and> length s = n \<and> entry_val ?d = VStr s)
       | LP_Int x \<Rightarrow> entry_val ?d = VInt x"
    using getWithSize_off [OF assms(1,2)] by blast
  show ?thesis
  proof (cases v)
    case (LP_Str q n)
    then obtain t where "mem_read lp q n = Some t" "length t = n" "entry_val ?d = VStr t" using v(2) by auto
    then show ?thesis
      using v(1) LP_Str off lp_off_less [OF assms(2)] assms(3)
      by (intro exI [of _ venc] exI [of _ "length (lp_entry ?d)"])
        (auto simp: lpFind_step_def entry_matches_def val_bytes_def Let_def)
  next
    case (LP_Int x)
    then have "entry_matches s ?d \<longleftrightarrow> string2ll s = Some x" using v(2) entry_matches_int [OF wf] by simp
    then show ?thesis
      using v(1) LP_Int off assms(3) string2ll_len [of s]
      by (intro exI [of _ "Some (string2ll s)"] exI [of _ "length (lp_entry ?d)"])
        (auto simp: lpFind_step_def Let_def lpStringToInt64_eq)
  qed
qed

text \<open>What \<open>lpFind\<close> computes: the first match among every \<open>skip + 1\<close>-th entry.\<close>

fun find_from :: "('a \<Rightarrow> bool) \<Rightarrow> nat \<Rightarrow> nat \<Rightarrow> nat \<Rightarrow> 'a list \<Rightarrow> nat option" where
  "find_from P skip c k [] = None"
| "find_from P skip c k (x # xs) =
     (if c = 0 then if P x then Some k else find_from P skip skip (Suc k) xs
      else find_from P skip (c - 1) (Suc k) xs)"

lemma lpFind_loop_rep:
  assumes "lp_rep lp ds"
  shows "k < length ds \<Longrightarrow> venc \<in> {None, Some (string2ll s)} \<Longrightarrow>
    c_loop (lpFind_step lp s skip (lp_size ds)) (lp_off ds k, c, venc, es)
      = Some (map_option (lp_off ds) (find_from (entry_matches s) skip c k (drop k ds)))"
proof (induction "length ds - k" arbitrary: k c venc es)
  case 0
  then show ?case by simp
next
  case (Suc m)
  have d: "drop k ds = ds ! k # drop (Suc k) ds" using Suc.prems(1) by (simp add: Cons_nth_drop_Suc)
  have adv: "(case lpFind_advance lp (lp_size ds) (lp_off ds (Suc k)) (c', venc', es') of
        None \<Rightarrow> None | Some x \<Rightarrow> (case x of Inl r \<Rightarrow> Some r | Inr s' \<Rightarrow> c_loop (lpFind_step lp s skip (lp_size ds)) s'))
      = Some (map_option (lp_off ds) (find_from (entry_matches s) skip c' (Suc k) (drop (Suc k) ds)))"
    if "venc' \<in> {None, Some (string2ll s)}" for c' venc' es'
    using lpFind_advance_off [OF assms, of "Suc k" "(c', venc', es')"] Suc.prems(1) Suc.hyps(2)
      Suc.hyps(1) [of "Suc k" venc' c' es'] that
    by (cases "Suc k = length ds") simp_all
  show ?case
  proof (cases "c = 0")
    case False
    then show ?thesis
      using lpFind_step_skip [OF assms Suc.prems(1), of c s skip venc es] adv [OF Suc.prems(2), of "c - 1" es] d
      by (subst c_loop.simps) simp
  next
    case True
    obtain venc' es' where "venc' \<in> {None, Some (string2ll s)}"
      "lpFind_step lp s skip (lp_size ds) (lp_off ds k, 0, venc, es)
        = (if entry_matches s (ds ! k) then Some (Inl (Some (lp_off ds k)))
           else lpFind_advance lp (lp_size ds) (lp_off ds (Suc k)) (skip, venc', es'))"
      using lpFind_step_cmp [OF assms Suc.prems] by blast
    then show ?thesis using adv [of venc' skip es'] True d by (subst c_loop.simps) simp
  qed
qed

lemma lpFind_rep:
  assumes "lp_rep lp ds" "k < length ds"
  shows "lpFind lp (lp_off ds k) s skip
    = Some (map_option (lp_off ds) (find_from (entry_matches s) skip 0 k (drop k ds)))"
  using lpFind_loop_rep [OF assms] lp_rep_header(1) [OF assms(1)] by (simp add: lpFind_def lpBytes_def)

section \<open>Moving the tail\<close>

lemma lp_realloc_prefix:
  assumes "alloc_ok al" "length xs \<le> n"
  shows "\<exists>rest'. lp_realloc al (xs @ rest) n = xs @ rest' \<and> length (lp_realloc al (xs @ rest) n) \<ge> n"
proof -
  have u: "n \<le> usable al n" using assms(1) by (simp add: alloc_ok_def)
  then have "take (usable al n) (xs @ rest) = xs @ take (usable al n - length xs) rest"
    using assms(2) by simp
  then show ?thesis using u by (auto simp: lp_realloc_def mem_resize_def)
qed

lemma lpInsert_relocate_blocks:
  assumes al: "alloc_ok al" and lp: "lp = pre @ old @ tail @ rest"
    and w: "whr = LP_BEFORE \<and> old = [] \<or> whr = LP_REPLACE"
    and n: "tot = length pre + length old + length tail" "new = length pre + k + length tail"
  shows "\<exists>gap rest'. length gap = k \<and>
    lpInsert_relocate al lp whr (length pre) k (length old) tot new = Some (pre @ gap @ tail @ rest')"
proof -
  obtain lp1 rest1 where lp1: "lp1 = (if new > tot \<and> new > length lp then lp_realloc al lp new else lp)"
    "lp1 = pre @ old @ tail @ rest1" "new \<le> length lp1"
  proof (cases "new > tot \<and> new > length lp")
    case True
    then show ?thesis
      using lp_realloc_prefix [OF al, of "pre @ old @ tail" new rest] n(1) lp that by auto
  next
    case False
    then show ?thesis using that [of lp rest] lp n by auto
  qed
  define gap where "gap = take k (old @ tail @ rest1)"
  have read: "mem_read lp1 (length pre + length old) (length tail) = Some tail"
    using mem_read_append [of "pre @ old" _ tail _ rest1] lp1(2) by simp
  have k: "length gap = k" using lp1(2,3) n(2) by (simp add: gap_def)
  have "mem_write lp1 (length pre + k) tail = Some (pre @ gap @ tail @ drop new lp1)"
    using lp1(2,3) n(2) by (simp add: mem_write_def gap_def)
  then have mv: "mem_move lp1 (length pre + k) (length pre + length old) (length tail)
      = Some (pre @ gap @ tail @ drop new lp1)"
    using read by (simp add: mem_move_def)
  have res: "lpInsert_relocate al lp whr (length pre) k (length old) tot new
    = Some (if new < tot then lp_realloc al (pre @ gap @ tail @ drop new lp1) new else pre @ gap @ tail @ drop new lp1)"
    using w mv n(1) lp1(1) by (auto simp: lpInsert_relocate_def Let_def)
  show ?thesis
  proof (cases "new < tot")
    case True
    moreover obtain r where "lp_realloc al (pre @ gap @ tail @ drop new lp1) new = pre @ gap @ tail @ r"
      using lp_realloc_prefix [OF al, of "pre @ gap @ tail" new "drop new lp1"] n(2) k by auto
    ultimately show ?thesis using res k by auto
  next
    case False
    then show ?thesis using res k by auto
  qed
qed

lemma lp_hdr_access:
  "lpSetTotalBytes (lp_hdr a n @ x) v = lp_hdr v n @ x"
  "lpSetNumElements (lp_hdr a n @ x) m = lp_hdr a m @ x"
  "n < 65536 \<Longrightarrow> lpGetNumElements (lp_hdr a n @ x) = n"
  by (simp_all add: lpSetTotalBytes_def lpSetNumElements_def lpGetNumElements_def lp_hdr_def le_val_le_bytes nat_mod_distrib)

text \<open>Storing into the gap.\<close>

definition ele_data :: "lp_elem \<Rightarrow> bytes" where
  "ele_data ele = (case ele of EleStr s \<Rightarrow> lp_encode s | EleInt e \<Rightarrow> e | EleDel \<Rightarrow> [])"

definition ele_entry :: "lp_elem \<Rightarrow> bytes" where
  "ele_entry ele = (case ele of EleDel \<Rightarrow> [] | _ \<Rightarrow> lp_entry (ele_data ele))"

lemma length_lpEncodeString:
  "length (lpEncodeString s) = (if length s < 64 then 1 + length s else if length s < 4096 then 2 + length s else 5 + length s)"
  by (simp add: lpEncodeString_def Let_def)

lemma lpEncodeGetType_data:
  "lpEncodeGetType s = (map_option lpEncodeIntegerGetType (lpStringToInt64 s), length (lp_encode s))"
  by (auto simp: lpEncodeGetType_def lp_encode_def length_lpEncodeString Let_def split: option.splits)

lemma lpInsert_store_gap:
  assumes "length gap = length (ele_entry ele)"
    "(intenc, enclen) = (case ele of EleStr s \<Rightarrow> lpEncodeGetType s | EleInt e \<Rightarrow> (Some e, length e) | EleDel \<Rightarrow> (None, 0))"
    "backlen = (if ele = EleDel then [] else lpEncodeBacklen enclen)"
  shows "lpInsert_store (pre @ gap @ post) ele intenc (length pre) enclen backlen = Some (pre @ ele_entry ele @ post)"
proof (cases "ele = EleDel")
  case True
  then show ?thesis using assms(1) by (simp add: lpInsert_store_def ele_entry_def)
next
  case False
  let ?d = "ele_data ele"
  have enclen: "enclen = length ?d" using assms(2) False
    by (cases ele) (auto simp: ele_data_def lpEncodeGetType_data)
  have bytes: "(case (intenc, ele) of (Some e, _) \<Rightarrow> mem_write lp p e
       | (None, EleStr s) \<Rightarrow> mem_write lp p (lpEncodeString s) | (None, _) \<Rightarrow> None) = mem_write lp p ?d" for lp p
    using assms(2) False
    by (cases ele) (auto simp: ele_data_def lpEncodeGetType_data lp_encode_def split: option.splits)
  have entry: "ele_entry ele = ?d @ backlen" using False enclen assms(3) by (cases ele) (auto simp: ele_entry_def lp_entry_def)
  obtain g1 g2 where g: "gap = g1 @ g2" "length g1 = length ?d" "length g2 = length backlen"
    using assms(1) entry by (metis append_eq_conv_conj append_take_drop_id length_append length_drop length_take
        add_diff_cancel_left' le_add1 min.absorb2)
  have "mem_write (pre @ gap @ post) (length pre) ?d = Some (pre @ ?d @ g2 @ post)"
    using mem_write_append [of pre _ g1 ?d "g2 @ post"] g by simp
  moreover have "mem_write (pre @ ?d @ g2 @ post) (length pre + enclen) backlen = Some (pre @ ?d @ backlen @ post)"
    using mem_write_append [of "pre @ ?d" _ g2 backlen post] g enclen by simp
  ultimately show ?thesis
    using bytes False entry by (simp add: lpInsert_store_def)
qed

section \<open>Insertion, replacement and deletion\<close>

lemma lpInsert_header_rep:
  assumes "lp_num_ok n k" "k' = (if del then k - 1 else if replace then k else k + 1)" "del \<Longrightarrow> replace" "del \<Longrightarrow> 0 < k"
  shows "\<exists>n'. lp_num_ok n' k' \<and> lpInsert_header (lp_hdr tot n @ x) replace del new = lp_hdr new n' @ x"
proof -
  have n: "n < 65536" using assms(1) by (auto simp: lp_num_ok_def)
  consider (unk) "n = 65535" | (del) "n = k" "k < 65535" "del" | (rep) "n = k" "k < 65535" "\<not> del" "replace"
    | (ins) "n = k" "k < 65535" "\<not> del" "\<not> replace"
    using assms(1) by (auto simp: lp_num_ok_def)
  then show ?thesis
  proof cases
    case unk
    then show ?thesis
      by (intro exI [of _ n]) (simp add: lpInsert_header_def lp_hdr_access lp_num_ok_def)
  next
    case del
    have "(k + 2 ^ 32 - 1) mod 2 ^ 32 = k - 1" using del assms(4) by (cases k) simp_all
    then show ?thesis using del assms(2,4) n
      by (intro exI [of _ "k - 1"]) (auto simp: lpInsert_header_def lp_hdr_access lp_num_ok_def)
  next
    case rep
    then show ?thesis using assms(2) n
      by (intro exI [of _ n]) (simp add: lpInsert_header_def lp_hdr_access lp_num_ok_def)
  next
    case ins
    then show ?thesis using assms(2) n
      by (intro exI [of _ "n + 1"]) (auto simp: lpInsert_header_def lp_hdr_access lp_num_ok_def)
  qed
qed

lemma lp_rep_blocks:
  assumes "lp_rep lp (as @ os @ bs)"
  obtains n rest where "lp = lp_hdr (lp_size (as @ os @ bs)) n @ lp_body as @ lp_body os @ lp_body bs @ LP_EOF # rest"
    "lp_num_ok n (length (as @ os @ bs))"
  using assms by (auto simp: lp_rep_def)

text \<open>
  The common core: the entries \<open>os\<close> (none or one) between \<open>as\<close> and \<open>bs\<close> are exchanged for the new
  element (none when deleting).
\<close>

definition ele_list :: "lp_elem \<Rightarrow> bytes list" where
  "ele_list ele = (if ele = EleDel then [] else [ele_data ele])"

lemma lp_body_ele_list: "lp_body (ele_list ele) = ele_entry ele"
  by (cases ele) (simp_all add: ele_list_def ele_entry_def)

text \<open>The steps of \<open>lpInsert\<close>, once each of them is known to succeed.\<close>

lemma lpInsert_steps:
  assumes "whr = LP_BEFORE \<and> ele \<noteq> EleDel \<and> r = 0 \<or> whr = LP_REPLACE"
    "(intenc, enclen) = (case ele of EleStr s \<Rightarrow> lpEncodeGetType s | EleInt e \<Rightarrow> (Some e, length e) | EleDel \<Rightarrow> (None, 0))"
    "backlen = (if ele = EleDel then [] else lpEncodeBacklen enclen)"
    "lpGetTotalBytes lp = tot" "enclen + length backlen = added" "tot + enclen + length backlen - r = new" "new < 2 ^ 32"
    "whr = LP_REPLACE \<Longrightarrow> \<exists>l. lpCurrentEncodedSizeUnsafe lp p = Some l \<and> (l + length (lpEncodeBacklen l)) mod 2 ^ 32 = r
      \<and> lp_assert_integrity_len lp p r = Some ()"
    "lpInsert_relocate al lp whr p added r tot new = Some lp1"
    "(if ele = EleDel then do { b \<leftarrow> mem_get lp1 p; Some (if b = LP_EOF then None else Some p) } else Some (Some p)) = Some newp"
    "lpInsert_store lp1 ele intenc p enclen backlen = Some lp2"
    "lpInsert_header lp2 (whr = LP_REPLACE) (ele = EleDel) new = lp3"
  shows "lpInsert al lp ele p whr = Some (Some (lp3, newp))"
proof (cases "whr = LP_REPLACE")
  case True
  then obtain l where "lpCurrentEncodedSizeUnsafe lp p = Some l" "(l + length (lpEncodeBacklen l)) mod 2 ^ 32 = r"
    "lp_assert_integrity_len lp p r = Some ()" using assms(8) by blast
  moreover have "(if ele = EleDel then LP_REPLACE else whr) = LP_REPLACE" using True by simp
  ultimately show ?thesis
    using assms(4-7,9-12) True
    unfolding lpInsert_def Let_def assms(2) [symmetric] prod.case assms(3) [symmetric]
    by (simp only:) (simp split del: if_split)
next
  case False
  then have "whr = LP_BEFORE" "r = 0" "ele \<noteq> EleDel" using assms(1) by auto
  then show ?thesis
    using assms(4-7,9-12)
    unfolding lpInsert_def Let_def assms(2) [symmetric] prod.case assms(3) [symmetric]
    by simp
qed

lemma lpInsert_core:
  assumes al: "alloc_ok al" and rep: "lp_rep lp (as @ os @ bs)"
    and wf: "list_all wf_entry (ele_list ele)" and fit: "lp_size (as @ ele_list ele @ bs) < 2 ^ 32"
    and w: "whr = LP_BEFORE \<and> os = [] \<and> ele \<noteq> EleDel \<or> whr = LP_REPLACE \<and> length os = 1"
  shows "\<exists>lp'. lpInsert al lp ele (6 + length (lp_body as)) whr =
      Some (Some (lp', if ele = EleDel \<and> bs = [] then None else Some (6 + length (lp_body as))))
    \<and> lp_rep lp' (as @ ele_list ele @ bs)"
proof -
  let ?p = "6 + length (lp_body as)" and ?new = "as @ ele_list ele @ bs" and ?old = "as @ os @ bs"
  obtain n rest where lp: "lp = lp_hdr (lp_size ?old) n @ lp_body as @ lp_body os @ lp_body bs @ LP_EOF # rest"
    and n: "lp_num_ok n (length ?old)" using lp_rep_blocks [OF rep] .
  define pre where "pre = lp_hdr (lp_size ?old) n @ lp_body as"
  define tail where "tail = lp_body bs @ [LP_EOF]"
  have pre: "length pre = ?p" by (simp add: pre_def)
  have lp2: "lp = pre @ lp_body os @ tail @ rest" using lp by (simp add: pre_def tail_def)
  have tot: "lpGetTotalBytes lp = lp_size ?old" by (rule lp_rep_header(1) [OF rep])
  have sizes: "lp_size ?old = length pre + length (lp_body os) + length tail"
    "lp_size ?new = length pre + length (ele_entry ele) + length tail"
    by (simp_all add: lp_size_def pre_def tail_def lp_body_ele_list)
  have wo: "whr = LP_BEFORE \<and> lp_body os = [] \<or> whr = LP_REPLACE" using w by auto
  obtain gap rest' where gap: "length gap = length (ele_entry ele)"
    and reloc: "lpInsert_relocate al lp whr ?p (length (ele_entry ele)) (length (lp_body os)) (lp_size ?old) (lp_size ?new)
      = Some (pre @ gap @ tail @ rest')"
    using lpInsert_relocate_blocks [OF al lp2 wo sizes] unfolding pre by blast
  obtain intenc enclen where ie: "(intenc, enclen) = (case ele of EleStr s \<Rightarrow> lpEncodeGetType s | EleInt e \<Rightarrow> (Some e, length e) | EleDel \<Rightarrow> (None, 0))"
    by (metis surj_pair)
  define backlen where "backlen = (if ele = EleDel then [] else lpEncodeBacklen enclen)"
  have added: "enclen + length backlen = length (ele_entry ele)"
    using ie by (cases ele) (auto simp: backlen_def ele_entry_def ele_data_def lpEncodeGetType_data length_lp_entry)
  have store: "lpInsert_store (pre @ gap @ tail @ rest') ele intenc ?p enclen backlen = Some (pre @ ele_entry ele @ tail @ rest')"
    using lpInsert_store_gap [OF gap ie backlen_def, of pre "tail @ rest'"] pre by simp
  have repl: "\<exists>l. lpCurrentEncodedSizeUnsafe lp ?p = Some l \<and> (l + length (lpEncodeBacklen l)) mod 2 ^ 32 = length (lp_body os)
      \<and> lp_assert_integrity_len lp ?p (length (lp_body os)) = Some ()" if rw: "whr = LP_REPLACE"
  proof -
    obtain o1 where os: "os = [o1]" using w rw by (cases os) auto
    have "lpCurrentEncodedSizeUnsafe lp ?p = Some (length o1)"
      using encodedSize_off [OF rep, of "length as"] os by (simp add: lp_off_def)
    moreover have "lp_size ?old < 2 ^ 32" by (rule lp_rep_header(3) [OF rep])
    moreover have "?p + length (lp_entry o1) < lp_size ?old" using os by (simp add: lp_size_def)
    ultimately show ?thesis
      using os tot by (simp add: lp_assert_integrity_len_def length_lp_entry)
  qed
  have newp: "(if ele = EleDel then do { b \<leftarrow> mem_get (pre @ gap @ tail @ rest') ?p; Some (if b = LP_EOF then None else Some ?p) }
      else Some (Some ?p)) = Some (if ele = EleDel \<and> bs = [] then None else Some ?p)"
  proof (cases "ele = EleDel")
    case True
    then have "gap = []" using gap by (simp add: ele_entry_def)
    show ?thesis
    proof (cases bs)
      case Nil
      then show ?thesis using True \<open>gap = []\<close> unfolding pre [symmetric] by (simp add: tail_def mem_get_def)
    next
      case (Cons b bs')
      have "wf_entry b" using lp_rep_header(5) [OF rep] Cons by simp
      then obtain c b' where "b = c # b'" "c \<noteq> 255" by (cases b) (auto simp: wf_entry_def)
      then show ?thesis using True \<open>gap = []\<close> Cons unfolding pre [symmetric] by (simp add: tail_def mem_get_def lp_entry_def)
    qed
  qed simp
  have new_eq: "lp_size ?old + enclen + length backlen - length (lp_body os) = lp_size ?new"
    using sizes added by simp
  have count: "length ?new = (if ele = EleDel then length ?old - 1 else if whr = LP_REPLACE then length ?old else length ?old + 1)"
    "ele = EleDel \<Longrightarrow> whr = LP_REPLACE" "ele = EleDel \<Longrightarrow> 0 < length ?old"
    using w by (auto simp: ele_list_def)
  obtain n' where hdr: "lp_num_ok n' (length ?new)"
    "lpInsert_header (lp_hdr (lp_size ?old) n @ lp_body as @ ele_entry ele @ tail @ rest') (whr = LP_REPLACE) (ele = EleDel) (lp_size ?new)
      = lp_hdr (lp_size ?new) n' @ lp_body as @ ele_entry ele @ tail @ rest'"
    using lpInsert_header_rep [OF n count] w by blast
  have hdr': "lpInsert_header (pre @ ele_entry ele @ tail @ rest') (whr = LP_REPLACE) (ele = EleDel) (lp_size ?new)
      = lp_hdr (lp_size ?new) n' @ lp_body as @ ele_entry ele @ tail @ rest'"
    using hdr(2) by (simp add: pre_def)
  have "lpInsert al lp ele ?p whr = Some (Some (lp_hdr (lp_size ?new) n' @ lp_body as @ ele_entry ele @ tail @ rest',
      if ele = EleDel \<and> bs = [] then None else Some ?p))"
    using lpInsert_steps [OF _ ie backlen_def _ added new_eq fit _ reloc newp store hdr'] w repl tot by auto
  moreover have "lp_rep (lp_hdr (lp_size ?new) n' @ lp_body as @ ele_entry ele @ tail @ rest') ?new"
    using hdr(1) fit wf rep by (auto simp: lp_rep_def tail_def lp_body_ele_list list_all_append)
  ultimately show ?thesis by blast
qed

lemma lpInsert_too_big:
  assumes rep: "lp_rep lp ds" and i: "i \<le> length ds" and d: "ele \<noteq> EleDel"
    and big: "2 ^ 32 \<le> lp_size (take i ds @ ele_data ele # drop i ds)"
  shows "lpInsert al lp ele (lp_off ds i) LP_BEFORE = Some None"
proof -
  obtain intenc enclen where ie: "(intenc, enclen) = (case ele of EleStr s \<Rightarrow> lpEncodeGetType s | EleInt e \<Rightarrow> (Some e, length e) | EleDel \<Rightarrow> (None, 0))"
    by (metis surj_pair)
  have "enclen = length (ele_data ele)"
    using ie d by (cases ele) (auto simp: ele_data_def lpEncodeGetType_data)
  moreover have "lp_body ds = lp_body (take i ds) @ lp_body (drop i ds)" by (simp flip: lp_body_simps(3))
  ultimately have "lp_size ds + enclen + length (lpEncodeBacklen enclen) = lp_size (take i ds @ ele_data ele # drop i ds)"
    by (simp add: lp_size_def length_lp_entry)
  then show ?thesis
    using lp_rep_header(1) [OF rep] d big
    unfolding lpInsert_def Let_def ie [symmetric] prod.case by simp
qed

lemma lpInsert_before:
  assumes "alloc_ok al" "lp_rep lp ds" "i \<le> length ds" "ele \<noteq> EleDel" "wf_entry (ele_data ele)"
    "lp_size (take i ds @ ele_data ele # drop i ds) < 2 ^ 32"
  shows "\<exists>lp'. lpInsert al lp ele (lp_off ds i) LP_BEFORE = Some (Some (lp', Some (lp_off ds i)))
    \<and> lp_rep lp' (take i ds @ ele_data ele # drop i ds)"
  using lpInsert_core [of al lp "take i ds" "[]" "drop i ds" ele LP_BEFORE] assms
  by (simp add: ele_list_def lp_off_def)

lemma lpInsert_after:
  assumes "alloc_ok al" "lp_rep lp ds" "i < length ds" "ele \<noteq> EleDel" "wf_entry (ele_data ele)"
    "lp_size (take (Suc i) ds @ ele_data ele # drop (Suc i) ds) < 2 ^ 32"
  shows "\<exists>lp'. lpInsert al lp ele (lp_off ds i) LP_AFTER = Some (Some (lp', Some (lp_off ds (Suc i))))
    \<and> lp_rep lp' (take (Suc i) ds @ ele_data ele # drop (Suc i) ds)"
proof -
  have "lp_assert_integrity lp (lp_off ds (Suc i)) = Some ()"
    using lp_off_less [OF assms(3)] lp_rep_header(1) [OF assms(2)]
    by (simp add: lp_assert_integrity_def lp_off_def)
  then have "lpInsert al lp ele (lp_off ds i) LP_AFTER = lpInsert al lp ele (lp_off ds (Suc i)) LP_BEFORE"
    using lpSkip_off [OF assms(2,3)] assms(4) by (simp add: lpInsert_def)
  then show ?thesis using lpInsert_before [of al lp ds "Suc i" ele] assms by simp
qed

lemma lpInsert_replace:
  assumes "alloc_ok al" "lp_rep lp ds" "i < length ds" "ele \<noteq> EleDel" "wf_entry (ele_data ele)"
    "lp_size (ds[i := ele_data ele]) < 2 ^ 32"
  shows "\<exists>lp'. lpInsert al lp ele (lp_off ds i) LP_REPLACE = Some (Some (lp', Some (lp_off ds i)))
    \<and> lp_rep lp' (ds[i := ele_data ele])"
  using lpInsert_core [of al lp "take i ds" "[ds ! i]" "drop (Suc i) ds" ele LP_REPLACE] assms
  by (simp add: ele_list_def lp_off_def upd_conv_take_nth_drop id_take_nth_drop [symmetric])

lemma lp_size_delete: "i < length ds \<Longrightarrow> lp_size (take i ds @ drop (Suc i) ds) \<le> lp_size ds"
proof -
  assume "i < length ds"
  then have "lp_body ds = lp_body (take i ds) @ lp_entry (ds ! i) @ lp_body (drop (Suc i) ds)"
    by (subst id_take_nth_drop [of i ds]) simp_all
  then show ?thesis by (simp add: lp_size_def)
qed

lemma lpDelete_off:
  assumes "alloc_ok al" "lp_rep lp ds" "i < length ds"
  shows "\<exists>lp'. lpDelete al lp (lp_off ds i) = Some (Some (lp', lp_ptr (take i ds @ drop (Suc i) ds) i))
    \<and> lp_rep lp' (take i ds @ drop (Suc i) ds)"
proof -
  have "lp_size (take i ds @ drop (Suc i) ds) < 2 ^ 32"
    using lp_size_delete [OF assms(3)] lp_rep_header(3) [OF assms(2)] by simp
  then show ?thesis
    using lpInsert_core [of al lp "take i ds" "[ds ! i]" "drop (Suc i) ds" EleDel LP_REPLACE] assms
    by (auto simp: ele_list_def lp_off_def lp_ptr_def lpDelete_def id_take_nth_drop [symmetric])
qed

lemma lp_encode_wf:
  assumes "length s + 5 < 2 ^ 32"
  shows "wf_entry (lp_encode s) \<and> val_bytes (entry_val (lp_encode s)) = s"
proof (cases "string2ll s")
  case None
  then show ?thesis using encode_str [OF assms] by (simp add: lp_encode_def lpStringToInt64_eq val_bytes_def)
next
  case (Some v)
  then have "is_int64 v" "s = ll_repr v" using string2ll_sound by auto
  then show ?thesis using encode_int [of v] Some by (simp add: lp_encode_def lpStringToInt64_eq val_bytes_def)
qed

lemma lpNew_rep:
  assumes "alloc_ok al"
  shows "lp_rep (lpNew al capacity) []"
proof -
  let ?n = "usable al (if capacity > 7 then capacity else 7)"
  have "7 \<le> ?n" using assms le_trans [of 7 "if capacity > 7 then capacity else 7" ?n] by (simp add: alloc_ok_def)
  then obtain m where m: "?n = 7 + m" using le_Suc_ex by blast
  have l: "lpNew al capacity = (lpSetNumElements (lpSetTotalBytes (map (junk al) [0..<7 + m]) 7) 0)[6 := 255]"
    using m by (cases "7 < capacity") (simp_all add: lpNew_def Let_def)
  have "[0..<7 + m] = [0..<6] @ 6 # [7..<7 + m]"
    using upt_add_eq_append [of 0 7 m] upt_rec [of 6 7] upt_add_eq_append [of 0 6 1] by (simp add: eval_nat_numeral)
  then have "lpNew al capacity = lp_hdr 7 0 @ 255 # map (junk al) [7..<7 + m]"
    unfolding l by (simp add: lpSetTotalBytes_def lpSetNumElements_def lp_hdr_def list_update_append)
  then show ?thesis by (auto simp: lp_rep_def lp_size_def lp_num_ok_def)
qed

end
