(* ===== verification/Listpack_Props.thy ===== *)
theory Listpack_Props
  imports Listpack_Rep
begin

text \<open>
  What listpacks promise: validation of untrusted payloads (safe on every input, sound and
  complete), range deletion and merging, and the properties of the operations.
\<close>

section \<open>Validation\<close>

lemma decode_safe:
  "p < length lp \<Longrightarrow> 28 \<le> shift + 7 * p \<Longrightarrow> \<exists>v. lpDecodeBacklen_loop lp p val shift = Some v"
proof (induction p arbitrary: val shift)
  case 0
  then show ?case by (subst lpDecodeBacklen_loop.simps) (auto simp: mem_get_def Let_def)
next
  case (Suc p)
  then show ?case
    using Suc.IH [of "shift + 7"] by (subst lpDecodeBacklen_loop.simps) (auto simp: mem_get_def Let_def)
qed

lemma decode_bound:
  "lpDecodeBacklen_loop lp p val shift = Some v \<Longrightarrow> val < 2 ^ shift \<Longrightarrow> shift \<le> 28 \<Longrightarrow> v = 2 ^ 64 - 1 \<or> v < 2 ^ 35"
proof (induction lp p val shift rule: lpDecodeBacklen_loop.induct)
  case (1 lp p val shift)
  obtain b where b: "mem_get lp p = Some b"
    using 1(2) by (subst (asm) lpDecodeBacklen_loop.simps) (auto split: option.splits)
  have "unat (b AND 127) < 128" by (simp add: byte_low_masks)
  then have "unat (b AND 127) * 2 ^ shift \<le> 127 * 2 ^ shift" by (intro mult_le_mono1) simp
  then have "val + unat (b AND 127) * 2 ^ shift < 2 ^ shift + 127 * 2 ^ shift" using 1(3) by linarith
  then have lt: "val + unat (b AND 127) * 2 ^ shift < 2 ^ (shift + 7)" by (simp add: power_add)
  also have "(2::nat) ^ (shift + 7) \<le> 2 ^ 35" using 1(4) by (intro power_increasing) auto
  finally have small: "val + unat (b AND 127) * 2 ^ shift < 2 ^ 35" .
  show ?case
    using 1(1) [OF b refl _ refl] 1(2) b lt small
    by (subst (asm) (2) lpDecodeBacklen_loop.simps) (auto simp: Let_def split: if_splits)
qed

lemma mem_get_some: "i < length lp \<Longrightarrow> \<exists>b. mem_get lp i = Some b"
  by (simp add: mem_get_def)

text \<open>When the length bytes lie inside, the encoded size can be read.\<close>

lemma encodedSize_total:
  assumes "lpCurrentEncodedSizeBytes lp p = Some k" "k \<noteq> 0" "p + k < length lp"
  shows "\<exists>l. lpCurrentEncodedSizeUnsafe lp p = Some l \<and> (mem_get lp p \<noteq> Some LP_EOF \<longrightarrow> l < 2 ^ 32)"
proof -
  obtain b where b: "mem_get lp p = Some b" using assms(1) by (auto simp: lpCurrentEncodedSizeBytes_def bind_eq_Some_conv)
  show ?thesis
  proof (cases b rule: lp_cases)
    case (I n)
    then show ?thesis using b by (elim disjE) (simp_all add: lpCurrentEncodedSizeUnsafe_def lp_class_num)
  next
    case S12
    then have "k = 2" using assms(1) b by (simp add: lpCurrentEncodedSizeBytes_def)
    then obtain c where c: "mem_get lp (p + 1) = Some c" using mem_get_some [of "p + 1" lp] assms(3) by auto
    have "unat (b AND 0xF) < 16" "unat c < 256" using unsigned_less [of c] by (simp_all add: byte_low_masks)
    then have "LP_ENCODING_12BIT_STR_LEN b c < 4096" unfolding LP_ENCODING_12BIT_STR_LEN_def by linarith
    then show ?thesis using S12 b c by (simp add: lpCurrentEncodedSizeUnsafe_def)
  next
    case S32
    then have "k = 5" using assms(1) b by (simp add: lpCurrentEncodedSizeBytes_def lp_class_num)
    then show ?thesis using S32 b assms(3) by (simp add: lpCurrentEncodedSizeUnsafe_def lp_class_num mem_read_def)
  next
    case S6
    have "unat (b AND 0x3F) < 64" by (simp add: byte_low_masks)
    then show ?thesis using S6 b by (simp add: lpCurrentEncodedSizeUnsafe_def LP_ENCODING_6BIT_STR_LEN_def)
  qed (use b assms(1,2) in \<open>simp_all add: lpCurrentEncodedSizeUnsafe_def lpCurrentEncodedSizeBytes_def\<close>)
qed

text \<open>One validation step on a payload of exactly the announced size: it never reads outside, and success
  means that the next entry starts where \<open>lpSkip\<close> says and can be walked back.\<close>

lemma lpValidateNext_total:
  assumes "length lp = n" "n < 2 ^ 32"
  shows "\<exists>ok q. lpValidateNext lp (Some p) n = Some (ok, q)
    \<and> (ok \<longrightarrow> mem_get lp p \<noteq> Some LP_EOF \<longrightarrow>
         (\<exists>l. q = Some (p + (l + length (lpEncodeBacklen l))) \<and> lpCurrentEncodedSizeUnsafe lp p = Some l
            \<and> 6 \<le> p \<and> p + (l + length (lpEncodeBacklen l)) < n
            \<and> lpDecodeBacklen lp (p + (l + length (lpEncodeBacklen l)) - 1) = Some l))"
proof (cases "lp_out_of_range n p")
  case True
  then have "lpValidateNext lp (Some p) n = Some (False, Some p)" by (simp add: lpValidateNext_def)
  then show ?thesis by auto
next
  case False
  then have p: "6 \<le> p" "p < n" by (auto simp: lp_out_of_range_def)
  then obtain b where b: "mem_get lp p = Some b" using mem_get_some assms(1) by blast
  obtain k where k: "lpCurrentEncodedSizeBytes lp p = Some k" using b by (simp add: lpCurrentEncodedSizeBytes_def)
  consider (eof) "b = LP_EOF" | (zero) "b \<noteq> LP_EOF" "k = 0" | (out) "b \<noteq> LP_EOF" "k \<noteq> 0" "lp_out_of_range n (p + k)"
    | (inside) "b \<noteq> LP_EOF" "k \<noteq> 0" "p + k < n" using p lp_out_of_range_def [of n "p + k"] by linarith
  then show ?thesis
  proof cases
    case inside
    then obtain l where l: "lpCurrentEncodedSizeUnsafe lp p = Some l" "l < 2 ^ 32"
      using encodedSize_total [OF k] assms(1) b by auto
    let ?e = "l + length (lpEncodeBacklen l)"
    have bl: "1 \<le> length (lpEncodeBacklen l)" "length (lpEncodeBacklen l) \<le> 5" by (rule length_backlen)+
    have start: "lpValidateNext lp (Some p) n = (if lp_out_of_range n (p + ?e) then Some (False, Some p)
        else do { prevlen \<leftarrow> lpDecodeBacklen lp (p + ?e - 1);
                  (if (prevlen + length (lpEncodeBacklen l)) mod 2 ^ 64 \<noteq> ?e then Some (False, Some p)
                   else Some (True, Some (p + ?e))) })"
      using inside False b k l p by (simp add: lpValidateNext_def lp_out_of_range_def Let_def)
    show ?thesis
    proof (cases "lp_out_of_range n (p + ?e)")
      case True
      then show ?thesis using start by auto
    next
      case False
      then have e: "p + ?e < n" by (auto simp: lp_out_of_range_def)
      obtain v where v: "lpDecodeBacklen lp (p + ?e - 1) = Some v"
        unfolding lpDecodeBacklen_def
        using decode_safe [of "p + ?e - 1" lp 0 0] e p assms(1) bl(1) by fastforce
      have "v = 2 ^ 64 - 1 \<or> v < 2 ^ 35" using decode_bound [of lp _ 0 0 v] v by (simp add: lpDecodeBacklen_def)
      then have "(v + length (lpEncodeBacklen l)) mod 2 ^ 64 = ?e \<Longrightarrow> v = l"
      proof
        assume "v = 2 ^ 64 - 1" and m: "(v + length (lpEncodeBacklen l)) mod 2 ^ 64 = ?e"
        then have "v + length (lpEncodeBacklen l) = 2 ^ 64 + (length (lpEncodeBacklen l) - 1)" using bl(1) by simp
        then have "(v + length (lpEncodeBacklen l)) mod 2 ^ 64 = length (lpEncodeBacklen l) - 1" using bl(2) by simp
        then show "v = l" using m bl(1) by simp
      next
        assume "v < 2 ^ 35" and m: "(v + length (lpEncodeBacklen l)) mod 2 ^ 64 = ?e"
        then show "v = l" using bl(2) by simp
      qed
      then show ?thesis using start False v l e p by auto
    qed
  next
    case eof
    then show ?thesis using False b by (auto simp: lpValidateNext_def)
  next
    case zero
    then have "lpValidateNext lp (Some p) n = Some (False, Some p)" using False b k by (simp add: lpValidateNext_def)
    then show ?thesis by auto
  next
    case out
    then have "lpValidateNext lp (Some p) n = Some (False, Some p)" using False b k by (simp add: lpValidateNext_def)
    then show ?thesis by auto
  qed
qed

text \<open>The offsets of the entries and of the terminator, in order.\<close>

definition lp_link :: "bytes \<Rightarrow> nat \<Rightarrow> nat \<Rightarrow> bool" where
  "lp_link lp p q \<longleftrightarrow> p < q \<and> q < length lp \<and> mem_get lp p \<noteq> Some LP_EOF
     \<and> lpSkip lp p = Some q \<and> lpPrev lp q = Some (Some p) \<and> lpAssertValidEntry lp (length lp) p = Some ()"

fun lp_chain :: "bytes \<Rightarrow> nat list \<Rightarrow> bool" where
  "lp_chain lp [] = False"
| "lp_chain lp [p] \<longleftrightarrow> mem_get lp p = Some LP_EOF"
| "lp_chain lp (p # q # ps) \<longleftrightarrow> lp_link lp p q \<and> lp_chain lp (q # ps)"

lemma lpValidateNext_link:
  assumes "lpValidateNext lp (Some p) (length lp) = Some (True, q)" "mem_get lp p \<noteq> Some LP_EOF"
    "length lp < 2 ^ 32" "lpBytes lp = length lp"
  shows "\<exists>q'. q = Some q' \<and> lp_link lp p q'"
proof -
  obtain l where l: "q = Some (p + (l + length (lpEncodeBacklen l)))" "lpCurrentEncodedSizeUnsafe lp p = Some l"
    "6 \<le> p" "p + (l + length (lpEncodeBacklen l)) < length lp"
    "lpDecodeBacklen lp (p + (l + length (lpEncodeBacklen l)) - 1) = Some l"
    using lpValidateNext_total [of lp "length lp" p] assms(1-3) by auto
  let ?q = "p + (l + length (lpEncodeBacklen l))"
  have bl: "1 \<le> length (lpEncodeBacklen l)" by (rule length_backlen)
  have valid: "lpAssertValidEntry lp (length lp) p = Some ()" using assms(1) by (simp add: lpAssertValidEntry_def)
  have "(l + length (lpEncodeBacklen l)) mod 2 ^ 64 = l + length (lpEncodeBacklen l)" using l(4) assms(3) by simp
  then have "lpPrev lp ?q = Some (Some p)"
    using l(3,5) bl valid assms(4) by (simp add: lpPrev_def Let_def)
  moreover have "p < ?q" using bl by linarith
  ultimately show ?thesis using l valid assms(2) unfolding lp_link_def lpSkip_def by simp
qed

text \<open>The scan, whatever the callback answers.\<close>

lemma lpValidate_step_cases:
  assumes "mem_get lp p = Some b" "b \<noteq> LP_EOF" "lpValidateNext lp (Some p) n = Some (ok, q)"
  shows "lpValidate_step cb lp n (Some p, c, ud) = Some (Inl None)
    \<or> ok \<and> (\<exists>ud'. lpValidate_step cb lp n (Some p, c, ud) = Some (Inr (q, (c + 1) mod 2 ^ 32, ud')))"
proof (cases cb)
  case None
  then show ?thesis using assms by (cases ok) (simp_all add: lpValidate_step_def)
next
  case (Some f)
  obtain x ud' where "f p (lpGetNumElements lp) ud = (x, ud')" by fastforce
  then show ?thesis using assms Some by (cases ok; cases x) (simp_all add: lpValidate_step_def)
qed

lemma lpValidate_loop:
  assumes "length lp = n" "n < 2 ^ 32" "lpBytes lp = n"
  shows "p < n \<Longrightarrow> c < 2 ^ 32 \<Longrightarrow> \<exists>r. c_loop (lpValidate_step cb lp n) (Some p, c, ud) = Some r \<and>
    (\<forall>e m. r = Some (e, m) \<longrightarrow> (\<exists>ps. e = Some (last (p # ps)) \<and> m = (c + length ps) mod 2 ^ 32 \<and> lp_chain lp (p # ps)))"
proof (induction "n - p" arbitrary: p c ud rule: less_induct)
  case less
  obtain b where b: "mem_get lp p = Some b" using mem_get_some less.prems(1) assms(1) by blast
  obtain ok q where v: "lpValidateNext lp (Some p) n = Some (ok, q)"
    using lpValidateNext_total [OF assms(1,2), of p] by blast
  consider (eof) "b = LP_EOF"
    | (fail) "lpValidate_step cb lp n (Some p, c, ud) = Some (Inl None)"
    | (more) ud' where "b \<noteq> LP_EOF" "ok" "lpValidate_step cb lp n (Some p, c, ud) = Some (Inr (q, (c + 1) mod 2 ^ 32, ud'))"
    using lpValidate_step_cases [OF b _ v, of cb c ud] by blast
  then show ?case
  proof cases
    case eof
    then have "lpValidate_step cb lp n (Some p, c, ud) = Some (Inl (Some (Some p, c)))"
      using b by (simp add: lpValidate_step_def)
    then show ?thesis using eof b less.prems(2) by (auto simp: c_loop_step intro!: exI [of _ "[]"])
  next
    case fail
    then show ?thesis by (simp add: c_loop_step)
  next
    case more
    then obtain q' where q: "q = Some q'" "lp_link lp p q'"
      using lpValidateNext_link [of lp p q] v b assms by auto
    then have "p < q'" "q' < n" using assms(1) by (simp_all add: lp_link_def)
    then have dec: "n - q' < n - p" "(c + 1) mod 2 ^ 32 < 2 ^ 32" by simp_all
    obtain r where r: "c_loop (lpValidate_step cb lp n) (Some q', (c + 1) mod 2 ^ 32, ud') = Some r"
      "\<forall>e m. r = Some (e, m) \<longrightarrow> (\<exists>ps. e = Some (last (q' # ps)) \<and> m = ((c + 1) mod 2 ^ 32 + length ps) mod 2 ^ 32 \<and> lp_chain lp (q' # ps))"
      using less.hyps [OF dec(1) \<open>q' < n\<close> dec(2), of ud'] by blast
    have "\<exists>ps. e = Some (last (p # ps)) \<and> m = (c + length ps) mod 2 ^ 32 \<and> lp_chain lp (p # ps)" if rem: "r = Some (e, m)" for e m
    proof -
      obtain ps where "e = Some (last (q' # ps))" "m = ((c + 1) mod 2 ^ 32 + length ps) mod 2 ^ 32" "lp_chain lp (q' # ps)"
        using r(2) rem by blast
      then show ?thesis using q(2) by (intro exI [of _ "q' # ps"]) (simp add: mod_add_left_eq)
    qed
    then show ?thesis using r(1) more(3) q(1) by (simp add: c_loop_step)
  qed
qed

lemma lpValidateIntegrity_total:
  assumes "length lp < 2 ^ 32"
  shows "\<exists>b. lpValidateIntegrity lp True cb ud = Some b \<and>
    (b \<longrightarrow> lpBytes lp = length lp \<and> (\<exists>ps. lp_chain lp (6 # ps) \<and> last (6 # ps) = length lp - 1
       \<and> (lpGetNumElements lp = LP_HDR_NUMELE_UNKNOWN \<or> lpGetNumElements lp = length ps mod 2 ^ 32)))"
proof (cases "length lp < 7 \<or> lpBytes lp \<noteq> length lp \<or> mem_get lp (length lp - 1) \<noteq> Some LP_EOF")
  case True
  then have "lpValidateIntegrity lp True cb ud = Some False"
    by (auto simp: lpValidateIntegrity_def Let_def mem_get_def lpBytes_def)
  then show ?thesis by blast
next
  case False
  then obtain r where r: "c_loop (lpValidate_step cb lp (length lp)) (Some 6, 0, ud) = Some r"
    "\<forall>e m. r = Some (e, m) \<longrightarrow> (\<exists>ps. e = Some (last (6 # ps)) \<and> m = length ps mod 2 ^ 32 \<and> lp_chain lp (6 # ps))"
    using lpValidate_loop [OF refl assms, of 6 0 cb ud] by auto
  have v: "lpValidateIntegrity lp True cb ud = Some (case r of None \<Rightarrow> False | Some (p, count) \<Rightarrow>
      if p \<noteq> Some (length lp - 1) then False
      else if lpGetNumElements lp \<noteq> LP_HDR_NUMELE_UNKNOWN \<and> lpGetNumElements lp \<noteq> count then False else True)"
    using False r(1) by (cases r) (auto simp: lpValidateIntegrity_def Let_def lpBytes_def)
  show ?thesis
  proof (cases r)
    case (Some em)
    obtain e m where em: "em = (e, m)" by fastforce
    then obtain ps where "e = Some (last (6 # ps))" "m = length ps mod 2 ^ 32" "lp_chain lp (6 # ps)"
      using r(2) Some by blast
    then show ?thesis using v Some em False by (auto split: if_splits)
  next
    case None
    then have "lpValidateIntegrity lp True cb ud = Some False" using v by simp
    then show ?thesis by blast
  qed
qed

text \<open>Along a chain, \<open>lpNext\<close> and \<open>lpPrev\<close> are inverse to each other and never fail.\<close>

lemma lp_chain_walk:
  "lp_chain lp ps \<Longrightarrow> lpBytes lp = length lp \<Longrightarrow> Suc i < length ps \<Longrightarrow>
     lpNext lp (ps ! i) = Some (if Suc (Suc i) < length ps then Some (ps ! Suc i) else None)
     \<and> lpPrev lp (ps ! Suc i) = Some (Some (ps ! i)) \<and> ps ! i < ps ! Suc i"
proof (induction lp ps arbitrary: i rule: lp_chain.induct)
  case (3 lp p q ps)
  have link: "lp_link lp p q" and rest: "lp_chain lp (q # ps)" using 3(2) by simp_all
  show ?case
  proof (cases i)
    case (Suc j)
    then show ?thesis using "3.IH" [OF rest 3(3), of j] 3(4) by simp
  next
    case 0
    have "lpNext lp p = Some (if ps = [] then None else Some q)"
    proof (cases ps)
      case Nil
      then show ?thesis using link rest by (simp add: lpNext_def lp_link_def)
    next
      case (Cons r rs)
      then have "lp_link lp q r" using rest by simp
      then obtain b where "mem_get lp q = Some b" "b \<noteq> 255" "lpAssertValidEntry lp (length lp) q = Some ()"
        using mem_get_some [of q lp] by (auto simp: lp_link_def)
      then show ?thesis using link Cons 3(3) by (simp add: lpNext_def lp_link_def)
    qed
    then show ?thesis using 0 link by (simp add: lp_link_def)
  qed
qed simp_all

text \<open>Every well-formed listpack whose allocation is exactly its size is accepted.\<close>

lemma lpValidate_complete:
  assumes rep: "lp_rep lp ds" and len: "length lp = lp_size ds"
  shows "lpValidateIntegrity lp True None ud = Some True"
proof -
  let ?n = "lp_size ds"
  have "i \<le> length ds \<Longrightarrow> c_loop (lpValidate_step None lp ?n) (Some (lp_off ds i), i, ud) = Some (Some (Some (?n - 1), length ds))" for i
  proof (induction "length ds - i" arbitrary: i)
    case 0
    then show ?case
      using lp_get_off(2) [OF rep] lp_off_end [of ds] by (simp add: c_loop_step lpValidate_step_def)
  next
    case (Suc k)
    then have i: "i < length ds" by simp
    have "lpValidate_step None lp ?n (Some (lp_off ds i), i, ud) = Some (Inr (Some (lp_off ds (Suc i)), Suc i, ud))"
      using lp_get_off(1) [OF rep i] lpValidateNext_off [OF rep i] lp_rep_length [OF rep] i
      by (simp add: lpValidate_step_def)
    then show ?case using Suc.hyps(1) [of "Suc i"] Suc.hyps(2) i by (simp add: c_loop_step)
  qed
  from this [of 0] have loop: "c_loop (lpValidate_step None lp ?n) (Some 6, 0, ud) = Some (Some (Some (?n - 1), length ds))"
    by simp
  have "mem_get lp (?n - 1) = Some LP_EOF" using lp_get_off(2) [OF rep] by (simp add: lp_off_end)
  moreover have "7 \<le> ?n" by (simp add: lp_size_def)
  ultimately show ?thesis
    using loop len lp_rep_header(1,4) [OF rep] by (auto simp: lpValidateIntegrity_def Let_def lp_num_ok_def)
qed

section \<open>Ranges and merging\<close>

lemma lp_repI:
  assumes "list_all wf_entry ds" "lp_size ds < 2 ^ 32" "lp_num_ok n (length ds)"
  shows "lp_rep (lp_hdr (lp_size ds) n @ lp_body ds @ LP_EOF # rest) ds"
  using assms by (auto simp: lp_rep_def)

lemma lpShrinkToFit_rep:
  assumes "alloc_ok al" "lp_rep lp ds"
  shows "lp_rep (lpShrinkToFit al lp) ds"
proof (cases "lpGetTotalBytes lp < length lp")
  case True
  obtain n rest where lp: "lp = lp_hdr (lp_size ds) n @ lp_body ds @ LP_EOF # rest" "lp_num_ok n (length ds)"
    using assms(2) by (auto simp: lp_rep_def)
  obtain r where "lp_realloc al lp (lp_size ds) = (lp_hdr (lp_size ds) n @ lp_body ds @ [LP_EOF]) @ r"
    using lp_realloc_prefix [OF assms(1), of "lp_hdr (lp_size ds) n @ lp_body ds @ [LP_EOF]" "lp_size ds" rest] lp(1)
    by (auto simp: lp_size_def)
  then show ?thesis
    using True lp_rep_header(1) [OF assms(2)] assms(2) lp_repI [of ds n r] lp(2)
    by (simp add: lpShrinkToFit_def lp_rep_def)
qed (simp add: lpShrinkToFit_def assms(2))

lemma lp_body_take_drop: "lp_body ds = lp_body (take i ds) @ lp_body (drop i ds)"
  by (simp flip: lp_body_simps(3))

lemma lpDeleteRange_tail_rep:
  assumes "lp_rep lp ds"
  shows "i < length ds \<Longrightarrow> 0 < num \<Longrightarrow> lpDeleteRange_tail lp (lp_size ds) num c (lp_off ds i)
    = Some (c + min num (length ds - i), lp_off ds (i + min num (length ds - i)))"
proof (induction num arbitrary: i c)
  case (Suc num)
  show ?case
  proof (cases "Suc i = length ds")
    case True
    then have "length ds - i = 1" by simp
    then show ?thesis using lpSkip_off [OF assms Suc.prems(1)] lp_get_off(2) [OF assms] True by simp
  next
    case False
    then have i: "Suc i < length ds" using Suc.prems(1) by simp
    have step: "lpDeleteRange_tail lp (lp_size ds) (Suc num) c (lp_off ds i) = lpDeleteRange_tail lp (lp_size ds) num (c + 1) (lp_off ds (Suc i))"
      using lpSkip_off [OF assms Suc.prems(1)] lp_get_off(1) [OF assms i] lpAssertValidEntry_off [OF assms, of "Suc i"] i by simp
    have m: "min (Suc num) (length ds - i) = Suc (min num (length ds - Suc i))" using i by simp
    show ?thesis
    proof (cases "num = 0")
      case True
      then show ?thesis using step m by simp
    next
      case False
      then show ?thesis using step m Suc.IH [OF i, of "c + 1"] by simp
    qed
  qed
qed simp

text \<open>Removing \<open>k\<close> entries from position \<open>i\<close> on.\<close>

definition del_range :: "'a list \<Rightarrow> nat \<Rightarrow> nat \<Rightarrow> 'a list" where
  "del_range xs i k = take i xs @ drop (i + k) xs"

lemma lp_off_add: "i + k \<le> length ds \<Longrightarrow> lp_off ds (i + k) = lp_off ds i + length (lp_body (take k (drop i ds)))"
  by (simp add: lp_off_def take_add)

lemma lpDeleteRangeWithEntry_rep:
  assumes al: "alloc_ok al" and rep: "lp_rep lp ds" and i: "i < length ds" and num: "0 < num"
  shows "\<exists>lp' p. lpDeleteRangeWithEntry al lp (lp_off ds i) num = Some (lp', p) \<and> lp_rep lp' (del_range ds i num)"
proof -
  define k where "k = min num (length ds - i)"
  let ?new = "take i ds @ drop (i + k) ds" and ?mid = "take k (drop i ds)"
  have k: "i + k \<le> length ds" using i by (simp add: k_def)
  have del: "del_range ds i num = ?new" using i by (auto simp: del_range_def k_def min_def)
  have ds: "ds = take i ds @ ?mid @ drop (i + k) ds"
    by (metis append_take_drop_id drop_drop add.commute)
  have dsn: "take i ds @ ?mid @ drop (i + k) ds = ds" using ds by simp
  obtain n rest where lp: "lp = lp_hdr (lp_size ds) n @ lp_body (take i ds) @ lp_body ?mid @ lp_body (drop (i + k) ds) @ LP_EOF # rest"
    and n: "lp_num_ok n (length ds)"
    using lp_rep_blocks [of lp "take i ds" ?mid "drop (i + k) ds"] rep unfolding dsn by blast
  define pre where "pre = lp_hdr (lp_size ds) n @ lp_body (take i ds)"
  define tail where "tail = lp_body (drop (i + k) ds) @ [LP_EOF]"
  have size: "lp_size ds = length pre + length (lp_body ?mid) + length tail"
    using arg_cong [OF ds, of lp_body] by (simp add: lp_size_def pre_def tail_def)
  have size': "lp_size ?new = length pre + length tail" by (simp add: lp_size_def pre_def tail_def)
  have offs: "lp_off ds i = length pre" "lp_off ds (i + k) = length pre + length (lp_body ?mid)"
    using lp_off_add [OF k] by (simp_all add: lp_off_def pre_def)
  have tl: "lpDeleteRange_tail lp (lp_size ds) num 0 (lp_off ds i) = Some (k, lp_off ds (i + k))"
    using lpDeleteRange_tail_rep [OF rep i num, of 0] by (simp add: k_def)
  have lp2: "lp = pre @ lp_body ?mid @ tail @ rest" using lp by (simp add: pre_def tail_def)
  obtain rest' where mv: "mem_move lp (length pre) (length pre + length (lp_body ?mid)) (length tail) = Some (pre @ tail @ rest')"
  proof
    have "mem_read lp (length pre + length (lp_body ?mid)) (length tail) = Some tail"
      unfolding lp2 using mem_read_append [of "pre @ lp_body ?mid" _ tail _ rest] by simp
    moreover have "mem_write lp (length pre) tail = Some (pre @ tail @ drop (length pre + length tail) lp)"
      unfolding lp2 by (simp add: mem_write_def)
    ultimately show "mem_move lp (length pre) (length pre + length (lp_body ?mid)) (length tail)
        = Some (pre @ tail @ drop (length pre + length tail) lp)" by (simp add: mem_move_def)
  qed
  have nlt: "n < 65536" using n by (auto simp: lp_num_ok_def)
  define n' where "n' = (if n = 65535 then n else n - k)"
  have n': "lp_num_ok n' (length ?new)" using n k by (auto simp: n'_def lp_num_ok_def)
  have kn: "n \<noteq> 65535 \<Longrightarrow> nat ((int n - int k) mod 2 ^ 32) = n - k"
    using n k nlt by (auto simp: lp_num_ok_def)
  define lp3 where "lp3 = lp_hdr (lp_size ?new) n' @ lp_body (take i ds) @ tail @ rest'"
  have sub: "lp_size ds - (lp_off ds (i + k) - lp_off ds i) = lp_size ?new"
    using size size' offs by simp
  have hdr: "(let lp = lpSetTotalBytes (pre @ tail @ rest') (lp_size ds - (lp_off ds (i + k) - lp_off ds i)); numele = lpGetNumElements lp
      in if numele \<noteq> 65535 then lpSetNumElements lp (nat ((int numele - int k) mod 2 ^ 32)) else lp) = lp3"
    using kn nlt unfolding sub
    by (auto simp: pre_def lp_hdr_access lp3_def n'_def Let_def)
  have small: "lp_size ?new < 2 ^ 32" using lp_rep_header(3) [OF rep] size size' by simp
  have wf: "list_all wf_entry ?new" using lp_rep_header(5) [OF rep]
    by (auto simp: list_all_iff dest: in_set_takeD in_set_dropD)
  have rep3: "lp_rep lp3 ?new"
    using lp_repI [OF wf small n', of rest'] by (simp add: lp3_def tail_def)
  have rep4: "lp_rep (lpShrinkToFit al lp3) ?new" by (rule lpShrinkToFit_rep [OF al rep3])
  have "length pre < length (lpShrinkToFit al lp3)"
    using lp_rep_header(2) [OF rep4] size' by (simp add: tail_def)
  then obtain b where b: "mem_get (lpShrinkToFit al lp3) (lp_off ds i) = Some b"
    using mem_get_some offs(1) by metis
  have eof: "lp_size ds - 1 + 1 - lp_off ds (i + k) = length tail" "lp_off ds (i + k) \<le> lp_size ds - 1 + 1"
    using size offs by (simp_all add: tail_def)
  have "lpDeleteRangeWithEntry al lp (lp_off ds i) num
      = Some (lpShrinkToFit al lp3, if b = 255 then None else Some (lp_off ds i))"
    using num tl mv [folded offs] hdr [unfolded Let_def] b eof lp_rep_header(1) [OF rep]
    by (simp add: lpDeleteRangeWithEntry_def lpBytes_def Let_def split del: if_split)
  then show ?thesis using rep4 del by auto
qed

lemma lpDeleteRange_rep:
  assumes al: "alloc_ok al" and rep: "lp_rep lp ds"
  shows "\<exists>lp'. lpDeleteRange al lp index num = Some lp' \<and>
    lp_rep lp' (case seek_index (length ds) index of None \<Rightarrow> ds | Some i \<Rightarrow> del_range ds i num)"
proof (cases "num = 0 \<or> seek_index (length ds) index = None")
  case True
  then have "lpDeleteRange al lp index num = Some lp"
    using lpSeek_rep [OF rep, of index] by (auto simp: lpDeleteRange_def Let_def)
  moreover have "(case seek_index (length ds) index of None \<Rightarrow> ds | Some i \<Rightarrow> del_range ds i num) = ds"
    using True by (auto simp: del_range_def split: option.splits)
  ultimately show ?thesis using rep by simp
next
  case False
  then obtain i where i: "seek_index (length ds) index = Some i" "0 < num" by auto
  let ?n = "lpGetNumElements lp"
  have il: "i < length ds" "int i = (if index < 0 then int (length ds) + index else index)"
    using i(1) by (auto simp: seek_index_def Let_def split: if_splits)
  have seek: "lpSeek lp index = Some (Some (lp_off ds i))" using lpSeek_rep [OF rep, of index] i by simp
  have num: "?n \<noteq> 65535 \<Longrightarrow> ?n = length ds" using lp_rep_header(4) [OF rep] by (auto simp: lp_num_ok_def)
  define fast where "fast \<longleftrightarrow> ?n \<noteq> 65535 \<and> length ds - i \<le> num"
  have fast: "(?n \<noteq> 65535 \<and> (int ?n - (if ?n \<noteq> 65535 \<and> index < 0 then int ?n + index else index)) mod 2 ^ 64 \<le> int num) \<longleftrightarrow> fast"
  proof (cases "?n = 65535")
    case False
    then have "?n = length ds" "length ds < 65535"
      using lp_rep_header(4) [OF rep] by (auto simp: lp_num_ok_def)
    moreover have "(int (length ds) - int i) mod 2 ^ 64 = int (length ds - i)"
      using \<open>length ds < 65535\<close> il(1) by simp
    ultimately show ?thesis using False il(2) by (auto simp: fast_def split: if_splits)
  qed (simp add: fast_def)
  show ?thesis
  proof (cases fast)
    case False
    then have "lpDeleteRange al lp index num = map_option fst (lpDeleteRangeWithEntry al lp (lp_off ds i) num)"
      using i(2) seek fast by (auto simp: lpDeleteRange_def Let_def split del: if_split)
    then show ?thesis using lpDeleteRangeWithEntry_rep [OF al rep il(1) i(2)] i(1) by auto
  next
    case True
    let ?new = "take i ds"
    have nk: "?n \<noteq> 65535" "?n = length ds" "length ds < 65535" "length ds - i \<le> num"
      using True num lp_rep_header(4) [OF rep] by (auto simp: fast_def lp_num_ok_def)
    obtain n rest where lp: "lp = lp_hdr (lp_size ds) n @ lp_body ds @ LP_EOF # rest"
      using rep by (auto simp: lp_rep_def)
    obtain c r where cr: "lp_body (drop i ds) @ LP_EOF # rest = c # r"
      by (cases "lp_body (drop i ds) @ LP_EOF # rest") auto
    then have lp2: "lp = (lp_hdr (lp_size ds) n @ lp_body (take i ds)) @ [c] @ r"
      using lp lp_body_take_drop [of ds i] by simp
    have "mem_write lp (lp_off ds i) [LP_EOF] = Some (lp_hdr (lp_size ds) n @ lp_body ?new @ LP_EOF # r)"
      unfolding lp2 using mem_write_append [of "lp_hdr (lp_size ds) n @ lp_body (take i ds)" "lp_off ds i" "[c]" "[LP_EOF]" r]
      by (simp add: lp_off_def)
    moreover have "lp_off ds i + 1 = lp_size ?new" by (simp add: lp_off_def lp_size_def)
    moreover have idx: "(if ?n \<noteq> 65535 \<and> index < 0 then int ?n + index else index) = int i"
      using nk il by auto
    moreover have "(int ?n - int i) mod 2 ^ 64 \<le> int num" using fast True unfolding idx by simp
    ultimately have "lpDeleteRange al lp index num = Some (lpShrinkToFit al (lp_hdr (lp_size ?new) i @ lp_body ?new @ LP_EOF # r))"
      using i(2) seek nk(1) unfolding lpDeleteRange_def Let_def idx by (simp add: lp_hdr_access)
    moreover have "lp_rep (lp_hdr (lp_size ?new) i @ lp_body ?new @ LP_EOF # r) ?new"
      using lp_repI [of ?new i r] lp_rep_header(3,5) [OF rep] il(1) nk(3) lp_body_take_drop [of ds i]
      by (auto simp: list_all_iff lp_num_ok_def lp_size_def dest: in_set_takeD)
    ultimately show ?thesis
      using lpShrinkToFit_rep [OF al] i(1) nk(4) by (auto simp: del_range_def)
  qed
qed

lemma lp_size_append: "lp_size (xs @ ys) + 7 = lp_size xs + lp_size ys"
  by (simp add: lp_size_def)

lemma lpMerge_rep:
  assumes al: "alloc_ok al" and a: "lp_rep a xs" and b: "lp_rep b ys" and fit: "lp_size (xs @ ys) < 2 ^ 32 - 1"
  shows "\<exists>lp keep. lpMerge al a b = Some (lp, keep) \<and> lp_rep lp (xs @ ys)"
proof -
  obtain a' where a': "lpLength a = Some (a', length xs)" "lp_rep a' xs" using lpLength_rep [OF a] by blast
  obtain b' where b': "lpLength b = Some (b', length ys)" "lp_rep b' ys" using lpLength_rep [OF b] by blast
  have bytes: "lpBytes a = lp_size xs" "lpBytes b = lp_size ys"
    using lp_rep_header(1) [OF a] lp_rep_header(1) [OF b] by (simp_all add: lpBytes_def)
  define m where "m = (if length xs + length ys < 65535 then length xs + length ys else 65535)"
  have m: "lp_num_ok m (length (xs @ ys))" by (simp add: m_def lp_num_ok_def)
  have wf: "list_all wf_entry (xs @ ys)" using lp_rep_header(5) [OF a] lp_rep_header(5) [OF b] by (auto simp: list_all_iff)
  have sz: "lp_size xs + lp_size ys - 6 - 1 = lp_size (xs @ ys)" using lp_size_append [of xs ys] by linarith
  obtain n1 r1 where A: "a' = lp_hdr (lp_size xs) n1 @ lp_body xs @ LP_EOF # r1" using a'(2) by (auto simp: lp_rep_def)
  obtain n2 r2 where B: "b' = lp_hdr (lp_size ys) n2 @ lp_body ys @ LP_EOF # r2" using b'(2) by (auto simp: lp_rep_def)
  have rep: "lp_rep (lp_hdr (lp_size (xs @ ys)) m @ lp_body xs @ lp_body ys @ LP_EOF # r) (xs @ ys)" for r
    using lp_repI [OF wf _ m, of r] fit by simp
  show ?thesis
  proof (cases "lp_size xs \<ge> lp_size ys")
    case True
    define pre where "pre = lp_hdr (lp_size xs) n1 @ lp_body xs"
    obtain r where r: "lp_realloc al a' (lp_size (xs @ ys)) = (pre @ [LP_EOF]) @ r" "lp_size (xs @ ys) \<le> length ((pre @ [LP_EOF]) @ r)"
      using lp_realloc_prefix [OF al, of "pre @ [LP_EOF]" "lp_size (xs @ ys)" r1] A by (auto simp: pre_def lp_size_def)
    have rd: "mem_read b' 6 (lp_size ys - 6) = Some (lp_body ys @ [LP_EOF])"
      using mem_read_append [of "lp_hdr (lp_size ys) n2" 6 "lp_body ys @ [LP_EOF]" _ r2] B by (simp add: lp_size_def)
    have pl: "lp_size xs - 1 = length pre" by (simp add: pre_def lp_size_def)
    have room: "length pre + length (lp_body ys @ [LP_EOF]) \<le> length ((pre @ [LP_EOF]) @ r)"
      using r(2) by (simp add: pre_def lp_size_def)
    obtain r' where wr: "mem_write ((pre @ [LP_EOF]) @ r) (lp_size xs - 1) (lp_body ys @ [LP_EOF]) = Some (pre @ lp_body ys @ LP_EOF # r')"
      using room pl by (simp add: mem_write_def)
    have "lpMerge al a b = Some (lp_hdr (lp_size (xs @ ys)) m @ lp_body xs @ lp_body ys @ LP_EOF # r', True)"
      using a' b' bytes True sz fit r(1) rd wr
      by (simp add: lpMerge_def Let_def pre_def lp_hdr_access m_def)
    then show ?thesis using rep by blast
  next
    case False
    define src where "src = lp_hdr (lp_size xs) n1 @ lp_body xs"
    define tl where "tl = lp_body ys @ [LP_EOF]"
    obtain r where r: "lp_realloc al b' (lp_size (xs @ ys)) = (lp_hdr (lp_size ys) n2 @ tl) @ r"
      "lp_size (xs @ ys) \<le> length ((lp_hdr (lp_size ys) n2 @ tl) @ r)"
      using lp_realloc_prefix [OF al, of "lp_hdr (lp_size ys) n2 @ tl" "lp_size (xs @ ys)" r2] B by (auto simp: tl_def lp_size_def)
    let ?t = "(lp_hdr (lp_size ys) n2 @ tl) @ r"
    have pl: "lp_size xs - 1 = length src" "lp_size ys - 6 = length tl" by (simp_all add: src_def tl_def lp_size_def)
    have "mem_read ?t 6 (length tl) = Some tl"
      using mem_read_append [of "lp_hdr (lp_size ys) n2" 6 tl _ r] by simp
    moreover have "length src + length tl \<le> length ?t" using r(2) by (simp add: src_def tl_def lp_size_def)
    ultimately have mv: "mem_move ?t (length src) 6 (length tl) = Some (take (length src) ?t @ tl @ drop (length src + length tl) ?t)"
      by (simp add: mem_move_def mem_write_def)
    have rd: "mem_read a' 0 (length src) = Some src" using A by (simp add: mem_read_def src_def)
    have ls: "length (take (length src) ?t) = length src" using \<open>length src + length tl \<le> length ?t\<close> by simp
    have wr: "mem_write (take (length src) ?t @ tl @ drop (length src + length tl) ?t) 0 src
        = Some (src @ tl @ drop (length src + length tl) ?t)"
      using mem_write_append [of "[]" 0 "take (length src) ?t" src "tl @ drop (length src + length tl) ?t"] ls by simp
    have "lpMerge al a b = Some (lp_hdr (lp_size (xs @ ys)) m @ lp_body xs @ lp_body ys @ LP_EOF # drop (length src + length tl) ?t, False)"
      using a' b' bytes False sz fit r(1) mv rd wr pl
      by (simp add: lpMerge_def Let_def src_def tl_def lp_hdr_access m_def)
    then show ?thesis using rep by blast
  qed
qed

section \<open>Properties\<close>

lemma lpGet_block:
  assumes "wf_entry d" "21 \<le> length intbuf"
  shows "lpGet (pre @ lp_entry d @ post) (length pre) intbuf = Some (val_bytes (entry_val d))"
proof -
  obtain v where v: "lpGetWithSize d 0 = Some (v, Some (length (lp_entry d)))"
    "case v of LP_Str q n \<Rightarrow> q + n = length d | LP_Int _ \<Rightarrow> True"
    using wf_entry_get [OF assms(1)] by blast
  note get = getWithSize_block [OF v(1), of pre "lpEncodeBacklen (length d) @ post"]
  show ?thesis
  proof (cases v)
    case (LP_Int x)
    then have x: "entry_val d = VInt x" using v(1) by (simp add: entry_val_def)
    then have i: "is_int64 x" using entry_val_int64 [OF assms(1)] by simp
    then have "ll2string intbuf 21 x = Some (ll_repr x @ 0 # drop (Suc (length (ll_repr x))) intbuf, length (ll_repr x))"
      using length_ll_repr [OF i] assms(2) by (intro ll2string_correct) auto
    then show ?thesis using get LP_Int x by (simp add: lpGet_def lp_entry_def val_bytes_def)
  next
    case (LP_Str q n)
    then have "mem_read d q n = Some (take n (drop q d))" using v(2) by (simp add: mem_read_def)
    then have "mem_read (pre @ d @ lpEncodeBacklen (length d) @ post) (length pre + q) n = Some (take n (drop q d))"
      by (rule mem_read_block)
    then show ?thesis using get LP_Str v(1) by (simp add: lpGet_def lp_entry_def val_bytes_def entry_val_def)
  qed
qed

lemma lp_size_insert: "lp_size (take i ds @ d # drop i ds) = lp_size ds + length (lp_entry d)"
  using lp_body_take_drop [of ds i] by (simp add: lp_size_def)

lemma length_lpEncodeInteger: "length (lpEncodeIntegerGetType v) \<le> 9"
  by (simp add: lpEncodeIntegerGetType_def Let_def)

lemma length_lp_encode: "length (lp_entry (lp_encode s)) \<le> length s + 14"
proof -
  have "length (lp_encode s) \<le> length s + 9"
    using length_lpEncodeInteger by (auto simp: lp_encode_def length_lpEncodeString trans_le_add2 split: option.split)
  then show ?thesis using length_backlen(2) [of "length (lp_encode s)"] by (simp add: length_lp_entry)
qed

lemma lp_size_update:
  assumes "i < length ds"
  shows "lp_size (ds[i := d]) \<le> lp_size ds + length (lp_entry d)"
proof -
  have "ds = take i ds @ ds ! i # drop (Suc i) ds" by (rule id_take_nth_drop [OF assms])
  then have "lp_size ds = 7 + length (lp_body (take i ds @ ds ! i # drop (Suc i) ds))" by (simp add: lp_size_def)
  then show ?thesis using assms by (simp add: lp_size_def upd_conv_take_nth_drop)
qed

text \<open>
  \<^bold>\<open>C19\<close>: encoding and decoding an element are inverse: whatever string is stored, as one of the six
  integer forms or the three string forms, and wherever its entry lies in the listpack, \<open>lpGet\<close>
  returns exactly that string.
\<close>

theorem lpGet_lp_encode:
  assumes "length s + 5 < 2 ^ 32" "21 \<le> length intbuf"
  shows "lpGet (pre @ lp_entry (lp_encode s) @ post) (length pre) intbuf = Some s"
  using lpGet_block [OF _ assms(2), of "lp_encode s"] lp_encode_wf [OF assms(1)] by simp

theorem lpGet_lp_encode_witness:
  "lpGet ([9, 9] @ lp_entry (lp_encode [45, 55, 48, 48]) @ [255]) (Suc (Suc 0)) (replicate 21 0) = Some [45, 55, 48, 48]"
  using lpGet_lp_encode [of "[45, 55, 48, 48]" "replicate 21 0" "[9, 9]" "[255]"] by simp

text \<open>
  \<^bold>\<open>C9\<close>: \<open>lpInsert\<close> edits the list of elements: on a well-formed listpack it inserts the element
  before or after entry \<open>i\<close>, replaces entry \<open>i\<close>, or (\<open>lpDelete\<close>) removes it, moving the tail inside
  the allocation; the result is well-formed again and \<open>newp\<close> points to the new element, for a deletion
  to the element that follows.
\<close>

theorem lpInsert_edits:
  assumes "alloc_ok al" "lp_rep lp ds" "i < length ds" "length s + 5 < 2 ^ 32" "lp_size ds + length s + 14 < 2 ^ 32"
  shows "(\<exists>lp'. lpInsert al lp (EleStr s) (lp_off ds i) LP_BEFORE = Some (Some (lp', Some (lp_off ds i)))
       \<and> lp_rep lp' (take i ds @ lp_encode s # drop i ds))
    \<and> (\<exists>lp'. lpInsert al lp (EleStr s) (lp_off ds i) LP_AFTER = Some (Some (lp', Some (lp_off ds (Suc i))))
       \<and> lp_rep lp' (take (Suc i) ds @ lp_encode s # drop (Suc i) ds))
    \<and> (\<exists>lp'. lpReplace al lp (lp_off ds i) s = Some (Some (lp', Some (lp_off ds i)))
       \<and> lp_rep lp' (ds[i := lp_encode s]))
    \<and> (\<exists>lp'. lpDelete al lp (lp_off ds i) = Some (Some (lp', lp_ptr (take i ds @ drop (Suc i) ds) i))
       \<and> lp_rep lp' (take i ds @ drop (Suc i) ds))"
proof -
  have wf: "wf_entry (lp_encode s)" using lp_encode_wf [OF assms(4)] by simp
  have d: "ele_data (EleStr s) = lp_encode s" by (simp add: ele_data_def)
  have fit: "lp_size ds + length (lp_entry (lp_encode s)) < 2 ^ 32" using length_lp_encode [of s] assms(5) by linarith
  have fit2: "lp_size (ds[i := lp_encode s]) < 2 ^ 32" using lp_size_update [OF assms(3), of "lp_encode s"] fit by linarith
  show ?thesis
    using lpInsert_before [OF assms(1,2), of i "EleStr s"] lpInsert_after [OF assms(1,2,3), of "EleStr s"]
      lpInsert_replace [OF assms(1,2,3), of "EleStr s"] lpDelete_off [OF assms(1,2,3)] wf d fit fit2 assms(3)
    by (simp add: lp_size_insert lpReplace_def)
qed

lemma lp_rep_example: "lp_rep [9, 0, 0, 0, 1, 0, 5, 1, 255] [[5]]"
proof -
  have eq: "lp_hdr (lp_size [[5]]) 1 @ lp_body [[5]] @ LP_EOF # [] = [9, 0, 0, 0, 1, 0, 5, 1, 255]" by code_simp
  have "list_all wf_entry [[5]]" "lp_size [[5]] < 2 ^ 32" "lp_num_ok 1 (length [[5 :: byte]])" by code_simp+
  then have "lp_rep (lp_hdr (lp_size [[5]]) 1 @ lp_body [[5]] @ LP_EOF # []) [[5]]" by (rule lp_repI)
  then show ?thesis by (simp only: eq)
qed

theorem lpInsert_edits_witness:
  "\<exists>lp'. lpInsert \<lparr>usable = (\<lambda>n. n), junk = (\<lambda>_. 0)\<rparr> [9, 0, 0, 0, 1, 0, 5, 1, 255] (EleStr [97]) 6 LP_BEFORE
      = Some (Some (lp', Some 6)) \<and> lp_rep lp' [lp_encode [97], [5]]"
proof -
  have "alloc_ok \<lparr>usable = (\<lambda>n. n), junk = (\<lambda>_. 0)\<rparr>" by (simp add: alloc_ok_def)
  moreover have "lp_size [[5]] = 9" by code_simp
  ultimately show ?thesis
    using lp_rep_example lpInsert_edits [of "\<lparr>usable = (\<lambda>n. n), junk = (\<lambda>_. 0)\<rparr>" "[9, 0, 0, 0, 1, 0, 5, 1, 255]" "[[5]]" 0 "[97]"] by simp
qed

text \<open>
  \<^bold>\<open>C20\<close>: walking a well-formed listpack. From entry \<open>i\<close>, \<open>lpNext\<close> reaches entry \<open>i + 1\<close> or reports the
  end, \<open>lpPrev\<close> reaches entry \<open>i - 1\<close> or reports the start, no assertion fails, and \<open>lpSeek\<close> finds the
  entry of any index, positive or negative, whichever end it starts from.
\<close>

theorem lp_walking:
  assumes "lp_rep lp ds" "i < length ds"
  shows "lpNext lp (lp_off ds i) = Some (lp_ptr ds (Suc i))
    \<and> lpPrev lp (lp_off ds i) = Some (if i = 0 then None else Some (lp_off ds (i - 1)))
    \<and> lpSeek lp index = Some (map_option (lp_off ds) (seek_index (length ds) index))"
  using lpNext_off [OF assms] lpPrev_off [OF assms(1), of i] lpSeek_rep [OF assms(1)] assms(2) by simp

theorem lp_walking_witness:
  "lpNext [9, 0, 0, 0, 1, 0, 5, 1, 255] 6 = Some None \<and> lpPrev [9, 0, 0, 0, 1, 0, 5, 1, 255] 6 = Some None
    \<and> lpSeek [9, 0, 0, 0, 1, 0, 5, 1, 255] (-1) = Some (Some 6)"
  using lp_walking [OF lp_rep_example, of 0 "-1"] by (simp add: lp_ptr_def seek_index_def)

text \<open>
  \<^bold>\<open>C21\<close>: \<open>lpFind\<close> returns the first entry, among every \<open>skip + 1\<close>-th one from the start entry on, whose
  string equals the searched string, and \<open>NULL\<close> if there is none. Comparing integers with the parsed
  string instead of their decimal representation makes no difference.
\<close>

theorem lpFind_correct:
  assumes "lp_rep lp ds" "k < length ds"
  shows "lpFind lp (lp_off ds k) s skip
    = Some (map_option (lp_off ds) (find_from (\<lambda>d. val_bytes (entry_val d) = s) skip 0 k (drop k ds)))"
  using lpFind_rep [OF assms, of s skip] by (simp add: entry_matches_def [abs_def])

theorem lpFind_correct_witness: "lpFind [9, 0, 0, 0, 1, 0, 5, 1, 255] 6 [53] 0 = Some (Some 6)"
proof -
  have "val_bytes (entry_val [5]) = [53]" by code_simp
  then show ?thesis using lpFind_correct [OF lp_rep_example, of 0 "[53]" 0] by simp
qed

text \<open>
  \<^bold>\<open>C22\<close>: deep validation is safe on every payload: whatever its bytes and whatever the entry callback
  answers, it terminates without reading outside. A payload it accepts can be traversed from the first
  entry to the terminator by \<open>lpNext\<close> and back by \<open>lpPrev\<close>, the two visiting the same entries without
  a failing assertion, and its header count is right.
\<close>

theorem lpValidateIntegrity_safe:
  assumes "length lp < 2 ^ 32"
  shows "\<exists>b. lpValidateIntegrity lp True cb ud = Some b \<and>
    (b \<longrightarrow> (\<exists>ps. hd ps = 6 \<and> last ps = length lp - 1
       \<and> (\<forall>i. Suc i < length ps \<longrightarrow>
            lpNext lp (ps ! i) = Some (if Suc (Suc i) < length ps then Some (ps ! Suc i) else None)
            \<and> lpPrev lp (ps ! Suc i) = Some (Some (ps ! i)) \<and> ps ! i < ps ! Suc i)
       \<and> (lpGetNumElements lp = 65535 \<or> lpGetNumElements lp = (length ps - 1) mod 2 ^ 32)))"
proof -
  obtain b where b: "lpValidateIntegrity lp True cb ud = Some b"
    "b \<longrightarrow> lpBytes lp = length lp \<and> (\<exists>ps. lp_chain lp (6 # ps) \<and> last (6 # ps) = length lp - 1
       \<and> (lpGetNumElements lp = LP_HDR_NUMELE_UNKNOWN \<or> lpGetNumElements lp = length ps mod 2 ^ 32))"
    using lpValidateIntegrity_total [OF assms, of cb ud] by (elim exE conjE)
  show ?thesis
  proof (intro exI [of _ b] conjI impI)
    assume b
    then obtain ps where ps: "lp_chain lp (6 # ps)" "last (6 # ps) = length lp - 1" "lpBytes lp = length lp"
       "lpGetNumElements lp = LP_HDR_NUMELE_UNKNOWN \<or> lpGetNumElements lp = length ps mod 2 ^ 32"
      using b(2) by blast
    then show "\<exists>ps. hd ps = 6 \<and> last ps = length lp - 1
       \<and> (\<forall>i. Suc i < length ps \<longrightarrow>
            lpNext lp (ps ! i) = Some (if Suc (Suc i) < length ps then Some (ps ! Suc i) else None)
            \<and> lpPrev lp (ps ! Suc i) = Some (Some (ps ! i)) \<and> ps ! i < ps ! Suc i)
       \<and> (lpGetNumElements lp = 65535 \<or> lpGetNumElements lp = (length ps - 1) mod 2 ^ 32)"
      using lp_chain_walk [OF ps(1,3)] by (intro exI [of _ "6 # ps"]) simp
  qed (rule b(1))
qed

theorem lpValidateIntegrity_safe_witness:
  "\<exists>b. lpValidateIntegrity [9, 0, 0, 0, 1, 0, 0xF3, 1, 255] True None () = Some b"
proof -
  have "length [9, 0, 0, 0, 1, 0, 0xF3, 1, 255 :: byte] < 2 ^ 32" by simp
  then show ?thesis using lpValidateIntegrity_safe [of "[9, 0, 0, 0, 1, 0, 0xF3, 1, 255]" None "()"] by blast
qed

text \<open>
  \<^bold>\<open>C23\<close>: every listpack the operations build is accepted: deep validation of a well-formed listpack
  returns 1.
\<close>

theorem lpValidateIntegrity_complete:
  assumes "lp_rep lp ds" "length lp = lp_size ds"
  shows "lpValidateIntegrity lp True None ud = Some True"
  using assms by (rule lpValidate_complete)

theorem lpValidateIntegrity_complete_witness:
  "lpValidateIntegrity [9, 0, 0, 0, 1, 0, 5, 1, 255] True None () = Some True"
proof -
  have "lp_size [[5]] = 9" by code_simp
  then show ?thesis using lpValidateIntegrity_complete [OF lp_rep_example, of "()"] by simp
qed

text \<open>
  \<^bold>\<open>C24\<close>: \<open>lpDeleteRange\<close> removes the \<open>num\<close> entries from \<open>index\<close> on (fewer at the end, none when the index is
  out of range), both on its fast path that only moves the terminator and on the general one; \<open>lpMerge\<close>
  concatenates two listpacks, whichever of the two is kept.
\<close>

theorem lp_range_and_merge:
  assumes "alloc_ok al" "lp_rep lp ds" "lp_rep lp2 es" "lp_size (ds @ es) < 2 ^ 32 - 1"
  shows "(\<exists>lp'. lpDeleteRange al lp index num = Some lp' \<and>
      lp_rep lp' (case seek_index (length ds) index of None \<Rightarrow> ds | Some i \<Rightarrow> take i ds @ drop (i + num) ds))
    \<and> (\<exists>lp' keep. lpMerge al lp lp2 = Some (lp', keep) \<and> lp_rep lp' (ds @ es))"
  using lpDeleteRange_rep [OF assms(1,2), of index num] lpMerge_rep [OF assms] unfolding del_range_def by simp

theorem lp_range_and_merge_witness:
  "\<exists>lp' keep. lpMerge \<lparr>usable = (\<lambda>n. n), junk = (\<lambda>_. 0)\<rparr> [9, 0, 0, 0, 1, 0, 5, 1, 255] [9, 0, 0, 0, 1, 0, 5, 1, 255]
     = Some (lp', keep) \<and> lp_rep lp' [[5], [5]]"
proof -
  have "lp_size ([[5]] @ [[5]]) < 2 ^ 32 - 1" by code_simp
  moreover have "alloc_ok \<lparr>usable = (\<lambda>n. n), junk = (\<lambda>_. 0)\<rparr>" by (simp add: alloc_ok_def)
  ultimately show ?thesis
    using lp_range_and_merge [OF _ lp_rep_example lp_rep_example, of "\<lparr>usable = (\<lambda>n. n), junk = (\<lambda>_. 0)\<rparr>"] by simp
qed

text \<open>
  \<^bold>\<open>C25\<close>: \<open>lpStringToInt64\<close>, the listpack's own copy of the parser, accepts the same strings with the
  same values as \<open>string2ll\<close>.
\<close>

theorem lpStringToInt64_string2ll: "lpStringToInt64 s = string2ll s"
  by (rule lpStringToInt64_eq)

end
