(* ===== verification/Dict.thy ===== *)
theory Dict
  imports Prelude
begin

text \<open>
  The hash tables of \<open>src/redis/redis-7.2.3/src/dict.c\<close>: chaining, sizes that are powers of two,
  incremental rehashing from table 0 to table 1, and the stateless scan with a reversed cursor.

  A table is its array of buckets (the empty list is the \<open>NULL\<close> table), a bucket the list of its
  entries in chain order. The three pointer encodings of an entry (allocated with or without value,
  or the bare key) are one and the same list element here. Reading a bucket outside the array is
  \<open>None\<close>. The callbacks of a dict type are the fields of a record; the entry counters are exact, so
  their \<open>unsigned long\<close> is a \<open>nat\<close>.
\<close>

section \<open>Data\<close>

record 'k dictType =
  hashFunction :: "'k \<Rightarrow> nat"
  keyCompare :: "'k \<Rightarrow> 'k \<Rightarrow> bool"
  expandAllowed :: "(nat \<Rightarrow> nat \<times> nat \<Rightarrow> bool) option"

datatype dictResizeEnable = DICT_RESIZE_ENABLE | DICT_RESIZE_AVOID | DICT_RESIZE_FORBID

type_synonym ('k, 'v) bucket = "('k \<times> 'v) list"

record ('k, 'v) dict =
  ht_table0 :: "('k, 'v) bucket list"
  ht_table1 :: "('k, 'v) bucket list"
  ht_used0 :: nat
  ht_used1 :: nat
  rehashidx :: int
  pauserehash :: int
  ht_size_exp0 :: int
  ht_size_exp1 :: int

text \<open>\<open>d->ht_table[t]\<close> and its companions, for the table index \<open>t\<close> (0 or 1).\<close>

definition ht_table :: "('k, 'v) dict \<Rightarrow> nat \<Rightarrow> ('k, 'v) bucket list" where
  "ht_table d t = (if t = 0 then ht_table0 d else ht_table1 d)"

definition ht_used :: "('k, 'v) dict \<Rightarrow> nat \<Rightarrow> nat" where
  "ht_used d t = (if t = 0 then ht_used0 d else ht_used1 d)"

definition ht_size_exp :: "('k, 'v) dict \<Rightarrow> nat \<Rightarrow> int" where
  "ht_size_exp d t = (if t = 0 then ht_size_exp0 d else ht_size_exp1 d)"

definition set_table :: "nat \<Rightarrow> ('k, 'v) bucket list \<Rightarrow> ('k, 'v) dict \<Rightarrow> ('k, 'v) dict" where
  "set_table t tab d = (if t = 0 then d\<lparr>ht_table0 := tab\<rparr> else d\<lparr>ht_table1 := tab\<rparr>)"

definition set_used :: "nat \<Rightarrow> nat \<Rightarrow> ('k, 'v) dict \<Rightarrow> ('k, 'v) dict" where
  "set_used t n d = (if t = 0 then d\<lparr>ht_used0 := n\<rparr> else d\<lparr>ht_used1 := n\<rparr>)"

definition DICTHT_SIZE :: "int \<Rightarrow> nat" where
  "DICTHT_SIZE exp = (if exp = -1 then 0 else 2 ^ nat exp)"

definition DICTHT_SIZE_MASK :: "int \<Rightarrow> nat" where
  "DICTHT_SIZE_MASK exp = (if exp = -1 then 0 else DICTHT_SIZE exp - 1)"

definition dictSlots :: "('k, 'v) dict \<Rightarrow> nat" where
  "dictSlots d = DICTHT_SIZE (ht_size_exp0 d) + DICTHT_SIZE (ht_size_exp1 d)"

definition dictSize :: "('k, 'v) dict \<Rightarrow> nat" where
  "dictSize d = ht_used0 d + ht_used1 d"

definition dictIsRehashing :: "('k, 'v) dict \<Rightarrow> bool" where
  "dictIsRehashing d \<longleftrightarrow> rehashidx d \<noteq> -1"

text \<open>\<open>key == he_key || dictCompareKeys(d, key, he_key)\<close>: the same object is an equal key.\<close>

definition key_match :: "'k dictType \<Rightarrow> 'k \<Rightarrow> 'k \<Rightarrow> bool" where
  "key_match T key he_key \<longleftrightarrow> key = he_key \<or> keyCompare T key he_key"

section \<open>Creation and resizing\<close>

definition i_dictReset :: "nat \<Rightarrow> ('k, 'v) dict \<Rightarrow> ('k, 'v) dict" where
  "i_dictReset t d =
     (if t = 0 then d\<lparr>ht_table0 := [], ht_size_exp0 := -1, ht_used0 := 0\<rparr>
      else d\<lparr>ht_table1 := [], ht_size_exp1 := -1, ht_used1 := 0\<rparr>)"

definition dictCreate :: "('k, 'v) dict" where
  "dictCreate =
     \<lparr>ht_table0 = [], ht_table1 = [], ht_used0 = 0, ht_used1 = 0, rehashidx = -1, pauserehash = 0,
      ht_size_exp0 = -1, ht_size_exp1 = -1\<rparr>"

function i_dictNextExp_loop :: "nat \<Rightarrow> nat \<Rightarrow> nat" where
  "i_dictNextExp_loop n e = (if 2 ^ e \<ge> n then e else i_dictNextExp_loop n (e + 1))"
  by pat_completeness auto
termination
  by (relation "measure (\<lambda>(n, e). n - 2 ^ e)") (auto simp: diff_less_mono2)

declare i_dictNextExp_loop.simps [simp del]

definition i_dictNextExp :: "nat \<Rightarrow> nat" where
  "i_dictNextExp n = (if n \<ge> 2 ^ 63 - 1 then 63 else i_dictNextExp_loop n 2)"

text \<open>
  \<open>_dictExpand\<close>: \<open>True\<close> is \<open>DICT_OK\<close>. \<open>calloc_ok\<close> tells whether \<open>ztrycalloc\<close> succeeds in the variant that
  may fail; the other one panics instead, and is called with \<open>True\<close>.
\<close>

definition i_dictExpand :: "bool \<Rightarrow> ('k, 'v) dict \<Rightarrow> nat \<Rightarrow> ('k, 'v) dict \<times> bool" where
  "i_dictExpand calloc_ok d sz =
     (if dictIsRehashing d \<or> ht_used0 d > sz then (d, False)
      else
        let new_exp = i_dictNextExp sz; newsize = 2 ^ new_exp in
        if newsize < sz \<or> (newsize * 8) mod 2 ^ 64 < newsize then (d, False)
        else if int new_exp = ht_size_exp0 d then (d, False)
        else if \<not> calloc_ok then (d, False)
        else
          let new_table = replicate newsize [] in
          if ht_table0 d = [] then
            (d\<lparr>ht_size_exp0 := int new_exp, ht_used0 := 0, ht_table0 := new_table\<rparr>, True)
          else
            (d\<lparr>ht_size_exp1 := int new_exp, ht_used1 := 0, ht_table1 := new_table, rehashidx := 0\<rparr>, True))"

definition dictExpand :: "('k, 'v) dict \<Rightarrow> nat \<Rightarrow> ('k, 'v) dict \<times> bool" where
  "dictExpand d sz = i_dictExpand True d sz"

text \<open>\<open>dictTryExpand\<close> only reports an allocation failure.\<close>

definition dictTryExpand :: "bool \<Rightarrow> ('k, 'v) dict \<Rightarrow> nat \<Rightarrow> ('k, 'v) dict \<times> bool" where
  "dictTryExpand calloc_ok d sz =
     (let reaches_calloc = snd (i_dictExpand True d sz)
      in (fst (i_dictExpand calloc_ok d sz), \<not> (reaches_calloc \<and> \<not> calloc_ok)))"

definition dictResize :: "dictResizeEnable \<Rightarrow> ('k, 'v) dict \<Rightarrow> ('k, 'v) dict \<times> bool" where
  "dictResize can_resize d =
     (if can_resize \<noteq> DICT_RESIZE_ENABLE \<or> dictIsRehashing d then (d, False)
      else
        let minimal = ht_used0 d; minimal = (if minimal < 4 then 4 else minimal)
        in dictExpand d minimal)"

definition dictTypeExpandAllowed :: "'k dictType \<Rightarrow> ('k, 'v) dict \<Rightarrow> bool" where
  "dictTypeExpandAllowed T d =
     (case expandAllowed T of
        None \<Rightarrow> True
      | Some f \<Rightarrow> f (2 ^ i_dictNextExp (ht_used0 d + 1) * 8) (ht_used0 d, DICTHT_SIZE (ht_size_exp0 d)))"

abbreviation (input) dict_force_resize_ratio :: nat where "dict_force_resize_ratio \<equiv> 5"

definition i_dictExpandIfNeeded :: "'k dictType \<Rightarrow> dictResizeEnable \<Rightarrow> ('k, 'v) dict \<Rightarrow> ('k, 'v) dict \<times> bool" where
  "i_dictExpandIfNeeded T can_resize d =
     (if dictIsRehashing d then (d, True)
      else if DICTHT_SIZE (ht_size_exp0 d) = 0 then dictExpand d 4
      else if \<not> dictTypeExpandAllowed T d then (d, True)
      else if can_resize = DICT_RESIZE_ENABLE \<and> ht_used0 d \<ge> DICTHT_SIZE (ht_size_exp0 d)
           \<or> can_resize \<noteq> DICT_RESIZE_FORBID
             \<and> ht_used0 d div DICTHT_SIZE (ht_size_exp0 d) > dict_force_resize_ratio
      then dictExpand d (ht_used0 d + 1)
      else (d, True))"

section \<open>Incremental rehashing\<close>

text \<open>
  The inner loop that skips empty buckets: \<open>Inl\<close> when \<open>empty_visits\<close> is used up, \<open>Inr\<close> at the first
  non-empty bucket; both with the index reached.
\<close>

fun skip_empty :: "('k, 'v) bucket list \<Rightarrow> nat \<Rightarrow> nat \<Rightarrow> (nat + nat \<times> nat) option" where
  "skip_empty tab idx visits =
     (case mem_get tab idx of
        None \<Rightarrow> None
      | Some b \<Rightarrow>
          if b \<noteq> [] then Some (Inr (idx, visits))
          else (case visits of
                  0 \<Rightarrow> None
                | Suc v \<Rightarrow> if v = 0 then Some (Inl (idx + 1)) else skip_empty tab (idx + 1) v))"

declare skip_empty.simps [simp del]

text \<open>Moving all entries of a bucket, each to the head of its new chain.\<close>

fun move_bucket :: "'k dictType \<Rightarrow> ('k, 'v) bucket \<Rightarrow> ('k, 'v) dict \<Rightarrow> ('k, 'v) dict option" where
  "move_bucket T [] d = Some d"
| "move_bucket T (de # es) d =
     (let h = (if ht_size_exp1 d > ht_size_exp0 d
               then hashFunction T (fst de) AND DICTHT_SIZE_MASK (ht_size_exp1 d)
               else nat (rehashidx d) AND DICTHT_SIZE_MASK (ht_size_exp1 d))
      in do { b \<leftarrow> mem_get (ht_table1 d) h;
              move_bucket T es
                (d\<lparr>ht_table1 := (ht_table1 d)[h := de # b],
                   ht_used0 := ht_used0 d - 1, ht_used1 := ht_used1 d + 1\<rparr>) })"

text \<open>\<open>Inl\<close>: \<open>return 1\<close> from inside the loop.\<close>

fun rehash_loop :: "'k dictType \<Rightarrow> nat \<Rightarrow> nat \<Rightarrow> ('k, 'v) dict \<Rightarrow> (('k, 'v) dict + ('k, 'v) dict) option" where
  "rehash_loop T 0 visits d = Some (Inr d)"
| "rehash_loop T (Suc n) visits d =
     (if ht_used0 d = 0 then Some (Inr d)
      else
        do { c_assert (int (DICTHT_SIZE (ht_size_exp0 d)) > rehashidx d);
             r \<leftarrow> skip_empty (ht_table0 d) (nat (rehashidx d)) visits;
             (case r of
                Inl idx \<Rightarrow> Some (Inl (d\<lparr>rehashidx := int idx\<rparr>))
              | Inr (idx, visits) \<Rightarrow>
                  do { d' \<leftarrow> move_bucket T (ht_table0 d ! idx) (d\<lparr>rehashidx := int idx\<rparr>);
                       rehash_loop T n visits
                         (d'\<lparr>ht_table0 := (ht_table0 d')[idx := []], rehashidx := int idx + 1\<rparr>) }) })"

definition dictRehash :: "'k dictType \<Rightarrow> dictResizeEnable \<Rightarrow> ('k, 'v) dict \<Rightarrow> nat \<Rightarrow> (('k, 'v) dict \<times> bool) option" where
  "dictRehash T can_resize d n =
     (let s0 = DICTHT_SIZE (ht_size_exp0 d); s1 = DICTHT_SIZE (ht_size_exp1 d) in
      if can_resize = DICT_RESIZE_FORBID \<or> \<not> dictIsRehashing d then Some (d, False)
      else if can_resize = DICT_RESIZE_AVOID
           \<and> (s1 > s0 \<and> s1 div s0 < dict_force_resize_ratio \<or> s1 < s0 \<and> s0 div s1 < dict_force_resize_ratio)
      then Some (d, False)
      else
        do { r \<leftarrow> rehash_loop T n (n * 10) d;
             Some (case r of
                     Inl d \<Rightarrow> (d, True)
                   | Inr d \<Rightarrow>
                       if ht_used0 d = 0 then
                         ((i_dictReset 1 (d\<lparr>ht_table0 := ht_table1 d, ht_used0 := ht_used1 d,
                                            ht_size_exp0 := ht_size_exp1 d\<rparr>))\<lparr>rehashidx := -1\<rparr>, False)
                       else (d, True)) })"

definition i_dictRehashStep :: "'k dictType \<Rightarrow> dictResizeEnable \<Rightarrow> ('k, 'v) dict \<Rightarrow> ('k, 'v) dict option" where
  "i_dictRehashStep T can_resize d =
     (if pauserehash d = 0 then map_option fst (dictRehash T can_resize d 1) else Some d)"

text \<open>\<open>clock\<close> lists the readings \<open>timeInMilliseconds()-start\<close>, one per round; a round without a reading
  does not happen.\<close>

fun rehash_ms_loop :: "'k dictType \<Rightarrow> dictResizeEnable \<Rightarrow> int list \<Rightarrow> int \<Rightarrow> ('k, 'v) dict \<Rightarrow> nat \<Rightarrow> (('k, 'v) dict \<times> nat) option" where
  "rehash_ms_loop T can_resize [] ms d rehashes = None"
| "rehash_ms_loop T can_resize (now # clock) ms d rehashes =
     do { (d, more) \<leftarrow> dictRehash T can_resize d 100;
          (if \<not> more then Some (d, rehashes)
           else if now > ms then Some (d, rehashes + 100)
           else rehash_ms_loop T can_resize clock ms d (rehashes + 100)) }"

definition dictRehashMilliseconds ::
  "'k dictType \<Rightarrow> dictResizeEnable \<Rightarrow> int list \<Rightarrow> ('k, 'v) dict \<Rightarrow> int \<Rightarrow> (('k, 'v) dict \<times> nat) option" where
  "dictRehashMilliseconds T can_resize clock d ms =
     (if pauserehash d > 0 then Some (d, 0) else rehash_ms_loop T can_resize clock ms d 0)"

section \<open>Lookup, insertion, deletion\<close>

text \<open>A reference to an entry: table, bucket, position in the chain.\<close>

type_synonym entry_ref = "nat \<times> nat \<times> nat"

fun chain_find :: "'k dictType \<Rightarrow> 'k \<Rightarrow> ('k, 'v) bucket \<Rightarrow> nat option" where
  "chain_find T key [] = None"
| "chain_find T key (he # es) =
     (if key_match T key (fst he) then Some 0 else map_option Suc (chain_find T key es))"

text \<open>
  The loop over the tables shared by lookups: the entry if it is found, and the index of the last
  bucket looked at.
\<close>

definition find_in_table :: "'k dictType \<Rightarrow> ('k, 'v) dict \<Rightarrow> nat \<Rightarrow> 'k \<Rightarrow> (entry_ref option \<times> nat) option" where
  "find_in_table T d t key =
     (let idx = hashFunction T key AND DICTHT_SIZE_MASK (ht_size_exp d t) in
      do { b \<leftarrow> mem_get (ht_table d t) idx;
           Some (map_option (\<lambda>pos. (t, idx, pos)) (chain_find T key b), idx) })"

definition find_entry :: "'k dictType \<Rightarrow> ('k, 'v) dict \<Rightarrow> 'k \<Rightarrow> (entry_ref option \<times> nat) option" where
  "find_entry T d key =
     do { (r, idx) \<leftarrow> find_in_table T d 0 key;
          (if r \<noteq> None \<or> \<not> dictIsRehashing d then Some (r, idx) else find_in_table T d 1 key) }"

definition rehash_step_if :: "'k dictType \<Rightarrow> dictResizeEnable \<Rightarrow> ('k, 'v) dict \<Rightarrow> ('k, 'v) dict option" where
  "rehash_step_if T can_resize d =
     (if dictIsRehashing d then i_dictRehashStep T can_resize d else Some d)"

definition dictFind :: "'k dictType \<Rightarrow> dictResizeEnable \<Rightarrow> ('k, 'v) dict \<Rightarrow> 'k \<Rightarrow> (('k, 'v) dict \<times> entry_ref option) option" where
  "dictFind T can_resize d key =
     (if dictSize d = 0 then Some (d, None)
      else
        do { d \<leftarrow> rehash_step_if T can_resize d;
             (r, _) \<leftarrow> find_entry T d key;
             Some (d, r) })"

definition get_entry :: "('k, 'v) dict \<Rightarrow> entry_ref \<Rightarrow> ('k \<times> 'v) option" where
  "get_entry d = (\<lambda>(t, idx, pos). do { b \<leftarrow> mem_get (ht_table d t) idx; mem_get b pos })"

definition dictGetVal :: "('k, 'v) dict \<Rightarrow> entry_ref \<Rightarrow> 'v option" where
  "dictGetVal d r = map_option snd (get_entry d r)"

definition dictSetVal :: "('k, 'v) dict \<Rightarrow> entry_ref \<Rightarrow> 'v \<Rightarrow> ('k, 'v) dict option" where
  "dictSetVal d r val = (case r of (t, idx, pos) \<Rightarrow>
     do { b \<leftarrow> mem_get (ht_table d t) idx;
          e \<leftarrow> mem_get b pos;
          Some (set_table t ((ht_table d t)[idx := b[pos := (fst e, val)]]) d) })"

definition dictFetchValue :: "'k dictType \<Rightarrow> dictResizeEnable \<Rightarrow> ('k, 'v) dict \<Rightarrow> 'k \<Rightarrow> (('k, 'v) dict \<times> 'v option) option" where
  "dictFetchValue T can_resize d key =
     do { (d, r) \<leftarrow> dictFind T can_resize d key;
          (case r of
             None \<Rightarrow> Some (d, None)
           | Some r \<Rightarrow> do { v \<leftarrow> dictGetVal d r; Some (d, Some v) }) }"

text \<open>
  \<open>dictFindPositionForInsert\<close>: the bucket to insert into, or \<open>NULL\<close> (\<open>Inl\<close>) with the existing entry if
  that is the reason.
\<close>

definition dictFindPositionForInsert ::
  "'k dictType \<Rightarrow> dictResizeEnable \<Rightarrow> ('k, 'v) dict \<Rightarrow> 'k \<Rightarrow> (('k, 'v) dict \<times> (entry_ref option + nat \<times> nat)) option" where
  "dictFindPositionForInsert T can_resize d key =
     do { d \<leftarrow> rehash_step_if T can_resize d;
          (case i_dictExpandIfNeeded T can_resize d of
             (d, False) \<Rightarrow> Some (d, Inl None)
           | (d, True) \<Rightarrow>
               do { (r, idx) \<leftarrow> find_entry T d key;
                    Some (d, case r of
                               Some r \<Rightarrow> Inl (Some r)
                             | None \<Rightarrow> Inr (if dictIsRehashing d then 1 else 0, idx)) }) }"

text \<open>The value of a fresh entry is indeterminate, given by \<open>v0\<close>; \<open>keyDup\<close> copies the key.\<close>

definition dictInsertAtPosition :: "('k, 'v) dict \<Rightarrow> 'k \<Rightarrow> 'v \<Rightarrow> nat \<times> nat \<Rightarrow> (('k, 'v) dict \<times> entry_ref) option" where
  "dictInsertAtPosition d key v0 position = (case position of (t, idx) \<Rightarrow>
     (let htidx = (if dictIsRehashing d then 1 else 0) in
      do { c_assert (t = htidx \<and> idx \<le> DICTHT_SIZE_MASK (ht_size_exp d htidx));
           b \<leftarrow> mem_get (ht_table d htidx) idx;
           Some (set_used htidx (ht_used d htidx + 1)
                   (set_table htidx ((ht_table d htidx)[idx := (key, v0) # b]) d),
                 (htidx, idx, 0)) }))"

text \<open>The entry added (\<open>Inr\<close>), or \<open>NULL\<close> with the existing entry (\<open>Inl\<close>).\<close>

definition dictAddRaw :: "'k dictType \<Rightarrow> dictResizeEnable \<Rightarrow> ('k, 'v) dict \<Rightarrow> 'k \<Rightarrow> 'v
    \<Rightarrow> (('k, 'v) dict \<times> (entry_ref option + entry_ref)) option" where
  "dictAddRaw T can_resize d key v0 =
     do { (d, position) \<leftarrow> dictFindPositionForInsert T can_resize d key;
          (case position of
             Inl existing \<Rightarrow> Some (d, Inl existing)
           | Inr p \<Rightarrow> do { (d, r) \<leftarrow> dictInsertAtPosition d key v0 p; Some (d, Inr r) }) }"

definition dictAdd :: "'k dictType \<Rightarrow> dictResizeEnable \<Rightarrow> 'v \<Rightarrow> ('k, 'v) dict \<Rightarrow> 'k \<Rightarrow> 'v \<Rightarrow> (('k, 'v) dict \<times> bool) option" where
  "dictAdd T can_resize v0 d key val =
     do { (d, entry) \<leftarrow> dictAddRaw T can_resize d key v0;
          (case entry of
             Inl _ \<Rightarrow> Some (d, False)
           | Inr r \<Rightarrow> do { d \<leftarrow> dictSetVal d r val; Some (d, True) }) }"

definition dictReplace :: "'k dictType \<Rightarrow> dictResizeEnable \<Rightarrow> 'v \<Rightarrow> ('k, 'v) dict \<Rightarrow> 'k \<Rightarrow> 'v \<Rightarrow> (('k, 'v) dict \<times> bool) option" where
  "dictReplace T can_resize v0 d key val =
     do { (d, entry) \<leftarrow> dictAddRaw T can_resize d key v0;
          (case entry of
             Inr r \<Rightarrow> do { d \<leftarrow> dictSetVal d r val; Some (d, True) }
           | Inl (Some r) \<Rightarrow> do { d \<leftarrow> dictSetVal d r val; Some (d, False) }
           | Inl None \<Rightarrow> None) }"

definition dictAddOrFind :: "'k dictType \<Rightarrow> dictResizeEnable \<Rightarrow> 'v \<Rightarrow> ('k, 'v) dict \<Rightarrow> 'k \<Rightarrow> (('k, 'v) dict \<times> entry_ref option) option" where
  "dictAddOrFind T can_resize v0 d key =
     do { (d, entry) \<leftarrow> dictAddRaw T can_resize d key v0;
          Some (d, case entry of Inr r \<Rightarrow> Some r | Inl existing \<Rightarrow> existing) }"

definition unlink_entry :: "('k, 'v) dict \<Rightarrow> entry_ref \<Rightarrow> (('k, 'v) dict \<times> 'k \<times> 'v) option" where
  "unlink_entry d r = (case r of (t, idx, pos) \<Rightarrow>
     do { b \<leftarrow> mem_get (ht_table d t) idx;
          e \<leftarrow> mem_get b pos;
          Some (set_used t (ht_used d t - 1)
                  (set_table t ((ht_table d t)[idx := take pos b @ drop (Suc pos) b]) d), e) })"

definition dictGenericDelete :: "'k dictType \<Rightarrow> dictResizeEnable \<Rightarrow> ('k, 'v) dict \<Rightarrow> 'k
    \<Rightarrow> (('k, 'v) dict \<times> ('k \<times> 'v) option) option" where
  "dictGenericDelete T can_resize d key =
     (if dictSize d = 0 then Some (d, None)
      else
        do { d \<leftarrow> rehash_step_if T can_resize d;
             (r, _) \<leftarrow> find_entry T d key;
             (case r of
                None \<Rightarrow> Some (d, None)
              | Some r \<Rightarrow> do { (d, e) \<leftarrow> unlink_entry d r; Some (d, Some e) }) })"

definition dictDelete :: "'k dictType \<Rightarrow> dictResizeEnable \<Rightarrow> ('k, 'v) dict \<Rightarrow> 'k \<Rightarrow> (('k, 'v) dict \<times> bool) option" where
  "dictDelete T can_resize d key =
     map_option (\<lambda>(d, e). (d, e \<noteq> None)) (dictGenericDelete T can_resize d key)"

definition dictUnlink :: "'k dictType \<Rightarrow> dictResizeEnable \<Rightarrow> ('k, 'v) dict \<Rightarrow> 'k \<Rightarrow> (('k, 'v) dict \<times> ('k \<times> 'v) option) option" where
  "dictUnlink T can_resize d key = dictGenericDelete T can_resize d key"

text \<open>Rehashing is paused between the two phases, so the reference stays valid.\<close>

definition dictTwoPhaseUnlinkFind :: "'k dictType \<Rightarrow> dictResizeEnable \<Rightarrow> ('k, 'v) dict \<Rightarrow> 'k
    \<Rightarrow> (('k, 'v) dict \<times> entry_ref option) option" where
  "dictTwoPhaseUnlinkFind T can_resize d key =
     (if dictSize d = 0 then Some (d, None)
      else
        do { d \<leftarrow> rehash_step_if T can_resize d;
             (r, _) \<leftarrow> find_entry T d key;
             Some (if r = None then d else d\<lparr>pauserehash := pauserehash d + 1\<rparr>, r) })"

definition dictTwoPhaseUnlinkFree :: "('k, 'v) dict \<Rightarrow> entry_ref option \<Rightarrow> ('k, 'v) dict option" where
  "dictTwoPhaseUnlinkFree d r =
     (case r of
        None \<Rightarrow> Some d
      | Some r \<Rightarrow> do { (d, _) \<leftarrow> unlink_entry d r; Some (d\<lparr>pauserehash := pauserehash d - 1\<rparr>) })"

definition dictEmpty :: "('k, 'v) dict \<Rightarrow> ('k, 'v) dict" where
  "dictEmpty d = (i_dictReset 1 (i_dictReset 0 d))\<lparr>rehashidx := -1, pauserehash := 0\<rparr>"

section \<open>Scanning\<close>

type_synonym ulong = "64 word"

text \<open>The bit reversal by swapping blocks of 32, 16, ..., 1 bits.\<close>

function rev_loop :: "nat \<Rightarrow> ulong \<Rightarrow> ulong \<Rightarrow> ulong" where
  "rev_loop s msk v =
     (let s = s div 2 in
      if s > 0 then
        let msk = msk XOR push_bit s msk;
            v = (drop_bit s v AND msk) OR (push_bit s v AND NOT msk)
        in rev_loop s msk v
      else v)"
  by pat_completeness auto
termination
  by (relation "measure (\<lambda>(s, _, _). s)") auto

declare rev_loop.simps [simp del]

definition dict_rev :: "ulong \<Rightarrow> ulong" where
  "dict_rev v = rev_loop 64 (NOT 0) v"

text \<open>\<open>v |= ~m; v = rev(v); v++; v = rev(v);\<close>\<close>

definition cursor_next :: "ulong \<Rightarrow> ulong \<Rightarrow> ulong" where
  "cursor_next m v = dict_rev (dict_rev (v OR NOT m) + 1)"

definition exp_mask :: "int \<Rightarrow> ulong" where
  "exp_mask exp = of_nat (DICTHT_SIZE_MASK exp)"

text \<open>
  The \<open>do ... while\<close> loop over the expansions of the cursor in the larger table; a state is the
  cursor and the entries emitted so far.
\<close>

definition scan_expand_step :: "('k, 'v) bucket list \<Rightarrow> ulong \<Rightarrow> ulong \<Rightarrow> ulong \<times> ('k \<times> 'v) list
    \<Rightarrow> ((ulong \<times> ('k \<times> 'v) list) + (ulong \<times> ('k \<times> 'v) list)) option" where
  "scan_expand_step tab m0 m1 = (\<lambda>(v, out).
     do { b \<leftarrow> mem_get tab (unat (v AND m1));
          let v = cursor_next m1 v
          in Some (if v AND (m0 XOR m1) \<noteq> 0 then Inr (v, out @ b) else Inl (v, out @ b)) })"

text \<open>
  \<open>dictScan\<close>: the next cursor and the entries passed to \<open>fn\<close>, in order. The callback may look
  at the dict but not resize it (rehashing is paused around it), so the dict itself is unchanged.
\<close>

definition dictScan :: "('k, 'v) dict \<Rightarrow> ulong \<Rightarrow> (ulong \<times> ('k \<times> 'v) list) option" where
  "dictScan d v =
     (if dictSize d = 0 then Some (0, [])
      else if \<not> dictIsRehashing d then
        let m0 = exp_mask (ht_size_exp0 d) in
        do { b \<leftarrow> mem_get (ht_table0 d) (unat (v AND m0)); Some (cursor_next m0 v, b) }
      else
        let swap = (DICTHT_SIZE (ht_size_exp0 d) > DICTHT_SIZE (ht_size_exp1 d));
            htidx0 = (if swap then 1 else 0); htidx1 = (if swap then 0 else 1);
            m0 = exp_mask (ht_size_exp d htidx0); m1 = exp_mask (ht_size_exp d htidx1)
        in do { b \<leftarrow> mem_get (ht_table d htidx0) (unat (v AND m0));
                c_loop (scan_expand_step (ht_table d htidx1) m0 m1) (v, b) })"

section \<open>Iterators\<close>

text \<open>A safe iterator: table, bucket index, and the rest of the chain that is being returned.\<close>

record ('k, 'v) dictIterator =
  iter_table :: nat
  iter_index :: int
  iter_chain :: "('k \<times> 'v) list"

definition dictInitIterator :: "('k, 'v) dictIterator" where
  "dictInitIterator = \<lparr>iter_table = 0, iter_index = -1, iter_chain = []\<rparr>"

definition dictNext_step :: "('k, 'v) dict \<times> ('k, 'v) dictIterator
    \<Rightarrow> ((('k, 'v) dict \<times> ('k, 'v) dictIterator \<times> ('k \<times> 'v) option) + ('k, 'v) dict \<times> ('k, 'v) dictIterator) option" where
  "dictNext_step = (\<lambda>(d, it).
     case iter_chain it of
       e # es \<Rightarrow> Some (Inl (d, it\<lparr>iter_chain := es\<rparr>, Some e))
     | [] \<Rightarrow>
         let d = (if iter_index it = -1 \<and> iter_table it = 0 then d\<lparr>pauserehash := pauserehash d + 1\<rparr> else d);
             index = iter_index it + 1;
             over = (index \<ge> int (DICTHT_SIZE (ht_size_exp d (iter_table it))))
         in if over \<and> \<not> (dictIsRehashing d \<and> iter_table it = 0) then
              Some (Inl (d, it\<lparr>iter_index := index\<rparr>, None))
            else
              let table = (if over then 1 else iter_table it); index = (if over then 0 else index)
              in do { b \<leftarrow> mem_get (ht_table d table) (nat index);
                      Some (Inr (d, \<lparr>iter_table = table, iter_index = index, iter_chain = b\<rparr>)) })"

definition dictNext :: "('k, 'v) dict \<Rightarrow> ('k, 'v) dictIterator
    \<Rightarrow> (('k, 'v) dict \<times> ('k, 'v) dictIterator \<times> ('k \<times> 'v) option) option" where
  "dictNext d it = c_loop dictNext_step (d, it)"

definition dictResetIterator :: "('k, 'v) dict \<Rightarrow> ('k, 'v) dictIterator \<Rightarrow> ('k, 'v) dict" where
  "dictResetIterator d it =
     (if \<not> (iter_index it = -1 \<and> iter_table it = 0) then d\<lparr>pauserehash := pauserehash d - 1\<rparr> else d)"

end
