(* ===== verification/Map_Interface.thy ===== *)
theory Map_Interface
  imports Prelude
begin

text \<open>
  The contract of a mutable finite map whose keys are compared by a relation of their own: adding
  fails on an existing key, replacing never does, deleting and reading tell whether the key was there.
  Growing is guaranteed to succeed while the size is below a capacity. The hash tables of \<open>dict.c\<close> are
  an instance.
\<close>

datatype ('k, 'v) map_op = MAdd 'k 'v | MReplace 'k 'v | MDel 'k | MGet 'k

datatype 'v map_res = RFlag bool | RVal "'v option"

definition upd_by :: "('k \<Rightarrow> 'k \<Rightarrow> bool) \<Rightarrow> ('k \<Rightarrow> 'v option) \<Rightarrow> 'k \<Rightarrow> 'v \<Rightarrow> 'k \<Rightarrow> 'v option" where
  "upd_by eq m k v = (\<lambda>k'. if eq k' k then Some v else m k')"

definition del_by :: "('k \<Rightarrow> 'k \<Rightarrow> bool) \<Rightarrow> ('k \<Rightarrow> 'v option) \<Rightarrow> 'k \<Rightarrow> 'k \<Rightarrow> 'v option" where
  "del_by eq m k = (\<lambda>k'. if eq k' k then None else m k')"

text \<open>One operation, and a sequence of them, on mathematical maps.\<close>

fun spec_map_op :: "('k \<Rightarrow> 'k \<Rightarrow> bool) \<Rightarrow> ('k \<Rightarrow> 'v option) \<Rightarrow> ('k, 'v) map_op \<Rightarrow> ('k \<Rightarrow> 'v option) \<times> 'v map_res" where
  "spec_map_op eq m (MAdd k v) = (if m k = None then upd_by eq m k v else m, RFlag (m k = None))"
| "spec_map_op eq m (MReplace k v) = (upd_by eq m k v, RFlag (m k = None))"
| "spec_map_op eq m (MDel k) = (del_by eq m k, RFlag (m k \<noteq> None))"
| "spec_map_op eq m (MGet k) = (m, RVal (m k))"

fun spec_map_ops :: "('k \<Rightarrow> 'k \<Rightarrow> bool) \<Rightarrow> ('k \<Rightarrow> 'v option) \<Rightarrow> ('k, 'v) map_op list \<Rightarrow> ('k \<Rightarrow> 'v option) \<times> 'v map_res list" where
  "spec_map_ops eq m [] = (m, [])"
| "spec_map_ops eq m (op # ops) =
     (case spec_map_op eq m op of (m, r) \<Rightarrow> case spec_map_ops eq m ops of (m, rs) \<Rightarrow> (m, r # rs))"

fun run_map_ops :: "('s \<Rightarrow> ('k, 'v) map_op \<Rightarrow> ('s \<times> 'v map_res) option) \<Rightarrow> 's \<Rightarrow> ('k, 'v) map_op list
    \<Rightarrow> ('s \<times> 'v map_res list) option" where
  "run_map_ops step s [] = Some (s, [])"
| "run_map_ops step s (op # ops) =
     do { (s, r) \<leftarrow> step s op; (s, rs) \<leftarrow> run_map_ops step s ops; Some (s, r # rs) }"

locale map_adt =
  fixes ok :: "'s \<Rightarrow> bool"
    and abs :: "'s \<Rightarrow> 'k \<Rightarrow> 'v option"
    and eq :: "'k \<Rightarrow> 'k \<Rightarrow> bool"
    and ssize :: "'s \<Rightarrow> nat"
    and cap :: nat
    and step :: "'s \<Rightarrow> ('k, 'v) map_op \<Rightarrow> ('s \<times> 'v map_res) option"
  assumes step_correct: "ok s \<Longrightarrow> ssize s < cap \<Longrightarrow>
      \<exists>s' r. step s op = Some (s', r) \<and> ok s' \<and> spec_map_op eq (abs s) op = (abs s', r) \<and> ssize s' \<le> ssize s + 1"
begin

lemma run_map_ops_refines:
  "ok s \<Longrightarrow> ssize s + length ops \<le> cap \<Longrightarrow>
     \<exists>s' rs. run_map_ops step s ops = Some (s', rs) \<and> ok s' \<and> spec_map_ops eq (abs s) ops = (abs s', rs)
       \<and> ssize s' \<le> ssize s + length ops"
proof (induction ops arbitrary: s)
  case (Cons op ops)
  obtain s1 r where s1: "step s op = Some (s1, r)" "ok s1" "spec_map_op eq (abs s) op = (abs s1, r)"
      "ssize s1 \<le> ssize s + 1"
    using step_correct [of s op] Cons.prems by auto
  then show ?case using Cons.IH [of s1] Cons.prems by fastforce
qed simp

end

end
