(* ===== verification/Dict_Map.thy ===== *)
theory Dict_Map
  imports Dict Map_Interface "HOL-Library.Multiset"
begin

text \<open>
  The hash table as a finite map. The structural invariant of a dict (sizes, counters, every entry in
  the bucket of its hash, nothing left below \<open>rehashidx\<close>) is kept by incremental rehashing, which never
  loses or duplicates an entry; the contract of a dict type is a locale, in which the operations are
  shown to be those of a map, at any point of a rehash.
\<close>

section \<open>Tables\<close>

lemma and_size_mask:
  "e \<noteq> -1 \<Longrightarrow> h AND DICTHT_SIZE_MASK e = h mod DICTHT_SIZE e"
  using take_bit_eq_mask [of "nat e" h]
  by (simp add: DICTHT_SIZE_MASK_def DICTHT_SIZE_def take_bit_eq_mod mask_eq_exp_minus_1)

lemma mset_concat_update:
  "i < length tab \<Longrightarrow> mset (concat (tab[i := b])) + mset (tab ! i) = mset (concat tab) + mset b"
  by (subst (3) id_take_nth_drop [of i tab]) (auto simp: upd_conv_take_nth_drop)

lemma mset_concat_cons:
  "i < length tab \<Longrightarrow> mset (concat (tab[i := x # tab ! i])) = add_mset x (mset (concat tab))"
  using mset_concat_update [of i tab "x # tab ! i"] by simp

lemma mset_concat_clear:
  "i < length tab \<Longrightarrow> mset (concat (tab[i := []])) + mset (tab ! i) = mset (concat tab)"
  using mset_concat_update [of i tab "[]"] by simp

lemma in_concat_iff: "x \<in> set (concat tab) \<longleftrightarrow> (\<exists>i<length tab. x \<in> set (tab ! i))"
  by (auto simp: set_conv_nth [of tab])

text \<open>A table of size \<open>2 ^ e\<close> (or \<open>NULL\<close>) with its counter; each entry is in the bucket of its hash.\<close>

definition table_ok :: "'k dictType \<Rightarrow> int \<Rightarrow> nat \<Rightarrow> ('k, 'v) bucket list \<Rightarrow> bool" where
  "table_ok T e used tab \<longleftrightarrow>
     (if e = -1 then tab = [] \<and> used = 0
      else 2 \<le> e \<and> e \<le> 60 \<and> length tab = DICTHT_SIZE e \<and> used = length (concat tab)
        \<and> list_all (\<lambda>i. list_all (\<lambda>x. hashFunction T (fst x) mod DICTHT_SIZE e = i) (tab ! i)) [0..<length tab])"

lemma table_ok_null [simp]: "table_ok T (-1) used tab \<longleftrightarrow> tab = [] \<and> used = 0"
  by (simp add: table_ok_def)

lemma table_okI:
  "2 \<le> e \<Longrightarrow> e \<le> 60 \<Longrightarrow> length tab = DICTHT_SIZE e \<Longrightarrow> used = length (concat tab) \<Longrightarrow>
   (\<And>i x. i < length tab \<Longrightarrow> x \<in> set (tab ! i) \<Longrightarrow> hashFunction T (fst x) mod DICTHT_SIZE e = i) \<Longrightarrow>
   table_ok T e used tab"
  by (auto simp: table_ok_def list_all_iff)

lemma table_okD:
  assumes "table_ok T e used tab" "e \<noteq> -1"
  shows "2 \<le> e" "e \<le> 60" "length tab = DICTHT_SIZE e" "used = length (concat tab)"
    "\<And>i x. i < length tab \<Longrightarrow> x \<in> set (tab ! i) \<Longrightarrow> hashFunction T (fst x) mod DICTHT_SIZE e = i"
  using assms by (auto simp: table_ok_def list_all_iff)

lemma table_ok_used: "table_ok T e used tab \<Longrightarrow> used = size (mset (concat tab))"
  by (auto simp: table_ok_def split: if_splits)

lemma table_ok_nonempty: "table_ok T e used tab \<Longrightarrow> tab \<noteq> [] \<longleftrightarrow> e \<noteq> -1"
  by (auto simp: table_ok_def DICTHT_SIZE_def split: if_splits)

lemma DICTHT_SIZE_pos [simp]: "e \<noteq> -1 \<Longrightarrow> 0 < DICTHT_SIZE e"
  by (simp add: DICTHT_SIZE_def)

lemma table_ok_update:
  assumes "table_ok T e used tab" "i < length tab"
    and "\<And>x. x \<in> set b \<Longrightarrow> hashFunction T (fst x) mod DICTHT_SIZE e = i"
    and "used' + length (tab ! i) = used + length b"
  shows "table_ok T e used' (tab[i := b])"
proof -
  have e: "e \<noteq> -1" using assms(1,2) by (auto simp: table_ok_def)
  note D = table_okD [OF assms(1) e]
  have "size (mset (concat (tab[i := b]))) + length (tab ! i) = used + length b"
    using arg_cong [OF mset_concat_update [OF assms(2), of b], of size] D(4) by simp
  then have "used' = length (concat (tab[i := b]))" using assms(4) by simp
  then show ?thesis
    using D assms(2,3) by (intro table_okI) (auto simp: nth_list_update split: if_splits)
qed

section \<open>The invariant\<close>

definition dict_entries :: "('k, 'v) dict \<Rightarrow> ('k \<times> 'v) list" where
  "dict_entries d = concat (ht_table0 d) @ concat (ht_table1 d)"

definition distinct_keys :: "'k dictType \<Rightarrow> ('k \<times> 'v) list \<Rightarrow> bool" where
  "distinct_keys T es = sorted_wrt (\<lambda>x y. \<not> keyCompare T (fst x) (fst y)) es"

definition dict_struct :: "'k dictType \<Rightarrow> ('k, 'v) dict \<Rightarrow> bool" where
  "dict_struct T d \<longleftrightarrow>
     table_ok T (ht_size_exp0 d) (ht_used0 d) (ht_table0 d) \<and>
     table_ok T (ht_size_exp1 d) (ht_used1 d) (ht_table1 d) \<and>
     (if rehashidx d = -1 then ht_size_exp1 d = -1
      else ht_size_exp0 d \<noteq> -1 \<and> ht_size_exp1 d \<noteq> -1 \<and> 0 \<le> rehashidx d
        \<and> rehashidx d \<le> int (DICTHT_SIZE (ht_size_exp0 d))
        \<and> list_all (\<lambda>b. b = []) (take (nat (rehashidx d)) (ht_table0 d)))"

definition dict_ok :: "'k dictType \<Rightarrow> ('k, 'v) dict \<Rightarrow> bool" where
  "dict_ok T d \<longleftrightarrow> dict_struct T d \<and> distinct_keys T (dict_entries d)"

abbreviation entry_mset :: "('k, 'v) dict \<Rightarrow> ('k \<times> 'v) multiset" where
  "entry_mset d \<equiv> mset (dict_entries d)"

lemma list_all_take_iff:
  "n \<le> length xs \<Longrightarrow> list_all P (take n xs) \<longleftrightarrow> (\<forall>i<n. P (xs ! i))"
  by (auto simp: list_all_length)

lemma dict_struct_tables:
  assumes "dict_struct T d"
  shows "table_ok T (ht_size_exp0 d) (ht_used0 d) (ht_table0 d)"
    "table_ok T (ht_size_exp1 d) (ht_used1 d) (ht_table1 d)"
  using assms by (auto simp: dict_struct_def)

lemma dict_struct_rehashing:
  assumes "dict_struct T d" "rehashidx d \<noteq> -1"
  shows "ht_size_exp0 d \<noteq> -1" "ht_size_exp1 d \<noteq> -1" "0 \<le> rehashidx d"
    "nat (rehashidx d) \<le> length (ht_table0 d)" "\<And>i. i < nat (rehashidx d) \<Longrightarrow> ht_table0 d ! i = []"
proof -
  have *: "ht_size_exp0 d \<noteq> -1" "ht_size_exp1 d \<noteq> -1" "0 \<le> rehashidx d"
    "rehashidx d \<le> int (DICTHT_SIZE (ht_size_exp0 d))" "list_all (\<lambda>b. b = []) (take (nat (rehashidx d)) (ht_table0 d))"
    using assms by (auto simp: dict_struct_def)
  then have "nat (rehashidx d) \<le> length (ht_table0 d)"
    using table_okD(3) [OF dict_struct_tables(1) [OF assms(1)]] by simp
  then show "ht_size_exp0 d \<noteq> -1" "ht_size_exp1 d \<noteq> -1" "0 \<le> rehashidx d"
    "nat (rehashidx d) \<le> length (ht_table0 d)" "\<And>i. i < nat (rehashidx d) \<Longrightarrow> ht_table0 d ! i = []"
    using * by (auto simp: list_all_take_iff)
qed

lemma dict_struct_rehashingI:
  assumes "table_ok T (ht_size_exp0 d) (ht_used0 d) (ht_table0 d)"
    "table_ok T (ht_size_exp1 d) (ht_used1 d) (ht_table1 d)"
    "ht_size_exp0 d \<noteq> -1" "ht_size_exp1 d \<noteq> -1" "0 \<le> rehashidx d"
    "nat (rehashidx d) \<le> length (ht_table0 d)" "\<And>i. i < nat (rehashidx d) \<Longrightarrow> ht_table0 d ! i = []"
  shows "dict_struct T d"
  using assms table_okD(3) [OF assms(1,3)] by (auto simp: dict_struct_def list_all_take_iff)

lemma dict_struct_dictSize: "dict_struct T d \<Longrightarrow> dictSize d = length (dict_entries d)"
  using table_ok_used [OF dict_struct_tables(1)] table_ok_used [OF dict_struct_tables(2)]
  by (fastforce simp: dictSize_def dict_entries_def)

lemma dict_struct_table0:
  assumes "dict_struct T d" "dictIsRehashing d \<or> dictSize d \<noteq> 0"
  shows "ht_size_exp0 d \<noteq> -1"
  using assms by (auto simp: dict_struct_def dictIsRehashing_def dictSize_def split: if_splits)

section \<open>Rehashing\<close>

lemma skip_empty_ok:
  assumes "j < length tab" "tab ! j \<noteq> []" "idx \<le> j" "0 < visits"
  shows "(\<exists>idx'. skip_empty tab idx visits = Some (Inl idx') \<and> idx < idx' \<and> idx' \<le> j
            \<and> (\<forall>i. idx \<le> i \<and> i < idx' \<longrightarrow> tab ! i = []))
       \<or> (\<exists>idx' v. skip_empty tab idx visits = Some (Inr (idx', v)) \<and> 0 < v \<and> idx \<le> idx' \<and> idx' \<le> j
            \<and> tab ! idx' \<noteq> [] \<and> (\<forall>i. idx \<le> i \<and> i < idx' \<longrightarrow> tab ! i = []))"
  using assms(3,4)
proof (induction visits arbitrary: idx)
  case (Suc v)
  show ?case
  proof (cases "tab ! idx = []")
    case False
    then show ?thesis using Suc.prems assms by (auto simp: skip_empty.simps [of tab idx] mem_get_def)
  next
    case True
    then have le: "Suc idx \<le> j" using assms(2) Suc.prems by (metis Suc_leI le_neq_implies_less)
    have e: "tab ! i = []" if "idx \<le> i" "Suc idx \<le> i \<longrightarrow> tab ! i = []" for i
      using that True by (metis Suc_leI le_neq_implies_less)
    show ?thesis
    proof (cases "v = 0")
      case v: True
      then show ?thesis using True le assms by (auto simp: skip_empty.simps [of tab idx] mem_get_def intro: e)
    next
      case False
      have s: "skip_empty tab idx (Suc v) = skip_empty tab (Suc idx) v"
        using True False le assms by (simp add: skip_empty.simps [of tab idx] mem_get_def)
      have "0 < v" using False by simp
      from Suc.IH [OF le this] show ?thesis
      proof (elim disjE exE conjE)
        fix idx' assume "skip_empty tab (Suc idx) v = Some (Inl idx')" "Suc idx < idx'" "idx' \<le> j"
          "\<forall>i. Suc idx \<le> i \<and> i < idx' \<longrightarrow> tab ! i = []"
        then show ?thesis by (intro disjI1 exI [of _ idx']) (auto simp: s intro: e)
      next
        fix idx' w assume "skip_empty tab (Suc idx) v = Some (Inr (idx', w))" "Suc idx \<le> idx'" "idx' \<le> j"
          "0 < w" "tab ! idx' \<noteq> []" "\<forall>i. Suc idx \<le> i \<and> i < idx' \<longrightarrow> tab ! i = []"
        then show ?thesis by (intro disjI2 exI [of _ idx'] exI [of _ w]) (auto simp: s intro: e)
      qed
    qed
  qed
qed simp

lemma move_bucket_ok:
  assumes "table_ok T (ht_size_exp1 d) (ht_used1 d) (ht_table1 d)" "ht_size_exp1 d \<noteq> -1"
    and "ht_size_exp0 d \<noteq> -1" "ht_size_exp1 d \<le> 60" "0 \<le> ht_size_exp0 d"
    and "\<And>x. x \<in> set es \<Longrightarrow> hashFunction T (fst x) mod DICTHT_SIZE (ht_size_exp0 d) = nat (rehashidx d)"
    and "length es \<le> ht_used0 d"
  shows "\<exists>t1 u1. move_bucket T es d
       = Some (d\<lparr>ht_table1 := t1, ht_used0 := ht_used0 d - length es, ht_used1 := u1\<rparr>)
     \<and> table_ok T (ht_size_exp1 d) u1 t1
     \<and> mset (concat t1) = mset es + mset (concat (ht_table1 d))"
  using assms
proof (induction es arbitrary: d)
  case Nil
  then show ?case by (intro exI [of _ "ht_table1 d"] exI [of _ "ht_used1 d"]) simp
next
  case (Cons x es)
  define h where "h = (if ht_size_exp1 d > ht_size_exp0 d
               then hashFunction T (fst x) AND DICTHT_SIZE_MASK (ht_size_exp1 d)
               else nat (rehashidx d) AND DICTHT_SIZE_MASK (ht_size_exp1 d))"
  note D = table_okD [OF Cons.prems(1,2)]
  have h: "h = hashFunction T (fst x) mod DICTHT_SIZE (ht_size_exp1 d)"
  proof (cases "ht_size_exp1 d > ht_size_exp0 d")
    case True
    then show ?thesis using Cons.prems(2) by (simp add: h_def and_size_mask)
  next
    case False
    have "DICTHT_SIZE (ht_size_exp1 d) dvd DICTHT_SIZE (ht_size_exp0 d)"
      using False D(1) Cons.prems(2,3) by (simp add: DICTHT_SIZE_def le_imp_power_dvd)
    moreover have "h = (hashFunction T (fst x) mod DICTHT_SIZE (ht_size_exp0 d)) mod DICTHT_SIZE (ht_size_exp1 d)"
      using False Cons.prems(2) Cons.prems(6) [of x] by (simp add: h_def and_size_mask)
    ultimately show ?thesis by (simp add: mod_mod_cancel)
  qed
  have hl: "h < length (ht_table1 d)" using h D(3) Cons.prems(2) by simp
  define d1 where "d1 = d\<lparr>ht_table1 := (ht_table1 d)[h := x # ht_table1 d ! h],
                           ht_used0 := ht_used0 d - 1, ht_used1 := ht_used1 d + 1\<rparr>"
  have step: "move_bucket T (x # es) d = move_bucket T es d1"
    using hl by (simp add: mem_get_def d1_def Let_def flip: h_def)
  have "table_ok T (ht_size_exp1 d1) (ht_used1 d1) (ht_table1 d1)"
    unfolding d1_def using Cons.prems(1) hl D(5) [OF hl] h by (auto intro!: table_ok_update)
  then obtain t1 u1 where IH: "move_bucket T es d1
       = Some (d1\<lparr>ht_table1 := t1, ht_used0 := ht_used0 d1 - length es, ht_used1 := u1\<rparr>)"
     "table_ok T (ht_size_exp1 d1) u1 t1" "mset (concat t1) = mset es + mset (concat (ht_table1 d1))"
    using Cons.IH [of d1] Cons.prems(2-7) by (force simp: d1_def)
  show ?case
    using IH hl by (intro exI [of _ t1] exI [of _ u1]) (simp add: step d1_def mset_concat_cons del: move_bucket.simps)
qed

text \<open>What every rehashing function keeps.\<close>

definition rehash_keeps :: "'k dictType \<Rightarrow> ('k, 'v) dict \<Rightarrow> ('k, 'v) dict \<Rightarrow> bool" where
  "rehash_keeps T d d' \<longleftrightarrow> dict_struct T d' \<and> entry_mset d' = entry_mset d \<and> pauserehash d' = pauserehash d"

lemma rehash_loop_step:
  assumes d: "dict_struct T d" "rehashidx d \<noteq> -1" "ht_used0 d \<noteq> 0" "0 < visits"
  shows "\<exists>d'. rehash_keeps T d d' \<and> rehashidx d < rehashidx d' \<and> rehashidx d' \<noteq> -1
       \<and> ht_size_exp0 d' = ht_size_exp0 d \<and> ht_size_exp1 d' = ht_size_exp1 d
       \<and> ((\<forall>n. rehash_loop T (Suc n) visits d = Some (Inl d')) \<and> ht_used0 d' \<noteq> 0
          \<or> (\<exists>v>0. \<forall>n. rehash_loop T (Suc n) visits d = rehash_loop T n v d'))"
proof -
  note R = dict_struct_rehashing [OF d(1,2)]
  note T0 = table_okD [OF dict_struct_tables(1) [OF d(1)] R(1)]
  have "concat (ht_table0 d) \<noteq> []" using d(3) T0(4) by auto
  then obtain j where j: "j < length (ht_table0 d)" "ht_table0 d ! j \<noteq> []"
    by (auto simp: in_set_conv_nth)
  have le: "nat (rehashidx d) \<le> j" using R(5) j(2) by (meson not_le)
  have as: "c_assert (int (DICTHT_SIZE (ht_size_exp0 d)) > rehashidx d) = Some ()"
  proof -
    have "rehashidx d < int (DICTHT_SIZE (ht_size_exp0 d))" using le j(1) T0(3) by linarith
    then show ?thesis by simp
  qed
  from skip_empty_ok [OF j le d(4)] show ?thesis
  proof (elim disjE exE conjE)
    fix idx assume s: "skip_empty (ht_table0 d) (nat (rehashidx d)) visits = Some (Inl idx)"
      "nat (rehashidx d) < idx" "idx \<le> j" "\<forall>i. nat (rehashidx d) \<le> i \<and> i < idx \<longrightarrow> ht_table0 d ! i = []"
    have "dict_struct T (d\<lparr>rehashidx := int idx\<rparr>)"
    proof (rule dict_struct_rehashingI)
      fix i assume "i < nat (rehashidx (d\<lparr>rehashidx := int idx\<rparr>))"
      then show "ht_table0 (d\<lparr>rehashidx := int idx\<rparr>) ! i = []"
        using s(4) R(5) by (cases "i < nat (rehashidx d)") auto
    qed (use R s j dict_struct_tables [OF d(1)] in auto)
    then show ?thesis
      using s R(3) d(3) as
      by (intro exI [of _ "d\<lparr>rehashidx := int idx\<rparr>"])
         (auto simp: rehash_keeps_def dict_entries_def)
  next
    fix idx v assume s: "skip_empty (ht_table0 d) (nat (rehashidx d)) visits = Some (Inr (idx, v))"
      "0 < v" "nat (rehashidx d) \<le> idx" "idx \<le> j"
      "\<forall>i. nat (rehashidx d) \<le> i \<and> i < idx \<longrightarrow> ht_table0 d ! i = []"
    define b where "b = ht_table0 d ! idx"
    have il: "idx < length (ht_table0 d)" using s(4) j(1) by simp
    have mc: "mset (concat ((ht_table0 d)[idx := []])) + mset b = mset (concat (ht_table0 d))"
      unfolding b_def by (rule mset_concat_clear [OF il])
    have "length (concat ((ht_table0 d)[idx := []])) + length b = length (concat (ht_table0 d))"
      using arg_cong [OF mc, of size] by (simp del: length_concat)
    then have "length b \<le> ht_used0 d" using T0(4) by linarith
    then obtain t1 u1 where m: "move_bucket T b (d\<lparr>rehashidx := int idx\<rparr>)
       = Some (d\<lparr>rehashidx := int idx, ht_table1 := t1, ht_used0 := ht_used0 d - length b, ht_used1 := u1\<rparr>)"
       "table_ok T (ht_size_exp1 d) u1 t1" "mset (concat t1) = mset b + mset (concat (ht_table1 d))"
      using move_bucket_ok [of T "d\<lparr>rehashidx := int idx\<rparr>" b] R T0(1,2) T0(5) [OF il]
        dict_struct_tables(2) [OF d(1)] table_okD(2) [OF dict_struct_tables(2) [OF d(1)] R(2)]
      by (auto simp: b_def)
    define d' where "d' = d\<lparr>ht_table1 := t1, ht_used0 := ht_used0 d - length b,
                             ht_used1 := u1, ht_table0 := (ht_table0 d)[idx := []], rehashidx := int idx + 1\<rparr>"
    have step: "rehash_loop T (Suc n) visits d = rehash_loop T n v d'" for n
      using s(1) d(3) as m(1) by (simp add: d'_def b_def)
    have "dict_struct T d'"
    proof (rule dict_struct_rehashingI)
      fix i assume "i < nat (rehashidx d')"
      then have "i < Suc idx" by (simp add: d'_def)
      then show "ht_table0 d' ! i = []"
        using s(5) R(5) il by (cases "i < nat (rehashidx d)"; cases "i = idx") (auto simp: d'_def)
    next
      show "table_ok T (ht_size_exp0 d') (ht_used0 d') (ht_table0 d')"
        using dict_struct_tables(1) [OF d(1)] il \<open>length b \<le> ht_used0 d\<close>
        by (auto simp: d'_def b_def intro!: table_ok_update)
    qed (use R m il in \<open>auto simp: d'_def\<close>)
    moreover have "entry_mset d' = entry_mset d"
      using mc m(3) by (simp add: dict_entries_def d'_def del: mset_concat)
    ultimately have "rehash_keeps T d d'" by (simp add: rehash_keeps_def d'_def)
    then show ?thesis
      using step s(2,3) R(3) by (intro exI [of _ d']) (auto simp: d'_def)
  qed
qed

lemma rehash_loop_ok:
  assumes "dict_struct T d" "rehashidx d \<noteq> -1" "0 < visits"
  shows "\<exists>r d'. rehash_loop T n visits d = Some r \<and> rehash_keeps T d d' \<and> rehashidx d' \<noteq> -1
       \<and> ht_size_exp0 d' = ht_size_exp0 d \<and> ht_size_exp1 d' = ht_size_exp1 d
       \<and> (r = Inl d' \<and> ht_used0 d' \<noteq> 0 \<or> r = Inr d')
       \<and> rehashidx d \<le> rehashidx d' \<and> (0 < n \<and> ht_used0 d \<noteq> 0 \<longrightarrow> rehashidx d < rehashidx d')"
  using assms
proof (induction n arbitrary: d visits)
  case 0
  then show ?case by (intro exI [of _ "Inr d"] exI [of _ d]) (simp add: rehash_keeps_def)
next
  case (Suc n)
  show ?case
  proof (cases "ht_used0 d = 0")
    case True
    then show ?thesis using Suc.prems
      by (intro exI [of _ "Inr d"] exI [of _ d]) (simp add: rehash_keeps_def)
  next
    case False
    then obtain d1 where d1: "rehash_keeps T d d1" "rehashidx d < rehashidx d1" "rehashidx d1 \<noteq> -1"
        "ht_size_exp0 d1 = ht_size_exp0 d" "ht_size_exp1 d1 = ht_size_exp1 d"
      and "(\<forall>n. rehash_loop T (Suc n) visits d = Some (Inl d1)) \<and> ht_used0 d1 \<noteq> 0
          \<or> (\<exists>v>0. \<forall>n. rehash_loop T (Suc n) visits d = rehash_loop T n v d1)"
      using rehash_loop_step [OF Suc.prems(1,2) _ Suc.prems(3)] by blast
    then consider "rehash_loop T (Suc n) visits d = Some (Inl d1)" "ht_used0 d1 \<noteq> 0"
      | v where "0 < v" "rehash_loop T (Suc n) visits d = rehash_loop T n v d1" by blast
    then show ?thesis
    proof cases
      case 1
      then show ?thesis using d1 by (intro exI [of _ "Inl d1"] exI [of _ d1]) simp
    next
      case 2
      then show ?thesis using Suc.IH [of d1 v] d1 by (force simp: rehash_keeps_def)
    qed
  qed
qed

lemma rehash_keeps_refl: "dict_struct T d \<Longrightarrow> rehash_keeps T d d"
  by (simp add: rehash_keeps_def)

lemma dict_struct_swap:
  assumes "dict_struct T d" "rehashidx d \<noteq> -1" "ht_used0 d = 0"
  defines "d' \<equiv> (i_dictReset 1 (d\<lparr>ht_table0 := ht_table1 d, ht_used0 := ht_used1 d,
                                       ht_size_exp0 := ht_size_exp1 d\<rparr>))\<lparr>rehashidx := -1\<rparr>"
  shows "rehash_keeps T d d'"
proof -
  have "concat (ht_table0 d) = []"
    using table_ok_used [OF dict_struct_tables(1) [OF assms(1)]] assms(3) by simp
  then show ?thesis
    using dict_struct_tables [OF assms(1)]
    by (simp add: rehash_keeps_def d'_def i_dictReset_def dict_struct_def dict_entries_def del: concat_eq_Nil_conv)
qed

text \<open>
  \<^const>\<open>dictRehash\<close> never fails, keeps the entries, and reports whether there is more to do. When it is
  allowed to work, it either finishes or advances \<open>rehashidx\<close>.
\<close>

lemma dictRehash_ok:
  assumes "dict_struct T d" "0 < n"
  shows "\<exists>d' more. dictRehash T cr d n = Some (d', more) \<and> rehash_keeps T d d'
       \<and> (cr = DICT_RESIZE_ENABLE \<longrightarrow> more = dictIsRehashing d')
       \<and> (more \<longrightarrow> dictIsRehashing d \<and> dictIsRehashing d' \<and> ht_size_exp0 d' = ht_size_exp0 d \<and> rehashidx d < rehashidx d')"
proof (cases "rehashidx d = -1")
  case True
  then show ?thesis using assms(1)
    by (intro exI [of _ d] exI [of _ False]) (auto simp: dictRehash_def dictIsRehashing_def Let_def rehash_keeps_refl)
next
  case False
  define s0 where "s0 = DICTHT_SIZE (ht_size_exp0 d)"
  define s1 where "s1 = DICTHT_SIZE (ht_size_exp1 d)"
  show ?thesis
  proof (cases "cr = DICT_RESIZE_FORBID \<or> cr = DICT_RESIZE_AVOID
           \<and> (s1 > s0 \<and> s1 div s0 < 5 \<or> s1 < s0 \<and> s0 div s1 < 5)")
    case True
    then show ?thesis using assms(1)
      by (intro exI [of _ d] exI [of _ False]) (auto simp: dictRehash_def Let_def rehash_keeps_refl s0_def s1_def)
  next
    case go: False
    obtain r d' where r: "rehash_loop T n (n * 10) d = Some r" "rehash_keeps T d d'" "rehashidx d' \<noteq> -1"
       "ht_size_exp0 d' = ht_size_exp0 d" "r = Inl d' \<and> ht_used0 d' \<noteq> 0 \<or> r = Inr d'"
       "ht_used0 d \<noteq> 0 \<longrightarrow> rehashidx d < rehashidx d'" "rehashidx d \<le> rehashidx d'"
      using rehash_loop_ok [OF assms(1) False, of "n * 10" n] assms(2) by auto
    have res: "dictRehash T cr d n = Some (case r of Inl d \<Rightarrow> (d, True)
                   | Inr d \<Rightarrow> if ht_used0 d = 0 then
                         ((i_dictReset 1 (d\<lparr>ht_table0 := ht_table1 d, ht_used0 := ht_used1 d,
                                            ht_size_exp0 := ht_size_exp1 d\<rparr>))\<lparr>rehashidx := -1\<rparr>, False)
                       else (d, True))"
      using go False r(1) unfolding dictRehash_def s0_def s1_def by (auto simp: dictIsRehashing_def Let_def)
    show ?thesis
    proof (cases "ht_used0 d' = 0")
      case True
      define dd where "dd = (i_dictReset 1 (d'\<lparr>ht_table0 := ht_table1 d', ht_used0 := ht_used1 d',
                                            ht_size_exp0 := ht_size_exp1 d'\<rparr>))\<lparr>rehashidx := -1\<rparr>"
      have k: "rehash_keeps T d dd"
        using r(2,3) True dict_struct_swap [of T d'] by (auto simp: rehash_keeps_def dd_def)
      have "dictRehash T cr d n = Some (dd, False)" unfolding res using True r(5) by (auto simp: dd_def)
      then show ?thesis
        using k by (intro exI [of _ dd] exI [of _ False]) (simp add: dictIsRehashing_def dd_def)
    next
      case u: False
      have "ht_used0 d \<noteq> 0"
      proof
        assume "ht_used0 d = 0"
        then have "r = Inr d" using r(1) assms(2) by (cases n) auto
        then show False using r(5) u \<open>ht_used0 d = 0\<close> by auto
      qed
      then show ?thesis
        unfolding res using u r(2-6) False
        by (intro exI [of _ d'] exI [of _ True]) (auto simp: dictIsRehashing_def)
    qed
  qed
qed

section \<open>Association lists up to key comparison\<close>

definition dict_lookup :: "'k dictType \<Rightarrow> ('k \<times> 'v) list \<Rightarrow> 'k \<Rightarrow> 'v option" where
  "dict_lookup T es k = map_option snd (List.find (\<lambda>e. keyCompare T k (fst e)) es)"

definition dict_map :: "'k dictType \<Rightarrow> ('k, 'v) dict \<Rightarrow> 'k \<Rightarrow> 'v option" where
  "dict_map T d = dict_lookup T (dict_entries d)"

abbreviation key_upd :: "'k dictType \<Rightarrow> ('k \<Rightarrow> 'v option) \<Rightarrow> 'k \<Rightarrow> 'v \<Rightarrow> 'k \<Rightarrow> 'v option" where
  "key_upd T \<equiv> upd_by (keyCompare T)"

abbreviation key_del :: "'k dictType \<Rightarrow> ('k \<Rightarrow> 'v option) \<Rightarrow> 'k \<Rightarrow> 'k \<Rightarrow> 'v option" where
  "key_del T \<equiv> del_by (keyCompare T)"

lemma dict_lookup_None: "dict_lookup T es k = None \<longleftrightarrow> (\<forall>e\<in>set es. \<not> keyCompare T k (fst e))"
  by (auto simp: dict_lookup_def find_None_iff)

lemma option_eqI: "(\<And>v. a = Some v \<longleftrightarrow> b = Some v) \<Longrightarrow> a = b"
  by (cases a; cases b) auto

locale dict_type =
  fixes T :: "'k dictType"
  assumes compare_refl: "keyCompare T a a"
    and compare_sym: "keyCompare T a b \<Longrightarrow> keyCompare T b a"
    and compare_trans: "keyCompare T a b \<Longrightarrow> keyCompare T b c \<Longrightarrow> keyCompare T a c"
    and hash_compare: "keyCompare T a b \<Longrightarrow> hashFunction T a = hashFunction T b"
begin

lemma key_match_compare: "key_match T a b \<longleftrightarrow> keyCompare T a b"
  by (auto simp: key_match_def compare_refl)

lemma compare_class: "keyCompare T a = keyCompare T b \<longleftrightarrow> keyCompare T a b"
proof
  assume "keyCompare T a = keyCompare T b"
  then show "keyCompare T a b" by (simp add: compare_refl)
next
  assume ab: "keyCompare T a b"
  show "keyCompare T a = keyCompare T b"
    using compare_trans [OF ab] compare_trans [OF compare_sym [OF ab]] by (intro ext iffI) auto
qed

lemma compare_left: "keyCompare T a b \<Longrightarrow> keyCompare T x a \<longleftrightarrow> keyCompare T x b"
  using compare_trans [of x a b] compare_trans [of x b a] compare_sym [of a b] by auto

lemma distinct_keys_map: "distinct_keys T es \<longleftrightarrow> distinct (map (\<lambda>x. keyCompare T (fst x)) es)"
  by (induction es) (auto simp: distinct_keys_def compare_class image_iff)

lemma distinct_keys_mset:
  assumes "image_mset fst (mset xs) = image_mset fst (mset ys)"
  shows "distinct_keys T xs \<longleftrightarrow> distinct_keys T ys"
proof -
  have "mset (map (\<lambda>x. keyCompare T (fst x)) xs) = image_mset (keyCompare T) (image_mset fst (mset xs))"
    by (simp add: multiset.map_comp comp_def)
  also have "\<dots> = mset (map (\<lambda>x. keyCompare T (fst x)) ys)"
    unfolding assms by (simp add: multiset.map_comp comp_def)
  finally show ?thesis unfolding distinct_keys_map by (rule mset_eq_imp_distinct_iff)
qed

lemma distinct_keys_Cons:
  "distinct_keys T (x # es) \<longleftrightarrow> dict_lookup T es (fst x) = None \<and> distinct_keys T es"
  by (auto simp: distinct_keys_def dict_lookup_None)

lemma lookup_iff:
  "distinct_keys T es \<Longrightarrow> dict_lookup T es k = Some v \<longleftrightarrow> (\<exists>k'. (k', v) \<in> set es \<and> keyCompare T k k')"
proof (induction es)
  case Nil
  then show ?case by (simp add: dict_lookup_def)
next
  case (Cons x es)
  obtain kx vx where x: "x = (kx, vx)" by (cases x)
  show ?case
  proof (cases "keyCompare T k kx")
    case True
    have "\<not> keyCompare T k k'" if "(k', v) \<in> set es" for k' v
      using that Cons.prems compare_class [of k kx] True
      by (auto simp: x distinct_keys_Cons dict_lookup_None)
    then show ?thesis using True by (auto simp: x dict_lookup_def)
  next
    case False
    then show ?thesis using Cons by (auto simp: x dict_lookup_def distinct_keys_Cons)
  qed
qed

lemma lookup_perm:
  assumes "distinct_keys T xs" "mset xs = mset ys"
  shows "dict_lookup T xs = dict_lookup T ys"
proof
  fix k
  have "distinct_keys T ys" using distinct_keys_mset [of xs ys] assms by simp
  then show "dict_lookup T xs k = dict_lookup T ys k"
    using assms(1) mset_eq_setD [OF assms(2)] by (intro option_eqI) (simp add: lookup_iff)
qed

lemma lookup_compare: "keyCompare T a b \<Longrightarrow> dict_lookup T es a = dict_lookup T es b"
  using compare_class [of a b] by (simp add: dict_lookup_def)

lemma lookup_Cons: "dict_lookup T ((k, v) # es) = key_upd T (dict_lookup T es) k v"
  by (auto simp: dict_lookup_def upd_by_def fun_eq_iff)

lemma lookup_insert:
  assumes "distinct_keys T es" "mset es' = add_mset (k, v) (mset es)" "dict_lookup T es k = None"
  shows "distinct_keys T es'" "dict_lookup T es' = key_upd T (dict_lookup T es) k v"
proof -
  have d: "distinct_keys T ((k, v) # es)" using assms by (simp add: distinct_keys_Cons)
  have m: "mset ((k, v) # es) = mset es'" using assms(2) by simp
  show "distinct_keys T es'" using distinct_keys_mset [of "(k, v) # es" es'] d by (simp add: assms(2))
  show "dict_lookup T es' = key_upd T (dict_lookup T es) k v"
    using lookup_perm [OF d m] by (simp add: lookup_Cons)
qed

lemma lookup_delete:
  assumes "distinct_keys T es" "add_mset (k', v) (mset es') = mset es" "keyCompare T k k'"
  shows "distinct_keys T es'" "dict_lookup T es' = key_del T (dict_lookup T es) k"
proof -
  have m: "mset es = mset ((k', v) # es')" using assms(2) by simp
  have d: "distinct_keys T ((k', v) # es')" using distinct_keys_mset [of es "(k', v) # es'"] assms(1) by (simp flip: assms(2))
  then show "distinct_keys T es'" by (simp add: distinct_keys_Cons)
  have no: "dict_lookup T es' x = None" if "keyCompare T x k'" for x
    using d lookup_compare [OF that, of es'] by (simp add: distinct_keys_Cons)
  then show "dict_lookup T es' = key_del T (dict_lookup T es) k"
    using compare_left [OF assms(3)] by (auto simp: lookup_perm [OF assms(1) m] lookup_Cons upd_by_def del_by_def fun_eq_iff)
qed

lemma lookup_replace:
  assumes "distinct_keys T es" "mset es' + {#(k', v0)#} = mset es + {#(k', v)#}" "keyCompare T k k'"
    "(k', v0) \<in> set es"
  shows "distinct_keys T es'" "dict_lookup T es' = key_upd T (dict_lookup T es) k v"
proof -
  define es0 where "es0 = remove1 (k', v0) es"
  have m0: "add_mset (k', v0) (mset es0) = mset es" using assms(4) by (simp add: es0_def)
  have m1: "mset es' = add_mset (k', v) (mset es0)"
    using assms(2) unfolding m0 [symmetric] by simp
  note del = lookup_delete [OF assms(1) m0 assms(3)]
  have "dict_lookup T es0 k' = None"
    using del(2) assms(3) compare_sym by (auto simp: del_by_def)
  note ins = lookup_insert [OF del(1) m1 this]
  show "distinct_keys T es'" by (rule ins(1))
  show "dict_lookup T es' = key_upd T (dict_lookup T es) k v"
    using compare_left [OF assms(3)] by (simp add: ins(2) del(2) upd_by_def del_by_def fun_eq_iff)
qed

end

section \<open>Updating one bucket\<close>

lemma ht_selectors [simp]:
  "ht_table d 0 = ht_table0 d" "ht_table d (Suc 0) = ht_table1 d"
  "ht_used d 0 = ht_used0 d" "ht_used d (Suc 0) = ht_used1 d"
  "ht_size_exp d 0 = ht_size_exp0 d" "ht_size_exp d (Suc 0) = ht_size_exp1 d"
  by (simp_all add: ht_table_def ht_used_def ht_size_exp_def)

abbreviation set_bucket :: "nat \<Rightarrow> nat \<Rightarrow> ('k, 'v) bucket \<Rightarrow> nat \<Rightarrow> ('k, 'v) dict \<Rightarrow> ('k, 'v) dict" where
  "set_bucket t i b u d \<equiv> set_used t u (set_table t ((ht_table d t)[i := b]) d)"

lemma set_bucket_fields [simp]:
  "rehashidx (set_used t u d) = rehashidx d" "pauserehash (set_used t u d) = pauserehash d"
  "rehashidx (set_table t tab d) = rehashidx d" "pauserehash (set_table t tab d) = pauserehash d"
  by (simp_all add: set_used_def set_table_def)

lemma set_used_same: "t \<le> 1 \<Longrightarrow> set_used t (ht_used d t) (set_table t tab d) = set_table t tab d"
  by (auto simp: set_used_def set_table_def ht_used_def)

lemma dict_struct_table_ok:
  "dict_struct T d \<Longrightarrow> t \<le> 1 \<Longrightarrow> table_ok T (ht_size_exp d t) (ht_used d t) (ht_table d t)"
  using dict_struct_tables [of T d] by (auto simp: le_Suc_eq)

lemma dict_struct_set_bucket:
  assumes "dict_struct T d" "t \<le> 1" "i < length (ht_table d t)"
    and "\<And>x. x \<in> set b \<Longrightarrow> hashFunction T (fst x) mod DICTHT_SIZE (ht_size_exp d t) = i"
    and "u + length (ht_table d t ! i) = ht_used d t + length b"
    and "t = 0 \<Longrightarrow> dictIsRehashing d \<Longrightarrow> ht_table d t ! i = [] \<Longrightarrow> b = []"
  shows "dict_struct T (set_bucket t i b u d)"
proof -
  have ok: "table_ok T (ht_size_exp d t) u ((ht_table d t)[i := b])"
    using table_ok_update [OF dict_struct_table_ok [OF assms(1,2)] assms(3)] assms(4,5) by blast
  note D = dict_struct_tables [OF assms(1)]
  show ?thesis
  proof (cases "rehashidx d = -1")
    case True
    then have "t = 0" using assms(1,2,3) by (auto simp: dict_struct_def le_Suc_eq)
    then show ?thesis using ok D True assms(1)
      by (simp add: dict_struct_def set_table_def set_used_def)
  next
    case False
    note R = dict_struct_rehashing [OF assms(1) False]
    show ?thesis
    proof (rule dict_struct_rehashingI)
      fix j assume "j < nat (rehashidx (set_bucket t i b u d))"
      then have "ht_table0 d ! j = []" "j < length (ht_table0 d)" using R(4,5) by auto
      then show "ht_table0 (set_bucket t i b u d) ! j = []"
        using assms(3,6) False by (cases "t = 0"; cases "i = j")
           (auto simp: set_table_def set_used_def dictIsRehashing_def)
    qed (use ok D R assms(2) in \<open>auto simp: set_table_def set_used_def ht_table_def ht_size_exp_def split: if_splits\<close>)
  qed
qed

lemma entry_mset_set_bucket:
  assumes "t \<le> 1" "i < length (ht_table d t)"
  shows "entry_mset (set_bucket t i b u d) + mset (ht_table d t ! i) = entry_mset d + mset b"
  using mset_concat_update [OF assms(2), of b] assms(1)
  by (auto simp: le_Suc_eq dict_entries_def set_table_def set_used_def ac_simps simp del: mset_concat)

text \<open>A valid reference, and what is done through one.\<close>

fun ref_ok :: "('k, 'v) dict \<Rightarrow> entry_ref \<Rightarrow> bool" where
  "ref_ok d (t, i, p) \<longleftrightarrow> t \<le> 1 \<and> i < length (ht_table d t) \<and> p < length (ht_table d t ! i)"

fun ref_entry :: "('k, 'v) dict \<Rightarrow> entry_ref \<Rightarrow> 'k \<times> 'v" where
  "ref_entry d (t, i, p) = ht_table d t ! i ! p"

lemma get_entry_ok: "ref_ok d r \<Longrightarrow> get_entry d r = Some (ref_entry d r)"
  by (cases r) (simp add: get_entry_def mem_get_def)

lemma table_in_entries: "t \<le> 1 \<Longrightarrow> i < length (ht_table d t) \<Longrightarrow> x \<in> set (ht_table d t ! i) \<Longrightarrow> x \<in> set (dict_entries d)"
  by (auto simp: le_Suc_eq dict_entries_def in_concat_iff simp del: set_concat)

lemma ref_entry_in: "ref_ok d r \<Longrightarrow> ref_entry d r \<in> set (dict_entries d)"
  by (cases r) (auto intro: table_in_entries nth_mem)

lemma mset_list_update: "p < length b \<Longrightarrow> mset (b[p := x]) + {#b ! p#} = mset b + {#x#}"
  by (subst (3) id_take_nth_drop [of p b]) (auto simp: upd_conv_take_nth_drop)

lemma mset_take_drop: "p < length b \<Longrightarrow> add_mset (b ! p) (mset (take p b @ drop (Suc p) b)) = mset b"
  by (subst (4) id_take_nth_drop [of p b]) auto

lemma dictSetVal_ok:
  assumes "dict_struct T d" "ref_ok d r"
  shows "\<exists>d'. dictSetVal d r v = Some d' \<and> dict_struct T d' \<and> pauserehash d' = pauserehash d
       \<and> rehashidx d' = rehashidx d
       \<and> entry_mset d' + {#ref_entry d r#} = entry_mset d + {#(fst (ref_entry d r), v)#}"
proof (cases r)
  case (fields t i p)
  define b where "b = ht_table d t ! i"
  define d' where "d' = set_bucket t i (b[p := (fst (b ! p), v)]) (ht_used d t) d"
  have r: "t \<le> 1" "i < length (ht_table d t)" "p < length b" using assms(2) by (auto simp: fields b_def)
  note tok = dict_struct_table_ok [OF assms(1) r(1)]
  have e: "ht_size_exp d t \<noteq> -1" using table_ok_nonempty [OF tok] r(2) by auto
  have "hashFunction T (fst x) mod DICTHT_SIZE (ht_size_exp d t) = i" if "x \<in> set (b[p := (fst (b ! p), v)])" for x
  proof -
    have "x = (fst (b ! p), v) \<or> x \<in> set b" using that set_update_subset_insert by fastforce
    then show ?thesis using table_okD(5) [OF tok e r(2), folded b_def] nth_mem [OF r(3)] by fastforce
  qed
  then have "dict_struct T d'"
    unfolding d'_def by (intro dict_struct_set_bucket assms(1) r(1,2)) (use r in \<open>auto simp: b_def\<close>)
  moreover have "dictSetVal d r v = Some d'"
    using r by (simp add: dictSetVal_def fields mem_get_def d'_def set_used_same b_def)
  moreover have "entry_mset d' + {#b ! p#} = entry_mset d + {#(fst (b ! p), v)#}"
  proof -
    have "entry_mset d' + mset b + {#b ! p#} = entry_mset d + (mset (b[p := (fst (b ! p), v)]) + {#b ! p#})"
      using entry_mset_set_bucket [OF r(1,2)] by (simp add: d'_def b_def)
    then show ?thesis unfolding mset_list_update [OF r(3)] by simp
  qed
  ultimately show ?thesis by (intro exI [of _ d']) (simp add: fields b_def d'_def)
qed

lemma unlink_entry_ok:
  assumes "dict_struct T d" "ref_ok d r"
  shows "\<exists>d'. unlink_entry d r = Some (d', ref_entry d r) \<and> dict_struct T d' \<and> pauserehash d' = pauserehash d
       \<and> rehashidx d' = rehashidx d \<and> add_mset (ref_entry d r) (entry_mset d') = entry_mset d"
proof (cases r)
  case (fields t i p)
  define b where "b = ht_table d t ! i"
  define b' where "b' = take p b @ drop (Suc p) b"
  define d' where "d' = set_bucket t i b' (ht_used d t - 1) d"
  have r: "t \<le> 1" "i < length (ht_table d t)" "p < length b" using assms(2) by (auto simp: fields b_def)
  note tok = dict_struct_table_ok [OF assms(1) r(1)]
  have e: "ht_size_exp d t \<noteq> -1" using table_ok_nonempty [OF tok] r(2) by auto
  have "length b \<le> ht_used d t"
    using table_okD(4) [OF tok e] r(2) member_le_sum_list [of "length b" "map length (ht_table d t)"]
    by (simp add: length_concat b_def)
  then have u: "ht_used d t - 1 + length b = ht_used d t + length b'" using r(3) by (simp add: b'_def)
  have "set b' \<subseteq> set b" by (auto simp: b'_def dest: in_set_takeD in_set_dropD)
  then have "dict_struct T d'"
    unfolding d'_def using table_okD(5) [OF tok e r(2)] r(3) u
    by (intro dict_struct_set_bucket assms(1) r(1,2)) (auto simp: b_def)
  moreover have "unlink_entry d r = Some (d', b ! p)"
    using r by (simp add: unlink_entry_def fields mem_get_def d'_def b'_def b_def)
  moreover have "add_mset (b ! p) (entry_mset d') = entry_mset d"
  proof -
    have "entry_mset d' + mset b = entry_mset d + mset b'"
      using entry_mset_set_bucket [OF r(1,2)] by (simp add: d'_def b_def)
    then show ?thesis
      unfolding mset_take_drop [OF r(3), symmetric] by (simp add: b'_def)
  qed
  ultimately show ?thesis by (intro exI [of _ d']) (simp add: fields b_def d'_def)
qed

section \<open>Growing\<close>

lemma DICTHT_SIZE_0 [simp]: "DICTHT_SIZE e = 0 \<longleftrightarrow> e = -1"
  by (simp add: DICTHT_SIZE_def)

lemma i_dictNextExp_loop_spec:
  "n \<le> 2 ^ 60 \<Longrightarrow> e \<le> 60 \<Longrightarrow> (e0 = e \<or> 2 ^ (e - 1) < n) \<Longrightarrow> e0 \<le> e \<Longrightarrow>
     n \<le> 2 ^ i_dictNextExp_loop n e \<and> e \<le> i_dictNextExp_loop n e \<and> i_dictNextExp_loop n e \<le> 60
   \<and> (i_dictNextExp_loop n e = e0 \<or> 2 ^ (i_dictNextExp_loop n e - 1) < n)"
proof (induction n e rule: i_dictNextExp_loop.induct)
  case (1 n e)
  show ?case
  proof (cases "n \<le> 2 ^ e")
    case True
    then show ?thesis using "1.prems" by (subst (1 2 3 4 5) i_dictNextExp_loop.simps) auto
  next
    case False
    then have "e < 60" using "1.prems"(1,2) by (metis le_neq_implies_less)
    then have "n \<le> 2 ^ i_dictNextExp_loop n (e + 1) \<and> e + 1 \<le> i_dictNextExp_loop n (e + 1)
        \<and> i_dictNextExp_loop n (e + 1) \<le> 60
        \<and> (i_dictNextExp_loop n (e + 1) = e0 \<or> 2 ^ (i_dictNextExp_loop n (e + 1) - 1) < n)"
      using "1.IH" "1.prems" False by auto
    moreover have "i_dictNextExp_loop n e = i_dictNextExp_loop n (e + 1)"
      using False by (subst i_dictNextExp_loop.simps) simp
    ultimately show ?thesis by simp
  qed
qed

text \<open>\<open>_dictNextExp\<close> is the least exponent (but at least 2) of a power of two that is large enough.\<close>

lemma i_dictNextExp_spec:
  assumes "n \<le> 2 ^ 60"
  shows "n \<le> 2 ^ i_dictNextExp n" "2 \<le> i_dictNextExp n" "i_dictNextExp n \<le> 60"
    "i_dictNextExp n = 2 \<or> 2 ^ (i_dictNextExp n - 1) < n"
proof -
  have e: "i_dictNextExp n = i_dictNextExp_loop n 2" using assms by (simp add: i_dictNextExp_def)
  show "n \<le> 2 ^ i_dictNextExp n" "2 \<le> i_dictNextExp n" "i_dictNextExp n \<le> 60"
    "i_dictNextExp n = 2 \<or> 2 ^ (i_dictNextExp n - 1) < n"
    unfolding e using i_dictNextExp_loop_spec [OF assms, of 2 2] by auto
qed

lemma concat_replicate_Nil [simp]: "concat (replicate n []) = []"
  by (induction n) auto

lemma table_ok_replicate:
  "2 \<le> e \<Longrightarrow> e \<le> 60 \<Longrightarrow> table_ok T (int e) 0 (replicate (2 ^ e) [])"
  by (rule table_okI) (auto simp: DICTHT_SIZE_def)

lemma i_dictExpand_ok:
  assumes "dict_struct T d" "sz \<le> 2 ^ 60"
  shows "rehash_keeps T d (fst (i_dictExpand c d sz))"
    and "snd (i_dictExpand c d sz) \<longleftrightarrow>
       \<not> dictIsRehashing d \<and> ht_used0 d \<le> sz \<and> int (i_dictNextExp sz) \<noteq> ht_size_exp0 d \<and> c"
    and "snd (i_dictExpand c d sz) \<Longrightarrow> ht_size_exp0 (fst (i_dictExpand c d sz)) \<noteq> -1"
proof -
  define e where "e = i_dictNextExp sz"
  note E = i_dictNextExp_spec [OF assms(2), folded e_def]
  have "(2::nat) ^ e * 8 = 2 ^ (e + 3)" by (simp add: power_add)
  also have "\<dots> \<le> 2 ^ 63" using E(3) by (intro power_increasing) auto
  finally have "(2::nat) ^ e * 8 \<le> 2 ^ 63" .
  then have nowrap: "\<not> (2 ^ e * 8) mod 2 ^ 64 < (2 :: nat) ^ e" by simp
  note D = dict_struct_tables [OF assms(1)]
  have *: "i_dictExpand c d sz =
     (if dictIsRehashing d \<or> ht_used0 d > sz \<or> int e = ht_size_exp0 d \<or> \<not> c then (d, False)
      else if ht_table0 d = [] then
            (d\<lparr>ht_size_exp0 := int e, ht_used0 := 0, ht_table0 := replicate (2 ^ e) []\<rparr>, True)
      else (d\<lparr>ht_size_exp1 := int e, ht_used1 := 0, ht_table1 := replicate (2 ^ e) [], rehashidx := 0\<rparr>, True))"
    using E(1) nowrap unfolding i_dictExpand_def e_def [symmetric] Let_def by auto
  show "rehash_keeps T d (fst (i_dictExpand c d sz))"
  proof (cases "dictIsRehashing d \<or> ht_used0 d > sz \<or> int e = ht_size_exp0 d \<or> \<not> c")
    case True
    then show ?thesis using assms(1) by (auto simp: * rehash_keeps_refl)
  next
    case False
    then have r: "rehashidx d = -1" "ht_size_exp1 d = -1" "ht_table1 d = []" "ht_used1 d = 0"
      using assms(1) D(2) by (auto simp: dictIsRehashing_def dict_struct_def)
    show ?thesis
    proof (cases "ht_table0 d = []")
      case True
      then show ?thesis using False r E table_ok_replicate [of e]
        unfolding * by (simp add: rehash_keeps_def dict_struct_def dict_entries_def)
    next
      case t: False
      then have "ht_size_exp0 d \<noteq> -1" using table_ok_nonempty [OF D(1)] by simp
      then show ?thesis using False t r E table_ok_replicate [of e] D(1)
        unfolding * by (simp add: rehash_keeps_def dict_struct_def dict_entries_def)
    qed
  qed
  show "snd (i_dictExpand c d sz) \<longleftrightarrow>
       \<not> dictIsRehashing d \<and> ht_used0 d \<le> sz \<and> int (i_dictNextExp sz) \<noteq> ht_size_exp0 d \<and> c"
    by (auto simp: * e_def)
  show "snd (i_dictExpand c d sz) \<Longrightarrow> ht_size_exp0 (fst (i_dictExpand c d sz)) \<noteq> -1"
    using table_ok_nonempty [OF D(1)] E(2) by (auto simp: * split: if_splits)
qed

lemma i_dictExpandIfNeeded_ok:
  assumes "dict_struct T d" "dictSize d < 2 ^ 60"
  shows "snd (i_dictExpandIfNeeded T cr d)" "rehash_keeps T d (fst (i_dictExpandIfNeeded T cr d))"
    "ht_size_exp0 (fst (i_dictExpandIfNeeded T cr d)) \<noteq> -1"
proof -
  define r where "r = i_dictExpandIfNeeded T cr d"
  have u: "ht_used0 d + 1 \<le> 2 ^ 60" using assms(2) by (simp add: dictSize_def)
  consider "dictIsRehashing d \<or> ht_size_exp0 d \<noteq> -1 \<and> r = (d, True)"
    | "\<not> dictIsRehashing d" "ht_size_exp0 d = -1"
    | "\<not> dictIsRehashing d" "ht_size_exp0 d \<noteq> -1" "DICTHT_SIZE (ht_size_exp0 d) \<le> ht_used0 d"
      "r = dictExpand d (ht_used0 d + 1)"
  proof -
    assume *: "dictIsRehashing d \<or> ht_size_exp0 d \<noteq> -1 \<and> r = (d, True) \<Longrightarrow> thesis"
      "\<not> dictIsRehashing d \<Longrightarrow> ht_size_exp0 d = -1 \<Longrightarrow> thesis"
      "\<not> dictIsRehashing d \<Longrightarrow> ht_size_exp0 d \<noteq> -1 \<Longrightarrow> DICTHT_SIZE (ht_size_exp0 d) \<le> ht_used0 d
        \<Longrightarrow> r = dictExpand d (ht_used0 d + 1) \<Longrightarrow> thesis"
    show thesis
    proof (cases "dictIsRehashing d \<or> ht_size_exp0 d = -1 \<or> r = (d, True)")
      case True
      then show ?thesis using * by blast
    next
      case False
      define s where "s = DICTHT_SIZE (ht_size_exp0 d)"
      have "0 < s" using False by (simp add: s_def)
      then have "5 < ht_used0 d div s \<Longrightarrow> s \<le> ht_used0 d"
        by (metis div_less leI not_less_zero)
      then show ?thesis
        using False * \<open>0 < s\<close> unfolding r_def i_dictExpandIfNeeded_def s_def by (auto split: if_splits)
    qed
  qed
  then have "snd r \<and> rehash_keeps T d (fst r) \<and> ht_size_exp0 (fst r) \<noteq> -1"
  proof cases
    case 1
    then show ?thesis using assms(1) dict_struct_table0 [OF assms(1)]
      by (auto simp: rehash_keeps_refl r_def i_dictExpandIfNeeded_def)
  next
    case 2
    then have "ht_used0 d = 0" using dict_struct_tables(1) [OF assms(1)] by simp
    then have "snd (dictExpand d 4)" unfolding dictExpand_def
      using 2 by (subst i_dictExpand_ok(2) [OF assms(1)]) simp_all
    moreover have "r = dictExpand d 4"
      using 2 unfolding r_def i_dictExpandIfNeeded_def by (simp add: DICTHT_SIZE_def)
    ultimately show ?thesis
      using i_dictExpand_ok(1,3) [OF assms(1), of 4 True] by (simp add: dictExpand_def)
  next
    case 3
    define e where "e = i_dictNextExp (ht_used0 d + 1)"
    have "DICTHT_SIZE (ht_size_exp0 d) < 2 ^ e"
      using 3(3) i_dictNextExp_spec(1) [OF u, folded e_def] by linarith
    then have "int e \<noteq> ht_size_exp0 d" by (auto simp: DICTHT_SIZE_def)
    then have "snd r" unfolding 3(4) dictExpand_def
      using 3(1) u by (subst i_dictExpand_ok(2) [OF assms(1)]) (simp_all add: e_def)
    then show ?thesis
      using i_dictExpand_ok(1,3) [OF assms(1) u, of True] 3(4) by (simp add: dictExpand_def)
  qed
  then show "snd (i_dictExpandIfNeeded T cr d)" "rehash_keeps T d (fst (i_dictExpandIfNeeded T cr d))"
    "ht_size_exp0 (fst (i_dictExpandIfNeeded T cr d)) \<noteq> -1"
    by (auto simp: r_def)
qed

lemma rehash_step_if_ok:
  assumes "dict_struct T d"
  shows "\<exists>d'. rehash_step_if T cr d = Some d' \<and> rehash_keeps T d d'"
  using dictRehash_ok [OF assms, of 1 cr] assms
  by (auto simp: rehash_step_if_def i_dictRehashStep_def rehash_keeps_refl)

lemma rehash_keeps_trans: "rehash_keeps T a b \<Longrightarrow> rehash_keeps T b c \<Longrightarrow> rehash_keeps T a c"
  by (simp add: rehash_keeps_def)

lemma rehash_keeps_size:
  assumes "dict_struct T d" "rehash_keeps T d d'"
  shows "dictSize d' = dictSize d"
proof -
  have "mset (dict_entries d') = mset (dict_entries d)" "dict_struct T d'"
    using assms(2) by (auto simp: rehash_keeps_def)
  then show ?thesis using mset_eq_length dict_struct_dictSize assms(1) by metis
qed

section \<open>The operations as operations of a map\<close>

fun dict_step :: "'k dictType \<Rightarrow> dictResizeEnable \<Rightarrow> 'v \<Rightarrow> ('k, 'v) dict \<Rightarrow> ('k, 'v) map_op
    \<Rightarrow> (('k, 'v) dict \<times> 'v map_res) option" where
  "dict_step T cr v0 d (MAdd k v) = map_option (apsnd RFlag) (dictAdd T cr v0 d k v)"
| "dict_step T cr v0 d (MReplace k v) = map_option (apsnd RFlag) (dictReplace T cr v0 d k v)"
| "dict_step T cr v0 d (MDel k) = map_option (apsnd RFlag) (dictDelete T cr d k)"
| "dict_step T cr v0 d (MGet k) = map_option (apsnd RVal) (dictFetchValue T cr d k)"

context dict_type
begin

lemma keeps_ok:
  assumes "dict_ok T d" "rehash_keeps T d d'"
  shows "dict_ok T d'" "dict_map T d' = dict_map T d" "dictSize d' = dictSize d"
proof -
  have m: "mset (dict_entries d) = mset (dict_entries d')" "dict_struct T d'"
    using assms(2) by (auto simp: rehash_keeps_def)
  show "dict_ok T d'"
    using distinct_keys_mset [of "dict_entries d" "dict_entries d'"] m assms(1) by (simp add: dict_ok_def)
  show "dict_map T d' = dict_map T d"
    using lookup_perm [of "dict_entries d" "dict_entries d'"] m assms(1) by (simp add: dict_ok_def dict_map_def)
  show "dictSize d' = dictSize d"
    using rehash_keeps_size [OF _ assms(2)] assms(1) by (simp add: dict_ok_def)
qed

lemma chain_find_None: "chain_find T k b = None \<longleftrightarrow> (\<forall>e\<in>set b. \<not> keyCompare T k (fst e))"
  by (induction b) (auto simp: key_match_compare)

lemma chain_find_Some: "chain_find T k b = Some p \<Longrightarrow> p < length b \<and> keyCompare T k (fst (b ! p))"
  by (induction b arbitrary: p) (auto simp: key_match_compare split: if_splits)

text \<open>Looking into the bucket of the hash decides for the whole table.\<close>

lemma find_in_table_ok:
  assumes "dict_struct T d" "t \<le> 1" "ht_size_exp d t \<noteq> -1"
  shows "\<exists>r. find_in_table T d t k = Some (r, hashFunction T k mod DICTHT_SIZE (ht_size_exp d t))
     \<and> (case r of None \<Rightarrow> \<forall>e\<in>set (concat (ht_table d t)). \<not> keyCompare T k (fst e)
                | Some r \<Rightarrow> ref_ok d r \<and> keyCompare T k (fst (ref_entry d r)))"
proof -
  define idx where "idx = hashFunction T k mod DICTHT_SIZE (ht_size_exp d t)"
  note D = table_okD [OF dict_struct_table_ok [OF assms(1,2)] assms(3)]
  have il: "idx < length (ht_table d t)" using D(3) assms(3) by (simp add: idx_def)
  have f: "find_in_table T d t k = Some (map_option (\<lambda>pos. (t, idx, pos)) (chain_find T k (ht_table d t ! idx)), idx)"
    using il by (simp add: find_in_table_def and_size_mask [OF assms(3)] mem_get_def Let_def flip: idx_def)
  show ?thesis
  proof (cases "chain_find T k (ht_table d t ! idx)")
    case None
    have "\<not> keyCompare T k (fst e)" if "e \<in> set (concat (ht_table d t))" for e
    proof
      assume c: "keyCompare T k (fst e)"
      obtain i where i: "i < length (ht_table d t)" "e \<in> set (ht_table d t ! i)"
        using \<open>e \<in> set (concat (ht_table d t))\<close> unfolding in_concat_iff by blast
      have "i = idx" using D(5) [OF i] hash_compare [OF c] by (simp add: idx_def)
      then show False using None i c by (auto simp: chain_find_None)
    qed
    then show ?thesis using f None by (auto simp: idx_def)
  next
    case (Some p)
    then show ?thesis using f chain_find_Some [OF Some] il assms(2) by (auto simp: idx_def)
  qed
qed

lemma find_entry_ok:
  assumes "dict_ok T d" "ht_size_exp0 d \<noteq> -1"
  shows "\<exists>r idx. find_entry T d k = Some (r, idx) \<and>
     (case r of
        None \<Rightarrow> dict_map T d k = None
          \<and> idx = hashFunction T k mod DICTHT_SIZE (ht_size_exp d (if dictIsRehashing d then 1 else 0))
      | Some r \<Rightarrow> ref_ok d r \<and> keyCompare T k (fst (ref_entry d r)) \<and> dict_map T d k = Some (snd (ref_entry d r)))"
proof -
  have st: "dict_struct T d" and dk: "distinct_keys T (dict_entries d)" using assms(1) by (auto simp: dict_ok_def)
  have hit: "dict_map T d k = Some (snd (ref_entry d r))" if "ref_ok d r" "keyCompare T k (fst (ref_entry d r))" for r
    using lookup_iff [OF dk] ref_entry_in [OF that(1)] that(2) unfolding dict_map_def by (metis prod.collapse)
  obtain r0 where r0: "find_in_table T d 0 k = Some (r0, hashFunction T k mod DICTHT_SIZE (ht_size_exp0 d))"
    "case r0 of None \<Rightarrow> \<forall>e\<in>set (concat (ht_table0 d)). \<not> keyCompare T k (fst e)
                | Some r \<Rightarrow> ref_ok d r \<and> keyCompare T k (fst (ref_entry d r))"
    using find_in_table_ok [OF st, of 0 k, unfolded ht_selectors] assms(2) by blast
  show ?thesis
  proof (cases "r0 \<noteq> None \<or> \<not> dictIsRehashing d")
    case True
    then have f: "find_entry T d k = Some (r0, hashFunction T k mod DICTHT_SIZE (ht_size_exp0 d))"
      using r0(1) by (auto simp: find_entry_def)
    show ?thesis
    proof (cases r0)
      case None
      then have "ht_table1 d = []" using True st by (auto simp: dict_struct_def dictIsRehashing_def)
      then have "dict_map T d k = None"
        using r0(2) None by (simp add: dict_map_def dict_lookup_None dict_entries_def)
      then show ?thesis using f None True by auto
    qed (use f r0(2) hit in auto)
  next
    case False
    then have "ht_size_exp1 d \<noteq> -1" using dict_struct_rehashing(2) [OF st] by (simp add: dictIsRehashing_def)
    then obtain r1 where r1: "find_in_table T d (Suc 0) k = Some (r1, hashFunction T k mod DICTHT_SIZE (ht_size_exp1 d))"
      "case r1 of None \<Rightarrow> \<forall>e\<in>set (concat (ht_table1 d)). \<not> keyCompare T k (fst e)
                | Some r \<Rightarrow> ref_ok d r \<and> keyCompare T k (fst (ref_entry d r))"
      using find_in_table_ok [OF st, of "Suc 0" k, unfolded ht_selectors] by auto
    have f: "find_entry T d k = Some (r1, hashFunction T k mod DICTHT_SIZE (ht_size_exp1 d))"
      using r0(1) r1(1) False by (simp add: find_entry_def)
    show ?thesis
    proof (cases r1)
      case None
      then have "dict_map T d k = None"
        using r0(2) r1(2) False by (cases r0) (auto simp: dict_map_def dict_lookup_None dict_entries_def)
      then show ?thesis using f None False by auto
    qed (use f r1(2) hit in auto)
  qed
qed

text \<open>The prefix of every lookup: a rehash step, then the search.\<close>

lemma step_find_ok:
  assumes "dict_ok T d" "dictSize d \<noteq> 0"
  obtains d1 r idx where "rehash_step_if T cr d = Some d1" "rehash_keeps T d d1" "dict_ok T d1"
    "find_entry T d1 k = Some (r, idx)"
    "case r of
        None \<Rightarrow> dict_map T d k = None
      | Some r \<Rightarrow> ref_ok d1 r \<and> keyCompare T k (fst (ref_entry d1 r)) \<and> dict_map T d k = Some (snd (ref_entry d1 r))"
proof -
  obtain d1 where d1: "rehash_step_if T cr d = Some d1" "rehash_keeps T d d1"
    using rehash_step_if_ok assms(1) unfolding dict_ok_def by blast
  note K = keeps_ok [OF assms(1) d1(2)]
  have "ht_size_exp0 d1 \<noteq> -1"
    using dict_struct_table0 [of T d1] K assms(2) by (simp add: dict_ok_def)
  then show thesis
    using find_entry_ok [OF K(1), of k] d1 K that by (fastforce split: option.splits)
qed

lemma dict_map_size_0: "dict_ok T d \<Longrightarrow> dictSize d = 0 \<Longrightarrow> dict_map T d k = None"
  using dict_struct_dictSize [of T d] by (simp add: dict_ok_def dict_map_def dict_lookup_def)

lemma dictFind_ok:
  assumes "dict_ok T d"
  shows "\<exists>d' r. dictFind T cr d k = Some (d', r) \<and> rehash_keeps T d d' \<and>
     (case r of None \<Rightarrow> dict_map T d k = None
      | Some r \<Rightarrow> ref_ok d' r \<and> keyCompare T k (fst (ref_entry d' r)) \<and> dict_map T d k = Some (snd (ref_entry d' r)))"
proof (cases "dictSize d = 0")
  case True
  then show ?thesis
    using assms dict_map_size_0 [OF assms] by (simp add: dictFind_def rehash_keeps_def dict_ok_def)
next
  case False
  show ?thesis
    by (rule step_find_ok [OF assms False, of cr k]) (use False in \<open>simp add: dictFind_def\<close>)
qed

lemma dictFetchValue_ok:
  assumes "dict_ok T d"
  shows "\<exists>d'. dictFetchValue T cr d k = Some (d', dict_map T d k) \<and> rehash_keeps T d d'"
proof -
  obtain d' r where f: "dictFind T cr d k = Some (d', r)" "rehash_keeps T d d'"
    "case r of None \<Rightarrow> dict_map T d k = None
      | Some r \<Rightarrow> ref_ok d' r \<and> keyCompare T k (fst (ref_entry d' r)) \<and> dict_map T d k = Some (snd (ref_entry d' r))"
    using dictFind_ok [OF assms] by blast
  then show ?thesis
    by (cases r) (auto simp: dictFetchValue_def dictGetVal_def get_entry_ok)
qed

lemma delete_ok:
  assumes "dict_ok T d" "ref_ok d r" "keyCompare T k (fst (ref_entry d r))"
  shows "\<exists>d'. unlink_entry d r = Some (d', ref_entry d r) \<and> dict_ok T d' \<and> pauserehash d' = pauserehash d
     \<and> dict_map T d' = key_del T (dict_map T d) k \<and> dictSize d' + 1 = dictSize d"
proof -
  have st: "dict_struct T d" using assms(1) by (simp add: dict_ok_def)
  obtain d' where d': "unlink_entry d r = Some (d', ref_entry d r)" "dict_struct T d'" "pauserehash d' = pauserehash d"
    "add_mset (ref_entry d r) (entry_mset d') = entry_mset d"
    using unlink_entry_ok [OF st assms(2)] by blast
  have e: "add_mset (fst (ref_entry d r), snd (ref_entry d r)) (entry_mset d') = entry_mset d" using d'(4) by simp
  have "dictSize d' + 1 = dictSize d"
    using arg_cong [OF d'(4), of size] dict_struct_dictSize [OF st] dict_struct_dictSize [OF d'(2)] by simp
  then show ?thesis
    using lookup_delete [OF _ e assms(3)] d' assms(1) by (simp add: dict_ok_def dict_map_def)
qed

lemma del_absent: "dict_map T d k = None \<Longrightarrow> key_del T (dict_map T d) k = dict_map T d"
proof (rule ext)
  fix x assume "dict_map T d k = None"
  then show "key_del T (dict_map T d) k x = dict_map T d x"
    using lookup_compare [of x k "dict_entries d"] by (simp add: del_by_def dict_map_def)
qed

text \<open>Deletion, with the entry that was removed.\<close>

lemma dictGenericDelete_ok:
  assumes "dict_ok T d"
  shows "\<exists>d' e. dictGenericDelete T cr d k = Some (d', e) \<and> dict_ok T d' \<and> map_option snd e = dict_map T d k
     \<and> dict_map T d' = key_del T (dict_map T d) k
     \<and> dictSize d' + (if e = None then 0 else 1) = dictSize d"
proof (cases "dictSize d = 0")
  case True
  then show ?thesis
    using assms dict_map_size_0 [OF assms, of k] del_absent [of d k] by (simp add: dictGenericDelete_def)
next
  case False
  obtain d1 r idx where d1: "rehash_step_if T cr d = Some d1" "rehash_keeps T d d1" "dict_ok T d1"
    "find_entry T d1 k = Some (r, idx)"
    "case r of None \<Rightarrow> dict_map T d k = None
      | Some r \<Rightarrow> ref_ok d1 r \<and> keyCompare T k (fst (ref_entry d1 r)) \<and> dict_map T d k = Some (snd (ref_entry d1 r))"
    using step_find_ok [OF assms False] by blast
  note K = keeps_ok [OF assms d1(2)]
  show ?thesis
  proof (cases r)
    case None
    then show ?thesis
      using False d1 K del_absent [of d k] by (simp add: dictGenericDelete_def)
  next
    case (Some r')
    then show ?thesis
      using False d1 K delete_ok [of d1 r' k] by (fastforce simp: dictGenericDelete_def)
  qed
qed

lemma dictFindPositionForInsert_ok:
  assumes "dict_ok T d" "dictSize d < 2 ^ 60"
  shows "\<exists>d' p. dictFindPositionForInsert T cr d k = Some (d', p) \<and> rehash_keeps T d d' \<and> ht_size_exp0 d' \<noteq> -1 \<and>
     (case dict_map T d k of
        Some v \<Rightarrow> \<exists>r. p = Inl (Some r) \<and> ref_ok d' r \<and> keyCompare T k (fst (ref_entry d' r)) \<and> v = snd (ref_entry d' r)
      | None \<Rightarrow> let t = (if dictIsRehashing d' then 1 else 0)
                in p = Inr (t, hashFunction T k mod DICTHT_SIZE (ht_size_exp d' t)))"
proof -
  have st: "dict_struct T d" using assms(1) by (simp add: dict_ok_def)
  obtain d1 where d1: "rehash_step_if T cr d = Some d1" "rehash_keeps T d d1"
    using rehash_step_if_ok [OF st] by blast
  note K1 = keeps_ok [OF assms(1) d1(2)]
  have st1: "dict_struct T d1" using K1 by (simp add: dict_ok_def)
  obtain d2 where d2: "i_dictExpandIfNeeded T cr d1 = (d2, True)" "rehash_keeps T d1 d2" "ht_size_exp0 d2 \<noteq> -1"
    using i_dictExpandIfNeeded_ok [OF st1, of cr] K1(3) assms(2) by (cases "i_dictExpandIfNeeded T cr d1") auto
  note K2 = keeps_ok [OF K1(1) d2(2)]
  obtain r idx where f: "find_entry T d2 k = Some (r, idx)"
     "case r of
        None \<Rightarrow> dict_map T d2 k = None
          \<and> idx = hashFunction T k mod DICTHT_SIZE (ht_size_exp d2 (if dictIsRehashing d2 then 1 else 0))
      | Some r \<Rightarrow> ref_ok d2 r \<and> keyCompare T k (fst (ref_entry d2 r)) \<and> dict_map T d2 k = Some (snd (ref_entry d2 r))"
    using find_entry_ok [OF K2(1) d2(3)] by blast
  then show ?thesis
    using d1 d2 K1 K2 rehash_keeps_trans [OF d1(2) d2(2)]
    by (cases r) (auto simp: dictFindPositionForInsert_def Let_def)
qed

lemma insert_ok:
  fixes d :: "('k, 'v) dict"
  assumes "dict_ok T d" "ht_size_exp0 d \<noteq> -1" "dict_map T d k = None"
  defines "t \<equiv> (if dictIsRehashing d then 1 else 0)"
  defines "i \<equiv> hashFunction T k mod DICTHT_SIZE (ht_size_exp d t)"
  shows "\<exists>d'. dictInsertAtPosition d k v (t, i) = Some (d', (t, i, 0)) \<and> dict_ok T d' \<and> ref_ok d' (t, i, 0)
     \<and> ref_entry d' (t, i, 0) = (k, v)
     \<and> dict_map T d' = key_upd T (dict_map T d) k v \<and> dictSize d' = dictSize d + 1"
proof -
  have st: "dict_struct T d" using assms(1) by (simp add: dict_ok_def)
  have t: "t \<le> 1" "ht_size_exp d t \<noteq> -1"
    using assms(2) dict_struct_rehashing(2) [OF st] by (auto simp: t_def dictIsRehashing_def)
  note D = table_okD [OF dict_struct_table_ok [OF st t(1)] t(2)]
  have il: "i < length (ht_table d t)" using D(3) t(2) by (simp add: i_def)
  define d' where "d' = set_bucket t i ((k, v) # ht_table d t ! i) (ht_used d t + 1) d"
  have mask: "i \<le> DICTHT_SIZE_MASK (ht_size_exp d t)"
    using il D(3) t(2) by (simp add: DICTHT_SIZE_MASK_def)
  have run: "dictInsertAtPosition d k v (t, i) = Some (d', (t, i, 0))"
    using mask il unfolding dictInsertAtPosition_def by (simp add: mem_get_def d'_def Let_def flip: t_def)
  have st': "dict_struct T d'"
    unfolding d'_def using D(5) [OF il] t(1) il
    by (intro dict_struct_set_bucket [OF st]) (auto simp: i_def t_def split: if_splits)
  have m: "entry_mset d' = add_mset (k, v) (entry_mset d)"
    using entry_mset_set_bucket [OF t(1) il, where b = "(k, v) # ht_table d t ! i" and u = "ht_used d t + 1"] by (simp add: d'_def)
  have s: "dictSize d' = dictSize d + 1"
    using arg_cong [OF m, of size] dict_struct_dictSize [OF st] dict_struct_dictSize [OF st'] by simp
  have "ht_table d' t = (ht_table d t)[i := (k, v) # ht_table d t ! i]"
    using t(1) by (auto simp: d'_def set_table_def set_used_def ht_table_def)
  then have "ref_ok d' (t, i, 0)" "ref_entry d' (t, i, 0) = (k, v)" using t(1) il by auto
  then show ?thesis
    using run s st' lookup_insert [OF _ m] assms(1,3) by (simp add: dict_ok_def dict_map_def)
qed

lemma setVal_ok:
  assumes "dict_ok T d" "ref_ok d r" "keyCompare T k (fst (ref_entry d r))"
  shows "\<exists>d'. dictSetVal d r v = Some d' \<and> dict_ok T d' \<and> pauserehash d' = pauserehash d
     \<and> dict_map T d' = key_upd T (dict_map T d) k v \<and> dictSize d' = dictSize d"
proof -
  have st: "dict_struct T d" using assms(1) by (simp add: dict_ok_def)
  obtain d' where d': "dictSetVal d r v = Some d'" "dict_struct T d'" "pauserehash d' = pauserehash d"
    "entry_mset d' + {#ref_entry d r#} = entry_mset d + {#(fst (ref_entry d r), v)#}"
    using dictSetVal_ok [OF st assms(2)] by blast
  have e: "entry_mset d' + {#(fst (ref_entry d r), snd (ref_entry d r))#} = entry_mset d + {#(fst (ref_entry d r), v)#}"
    using d'(4) by simp
  have "(fst (ref_entry d r), snd (ref_entry d r)) \<in> set (dict_entries d)" using ref_entry_in [OF assms(2)] by simp
  note L = lookup_replace [OF _ e assms(3) this]
  have "dictSize d' = dictSize d"
    using arg_cong [OF d'(4), of size] dict_struct_dictSize [OF st] dict_struct_dictSize [OF d'(2)] by simp
  then show ?thesis using L d' assms(1) by (simp add: dict_ok_def dict_map_def)
qed

end

context dict_type
begin

lemma dictAddRaw_ok:
  assumes "dict_ok T d" "dictSize d < 2 ^ 60"
  shows "\<exists>d' p. dictAddRaw T cr d k v0 = Some (d', p) \<and> dict_ok T d' \<and>
     (case dict_map T d k of
        Some v \<Rightarrow> \<exists>r. p = Inl (Some r) \<and> ref_ok d' r \<and> keyCompare T k (fst (ref_entry d' r))
                   \<and> dict_map T d' = dict_map T d \<and> dictSize d' = dictSize d
      | None \<Rightarrow> \<exists>r. p = Inr r \<and> ref_ok d' r \<and> fst (ref_entry d' r) = k
                   \<and> dict_map T d' = key_upd T (dict_map T d) k v0 \<and> dictSize d' = dictSize d + 1)"
proof -
  obtain d1 p where p: "dictFindPositionForInsert T cr d k = Some (d1, p)" "rehash_keeps T d d1" "ht_size_exp0 d1 \<noteq> -1"
    "case dict_map T d k of
        Some v \<Rightarrow> \<exists>r. p = Inl (Some r) \<and> ref_ok d1 r \<and> keyCompare T k (fst (ref_entry d1 r)) \<and> v = snd (ref_entry d1 r)
      | None \<Rightarrow> let t = (if dictIsRehashing d1 then 1 else 0)
                in p = Inr (t, hashFunction T k mod DICTHT_SIZE (ht_size_exp d1 t))"
    using dictFindPositionForInsert_ok [OF assms] by blast
  note K = keeps_ok [OF assms(1) p(2)]
  show ?thesis
  proof (cases "dict_map T d k")
    case None
    then obtain d2 r where "dictInsertAtPosition d1 k v0 (projr p) = Some (d2, r)" "dict_ok T d2" "ref_ok d2 r"
      "ref_entry d2 r = (k, v0)" "dict_map T d2 = key_upd T (dict_map T d) k v0" "dictSize d2 = dictSize d + 1"
      using insert_ok [OF K(1) p(3), of k v0] p(4) K(2,3) by (auto simp: Let_def)
    then show ?thesis using None p by (auto simp: dictAddRaw_def Let_def simp del: split_paired_Ex)
  next
    case (Some v)
    then show ?thesis using p K by (auto simp: dictAddRaw_def)
  qed
qed

lemma upd_upd: "key_upd T (key_upd T m k v) k v' = key_upd T m k v'"
  by (simp add: upd_by_def fun_eq_iff)

lemma dictAdd_ok:
  assumes "dict_ok T d" "dictSize d < 2 ^ 60"
  shows "\<exists>d'. dictAdd T cr v0 d k v = Some (d', dict_map T d k = None) \<and> dict_ok T d'
     \<and> dict_map T d' = (if dict_map T d k = None then key_upd T (dict_map T d) k v else dict_map T d)
     \<and> dictSize d' \<le> dictSize d + 1"
proof -
  obtain d1 p where p: "dictAddRaw T cr d k v0 = Some (d1, p)" "dict_ok T d1"
     "case dict_map T d k of
        Some v \<Rightarrow> \<exists>r. p = Inl (Some r) \<and> ref_ok d1 r \<and> keyCompare T k (fst (ref_entry d1 r))
                   \<and> dict_map T d1 = dict_map T d \<and> dictSize d1 = dictSize d
      | None \<Rightarrow> \<exists>r. p = Inr r \<and> ref_ok d1 r \<and> fst (ref_entry d1 r) = k
                   \<and> dict_map T d1 = key_upd T (dict_map T d) k v0 \<and> dictSize d1 = dictSize d + 1"
    using dictAddRaw_ok [OF assms] by blast
  show ?thesis
  proof (cases "dict_map T d k")
    case None
    then obtain r where r: "p = Inr r" "ref_ok d1 r" "fst (ref_entry d1 r) = k"
        "dict_map T d1 = key_upd T (dict_map T d) k v0" "dictSize d1 = dictSize d + 1" using p(3) by auto
    then show ?thesis
      using setVal_ok [OF p(2) r(2), of k v] p(1) None by (auto simp: dictAdd_def compare_refl upd_upd)
  qed (use p in \<open>auto simp: dictAdd_def\<close>)
qed

lemma dictReplace_ok:
  assumes "dict_ok T d" "dictSize d < 2 ^ 60"
  shows "\<exists>d'. dictReplace T cr v0 d k v = Some (d', dict_map T d k = None) \<and> dict_ok T d'
     \<and> dict_map T d' = key_upd T (dict_map T d) k v \<and> dictSize d' \<le> dictSize d + 1"
proof -
  obtain d1 p where p: "dictAddRaw T cr d k v0 = Some (d1, p)" "dict_ok T d1"
     "case dict_map T d k of
        Some v \<Rightarrow> \<exists>r. p = Inl (Some r) \<and> ref_ok d1 r \<and> keyCompare T k (fst (ref_entry d1 r))
                   \<and> dict_map T d1 = dict_map T d \<and> dictSize d1 = dictSize d
      | None \<Rightarrow> \<exists>r. p = Inr r \<and> ref_ok d1 r \<and> fst (ref_entry d1 r) = k
                   \<and> dict_map T d1 = key_upd T (dict_map T d) k v0 \<and> dictSize d1 = dictSize d + 1"
    using dictAddRaw_ok [OF assms] by blast
  show ?thesis
  proof (cases "dict_map T d k")
    case None
    then obtain r where r: "p = Inr r" "ref_ok d1 r" "fst (ref_entry d1 r) = k"
        "dict_map T d1 = key_upd T (dict_map T d) k v0" "dictSize d1 = dictSize d + 1" using p(3) by auto
    then show ?thesis
      using setVal_ok [OF p(2) r(2), of k v] p(1) None by (auto simp: dictReplace_def compare_refl upd_upd)
  next
    case (Some w)
    then obtain r where r: "p = Inl (Some r)" "ref_ok d1 r" "keyCompare T k (fst (ref_entry d1 r))"
        "dict_map T d1 = dict_map T d" "dictSize d1 = dictSize d" using p(3) by auto
    then show ?thesis
      using setVal_ok [OF p(2) r(2,3), of v] p(1) Some by (auto simp: dictReplace_def)
  qed
qed

lemma dictDelete_ok:
  assumes "dict_ok T d"
  shows "\<exists>d'. dictDelete T cr d k = Some (d', dict_map T d k \<noteq> None) \<and> dict_ok T d'
     \<and> dict_map T d' = key_del T (dict_map T d) k \<and> dictSize d' \<le> dictSize d"
proof -
  obtain d' e where "dictGenericDelete T cr d k = Some (d', e)" "dict_ok T d'" "map_option snd e = dict_map T d k"
     "dict_map T d' = key_del T (dict_map T d) k" "dictSize d' + (if e = None then 0 else 1) = dictSize d"
    using dictGenericDelete_ok [OF assms] by blast
  then show ?thesis by (cases e) (auto simp: dictDelete_def dest: sym [of "Some _"])
qed

lemma dict_step_ok:
  assumes "dict_ok T d" "dictSize d < 2 ^ 60"
  shows "\<exists>d' r. dict_step T cr v0 d op = Some (d', r) \<and> dict_ok T d'
     \<and> spec_map_op (keyCompare T) (dict_map T d) op = (dict_map T d', r) \<and> dictSize d' \<le> dictSize d + 1"
proof (cases op)
  case (MAdd k v)
  then show ?thesis using dictAdd_ok [OF assms, of cr v0 k v] by auto
next
  case (MReplace k v)
  then show ?thesis using dictReplace_ok [OF assms, of cr v0 k v] by auto
next
  case (MDel k)
  then show ?thesis using dictDelete_ok [OF assms(1), of cr k] by fastforce
next
  case (MGet k)
  obtain d' where f: "dictFetchValue T cr d k = Some (d', dict_map T d k)" "rehash_keeps T d d'"
    using dictFetchValue_ok [OF assms(1)] by blast
  then show ?thesis using MGet keeps_ok [OF assms(1) f(2)] by auto
qed

text \<open>Unlinking in two phases is deletion; in between, rehashing is paused.\<close>

lemma dictTwoPhaseUnlink_ok:
  assumes "dict_ok T d"
  shows "\<exists>d1 r d2. dictTwoPhaseUnlinkFind T cr d k = Some (d1, r) \<and> dictTwoPhaseUnlinkFree d1 r = Some d2
     \<and> (r \<noteq> None \<longleftrightarrow> dict_map T d k \<noteq> None) \<and> (r \<noteq> None \<longrightarrow> pauserehash d1 = pauserehash d + 1)
     \<and> dict_map T d1 = dict_map T d \<and> pauserehash d2 = pauserehash d
     \<and> dict_ok T d2 \<and> dict_map T d2 = key_del T (dict_map T d) k"
proof (cases "dictSize d = 0")
  case True
  then show ?thesis
    using assms dict_map_size_0 [OF assms, of k] del_absent [of d k]
    by (simp add: dictTwoPhaseUnlinkFind_def dictTwoPhaseUnlinkFree_def)
next
  case False
  obtain d1 r idx where d1: "rehash_step_if T cr d = Some d1" "rehash_keeps T d d1" "dict_ok T d1"
    "find_entry T d1 k = Some (r, idx)"
    "case r of None \<Rightarrow> dict_map T d k = None
      | Some r \<Rightarrow> ref_ok d1 r \<and> keyCompare T k (fst (ref_entry d1 r)) \<and> dict_map T d k = Some (snd (ref_entry d1 r))"
    using step_find_ok [OF assms False] by blast
  note K = keeps_ok [OF assms d1(2)]
  have pr: "pauserehash d1 = pauserehash d" using d1(2) by (simp add: rehash_keeps_def)
  show ?thesis
  proof (cases r)
    case None
    then show ?thesis
      using False d1 K pr del_absent [of d k] by (simp add: dictTwoPhaseUnlinkFind_def dictTwoPhaseUnlinkFree_def)
  next
    case (Some r')
    define d1' where "d1' = d1\<lparr>pauserehash := pauserehash d1 + 1\<rparr>"
    have same: "dict_ok T d1'" "ref_ok d1' r'" "ref_entry d1' r' = ref_entry d1 r'" "dict_map T d1' = dict_map T d1"
      using d1(3,5) Some
      by (auto simp: d1'_def dict_ok_def dict_struct_def dict_entries_def dict_map_def ht_table_def cong: if_cong
          intro: prod_cases3 [of r'])
    then obtain d2 where d2: "unlink_entry d1' r' = Some (d2, ref_entry d1' r')" "dict_ok T d2"
        "pauserehash d2 = pauserehash d1'" "dict_map T d2 = key_del T (dict_map T d1') k"
      using delete_ok [of d1' r' k] d1(5) Some by auto
    have "dict_ok T (d2\<lparr>pauserehash := pauserehash d2 - 1\<rparr>)"
      "dict_map T (d2\<lparr>pauserehash := pauserehash d2 - 1\<rparr>) = dict_map T d2"
      using d2(2) by (auto simp: dict_ok_def dict_struct_def dict_entries_def dict_map_def)
    then show ?thesis
      using False d1 d2 K Some same pr
      by (auto simp: dictTwoPhaseUnlinkFind_def dictTwoPhaseUnlinkFree_def d1'_def simp del: split_paired_Ex)
  qed
qed

end

sublocale dict_type \<subseteq> dmap: map_adt "dict_ok T" "dict_map T" "keyCompare T" dictSize "2 ^ 60" "dict_step T cr v0"
  for cr v0
  by unfold_locales (rule dict_step_ok)

lemma dictCreate_ok [simp]: "dict_ok T dictCreate" "dict_map T dictCreate = (\<lambda>_. None)" "dictSize dictCreate = 0"
  by (auto simp: dict_ok_def dict_struct_def dictCreate_def dict_map_def dict_entries_def dict_lookup_def
      distinct_keys_def dictSize_def fun_eq_iff)

lemma dictEmpty_ok: "dict_ok T (dictEmpty d)" "dict_map T (dictEmpty d) = (\<lambda>_. None)"
  by (auto simp: dict_ok_def dict_struct_def dictEmpty_def i_dictReset_def dict_map_def dict_entries_def dict_lookup_def
      distinct_keys_def fun_eq_iff)

section \<open>Rehashing comes to an end\<close>

lemma rehash_ms_loop_ok:
  assumes "dict_struct T d" "list_all (\<lambda>now. now \<le> ms) clock"
    and "nat (int (length (ht_table0 d)) - rehashidx d) < length clock"
  shows "\<exists>d' n'. rehash_ms_loop T DICT_RESIZE_ENABLE clock ms d n = Some (d', n') \<and> rehash_keeps T d d'
     \<and> \<not> dictIsRehashing d'"
  using assms
proof (induction clock arbitrary: d n)
  case (Cons now clock)
  obtain d1 more where r: "dictRehash T DICT_RESIZE_ENABLE d 100 = Some (d1, more)" "rehash_keeps T d d1"
       "more = dictIsRehashing d1"
       "more \<longrightarrow> dictIsRehashing d \<and> dictIsRehashing d1 \<and> ht_size_exp0 d1 = ht_size_exp0 d \<and> rehashidx d < rehashidx d1"
    using dictRehash_ok [OF Cons.prems(1), of 100 DICT_RESIZE_ENABLE] by auto
  have st1: "dict_struct T d1" using r(2) by (simp add: rehash_keeps_def)
  show ?case
  proof (cases more)
    case False
    then show ?thesis using r by auto
  next
    case True
    have "length (ht_table0 d1) = length (ht_table0 d)"
      using table_okD(3) [OF dict_struct_tables(1) [OF Cons.prems(1)]] table_okD(3) [OF dict_struct_tables(1) [OF st1]]
        r(4) True dict_struct_table0 [OF st1] by auto
    moreover have "rehashidx d1 \<le> int (length (ht_table0 d1))"
      using dict_struct_rehashing(4) [OF st1] r(4) True by (auto simp: dictIsRehashing_def)
    ultimately have "nat (int (length (ht_table0 d1)) - rehashidx d1) < length clock"
      using Cons.prems(3) r(4) True by auto
    then obtain d' n' where "rehash_ms_loop T DICT_RESIZE_ENABLE clock ms d1 (n + 100) = Some (d', n')"
        "rehash_keeps T d1 d'" "\<not> dictIsRehashing d'"
      using Cons.IH [OF st1, of "n + 100"] Cons.prems(2) by auto
    then show ?thesis
      using r(1,2) True Cons.prems(2) rehash_keeps_trans by fastforce
  qed
qed simp

end
