(* ===== verification/Siphash.thy ===== *)
theory Siphash
  imports Prelude
begin

text \<open>
  The keyed hash of \<open>src/redis/redis-7.2.3/src/siphash.c\<close> (SipHash 1-2) and its case-insensitive variant.
  The input is its list of bytes, the 64-bit state four words. On a little-endian processor an
  8-byte load is the same as combining the bytes by shifts, so one definition serves both variants
  of \<open>U8TO64_LE\<close>.
\<close>

type_synonym word64 = "64 word"

definition siptlw :: "byte \<Rightarrow> byte" where
  "siptlw c = (if c \<ge> 65 \<and> c \<le> 90 then c + 32 else c)"

definition ROTL :: "word64 \<Rightarrow> nat \<Rightarrow> word64" where
  "ROTL x b = push_bit b x OR drop_bit (64 - b) x"

text \<open>Up to eight bytes, the first one least significant.\<close>

fun U8TO64_LE :: "bytes \<Rightarrow> word64" where
  "U8TO64_LE [] = 0"
| "U8TO64_LE (b # p) = ucast b OR push_bit 8 (U8TO64_LE p)"

definition U8TO64_LE_NOCASE :: "bytes \<Rightarrow> word64" where
  "U8TO64_LE_NOCASE p = U8TO64_LE (map siptlw p)"

type_synonym sip_state = "word64 \<times> word64 \<times> word64 \<times> word64"

definition SIPROUND :: "sip_state \<Rightarrow> sip_state" where
  "SIPROUND = (\<lambda>(v0, v1, v2, v3).
     let v0 = v0 + v1;
         v1 = ROTL v1 13;
         v1 = v1 XOR v0;
         v0 = ROTL v0 32;
         v2 = v2 + v3;
         v3 = ROTL v3 16;
         v3 = v3 XOR v2;
         v0 = v0 + v3;
         v3 = ROTL v3 21;
         v3 = v3 XOR v0;
         v2 = v2 + v1;
         v1 = ROTL v1 17;
         v1 = v1 XOR v2;
         v2 = ROTL v2 32
     in (v0, v1, v2, v3))"

definition sip_init :: "bytes \<Rightarrow> sip_state" where
  "sip_init k =
     (let k0 = U8TO64_LE (take 8 k); k1 = U8TO64_LE (take 8 (drop 8 k))
      in (0x736f6d6570736575 XOR k0, 0x646f72616e646f6d XOR k1,
          0x6c7967656e657261 XOR k0, 0x7465646279746573 XOR k1))"

definition sip_absorb :: "word64 \<Rightarrow> sip_state \<Rightarrow> sip_state" where
  "sip_absorb m = (\<lambda>(v0, v1, v2, v3).
     case SIPROUND (v0, v1, v2, v3 XOR m) of (v0, v1, v2, v3) \<Rightarrow> (v0 XOR m, v1, v2, v3))"

text \<open>The loop over the full 8-byte blocks; it leaves the \<open>left\<close> last bytes.\<close>

function sip_blocks :: "(bytes \<Rightarrow> word64) \<Rightarrow> bytes \<Rightarrow> sip_state \<Rightarrow> bytes \<times> sip_state" where
  "sip_blocks load inp v =
     (if length inp < 8 then (inp, v)
      else sip_blocks load (drop 8 inp) (sip_absorb (load (take 8 inp)) v))"
  by pat_completeness auto
termination
  by (relation "measure (\<lambda>(_, inp, _). length inp)") auto

declare sip_blocks.simps [simp del]

text \<open>\<open>((uint64_t)inlen) << 56\<close>, the last bytes, and the finalisation.\<close>

definition sip_final :: "word64 \<Rightarrow> sip_state \<Rightarrow> word64" where
  "sip_final b v =
     (case sip_absorb b v of (v0, v1, v2, v3) \<Rightarrow>
      case SIPROUND (SIPROUND (v0, v1, v2 XOR 0xff, v3)) of (v0, v1, v2, v3) \<Rightarrow>
        v0 XOR v1 XOR v2 XOR v3)"

definition siphash :: "bytes \<Rightarrow> bytes \<Rightarrow> word64" where
  "siphash inp k =
     (case sip_blocks U8TO64_LE inp (sip_init k) of (left, v) \<Rightarrow>
        sip_final (push_bit 56 (of_nat (length inp)) OR U8TO64_LE left) v)"

definition siphash_nocase :: "bytes \<Rightarrow> bytes \<Rightarrow> word64" where
  "siphash_nocase inp k =
     (case sip_blocks U8TO64_LE_NOCASE inp (sip_init k) of (left, v) \<Rightarrow>
        sip_final (push_bit 56 (of_nat (length inp)) OR U8TO64_LE_NOCASE left) v)"

section \<open>The case-insensitive hash\<close>

lemma sip_blocks_nocase:
  "sip_blocks U8TO64_LE (map siptlw inp) v = apfst (map siptlw) (sip_blocks U8TO64_LE_NOCASE inp v)"
proof (induction U8TO64_LE_NOCASE inp v rule: sip_blocks.induct)
  case (1 inp v)
  then show ?case
    by (subst (1 2) sip_blocks.simps) (simp add: U8TO64_LE_NOCASE_def take_map drop_map)
qed

lemma siphash_nocase_map: "siphash_nocase inp k = siphash (map siptlw inp) k"
proof -
  have "sip_blocks U8TO64_LE (map siptlw inp) (sip_init k)
      = apfst (map siptlw) (sip_blocks U8TO64_LE_NOCASE inp (sip_init k))"
    by (rule sip_blocks_nocase)
  then show ?thesis
    by (simp add: siphash_def siphash_nocase_def U8TO64_LE_NOCASE_def case_prod_unfold)
qed


end
