(* ===== verification/Dict_Types.thy ===== *)
theory Dict_Types
  imports Dict_Map Siphash Util_Num
begin

text \<open>
  The dict types of \<open>server.c\<close>: hash functions and key comparisons for sds strings, C strings (with
  and without case) and string objects, and the load-factor rule that may forbid growing. Each
  pair of callbacks is shown to satisfy the contract \<open>dict_type\<close>, except the case-insensitive one on
  sds keys, which satisfies it on keys without a NUL byte only.
\<close>

section \<open>Hash functions and comparisons\<close>

definition dictGenHashFunction :: "bytes \<Rightarrow> bytes \<Rightarrow> nat" where
  "dictGenHashFunction seed key = unat (siphash key seed)"

definition dictGenCaseHashFunction :: "bytes \<Rightarrow> bytes \<Rightarrow> nat" where
  "dictGenCaseHashFunction seed buf = unat (siphash_nocase buf seed)"

definition dictSdsKeyCompare :: "bytes \<Rightarrow> bytes \<Rightarrow> bool" where
  "dictSdsKeyCompare key1 key2 \<longleftrightarrow> (if length key1 \<noteq> length key2 then False else key1 = key2)"

text \<open>The C string at the start of an sds, which always ends in a NUL byte of its own.\<close>

definition c_str :: "bytes \<Rightarrow> bytes" where
  "c_str s = takeWhile (\<lambda>b. b \<noteq> 0) s"

text \<open>\<open>strcasecmp(a, b) == 0\<close> in the C locale.\<close>

definition strcaseeq :: "bytes \<Rightarrow> bytes \<Rightarrow> bool" where
  "strcaseeq a b \<longleftrightarrow> map siptlw (c_str a) = map siptlw (c_str b)"

definition dictSdsKeyCaseCompare :: "bytes \<Rightarrow> bytes \<Rightarrow> bool" where
  "dictSdsKeyCaseCompare key1 key2 = strcaseeq key1 key2"

definition dictSdsHash :: "bytes \<Rightarrow> bytes \<Rightarrow> nat" where
  "dictSdsHash seed key = dictGenHashFunction seed key"

definition dictSdsCaseHash :: "bytes \<Rightarrow> bytes \<Rightarrow> nat" where
  "dictSdsCaseHash seed key = dictGenCaseHashFunction seed key"

definition dictCStrHash :: "bytes \<Rightarrow> bytes \<Rightarrow> nat" where
  "dictCStrHash seed key = dictGenHashFunction seed (c_str key)"

definition dictCStrCaseHash :: "bytes \<Rightarrow> bytes \<Rightarrow> nat" where
  "dictCStrCaseHash seed key = dictGenCaseHashFunction seed (c_str key)"

definition dictCStrKeyCompare :: "bytes \<Rightarrow> bytes \<Rightarrow> bool" where
  "dictCStrKeyCompare key1 key2 \<longleftrightarrow>
     (let l1 = length (c_str key1); l2 = length (c_str key2)
      in if l1 \<noteq> l2 then False else take l1 key1 = take l1 key2)"

definition dictCStrKeyCaseCompare :: "bytes \<Rightarrow> bytes \<Rightarrow> bool" where
  "dictCStrKeyCaseCompare key1 key2 = strcaseeq key1 key2"

text \<open>
  A string object is an integer in the pointer itself (\<open>OBJ_ENCODING_INT\<close>) or an sds. Decoding prints
  the integer into a buffer of 32 bytes, whose old contents is \<open>junk\<close>.
\<close>

datatype strobj = OBJ_INT word64 | OBJ_SDS bytes

definition obj_decoded :: "byte \<Rightarrow> strobj \<Rightarrow> bytes option" where
  "obj_decoded junk ob =
     (case ob of
        OBJ_SDS s \<Rightarrow> Some s
      | OBJ_INT v \<Rightarrow> map_option (\<lambda>(buf, len). take len buf) (ll2string (replicate 32 junk) 32 (sint v)))"

definition dictEncObjKeyCompare :: "byte \<Rightarrow> strobj \<Rightarrow> strobj \<Rightarrow> bool option" where
  "dictEncObjKeyCompare junk o1 o2 =
     (case (o1, o2) of
        (OBJ_INT v1, OBJ_INT v2) \<Rightarrow> Some (v1 = v2)
      | _ \<Rightarrow> do { s1 \<leftarrow> obj_decoded junk o1; s2 \<leftarrow> obj_decoded junk o2; Some (dictSdsKeyCompare s1 s2) })"

definition dictEncObjHash :: "bytes \<Rightarrow> byte \<Rightarrow> strobj \<Rightarrow> nat option" where
  "dictEncObjHash seed junk ob =
     (case ob of
        OBJ_SDS s \<Rightarrow> Some (dictGenHashFunction seed s)
      | OBJ_INT v \<Rightarrow>
          do { (buf, len) \<leftarrow> ll2string (replicate 32 junk) 32 (sint v);
               Some (dictGenHashFunction seed (take len buf)) })"

section \<open>Growing under \<open>maxmemory\<close>\<close>

text \<open>
  \<open>zmalloc_used_memory()\<close> and \<open>freeMemoryGetNotCountedMemory()\<close> are parameters. \<open>size_t\<close> additions wrap.
\<close>

definition overMaxmemoryAfterAlloc :: "nat \<Rightarrow> nat \<Rightarrow> nat \<Rightarrow> nat \<Rightarrow> bool" where
  "overMaxmemoryAfterAlloc maxmemory used_memory not_counted moremem =
     (if maxmemory = 0 then False
      else
        let mem_used = used_memory in
        if (mem_used + moremem) mod 2 ^ 64 \<le> maxmemory then False
        else
          let overhead = not_counted;
              mem_used = (if mem_used > overhead then mem_used - overhead else 0)
          in (mem_used + moremem) mod 2 ^ 64 > maxmemory)"

text \<open>
  The ratio is the quotient of two integers, the second one a power of two, so as long as it is
  exact in a \<open>double\<close> (up to \<open>2 ^ 52\<close> buckets) the test against 1.618 is this one.
\<close>

definition dictExpandAllowed :: "(nat \<Rightarrow> bool) \<Rightarrow> nat \<Rightarrow> nat \<times> nat \<Rightarrow> bool" where
  "dictExpandAllowed over_maxmemory moreMem usedRatio =
     (case usedRatio of (used, size') \<Rightarrow>
        if used * 1000 \<le> 1618 * size' then \<not> over_maxmemory moreMem else True)"

section \<open>The dict types\<close>

definition setDictType :: "bytes \<Rightarrow> bytes dictType" where
  "setDictType seed = \<lparr>hashFunction = dictSdsHash seed, keyCompare = dictSdsKeyCompare, expandAllowed = None\<rparr>"

definition hashDictType :: "bytes \<Rightarrow> bytes dictType" where
  "hashDictType seed = \<lparr>hashFunction = dictSdsHash seed, keyCompare = dictSdsKeyCompare, expandAllowed = None\<rparr>"

definition zsetDictType :: "bytes \<Rightarrow> bytes dictType" where
  "zsetDictType seed = \<lparr>hashFunction = dictSdsHash seed, keyCompare = dictSdsKeyCompare, expandAllowed = None\<rparr>"

definition dbDictType :: "bytes \<Rightarrow> (nat \<Rightarrow> bool) \<Rightarrow> bytes dictType" where
  "dbDictType seed over = \<lparr>hashFunction = dictSdsHash seed, keyCompare = dictSdsKeyCompare,
                           expandAllowed = Some (dictExpandAllowed over)\<rparr>"

definition dbExpiresDictType :: "bytes \<Rightarrow> (nat \<Rightarrow> bool) \<Rightarrow> bytes dictType" where
  "dbExpiresDictType seed over = \<lparr>hashFunction = dictSdsHash seed, keyCompare = dictSdsKeyCompare,
                                  expandAllowed = Some (dictExpandAllowed over)\<rparr>"

definition commandTableDictType :: "bytes \<Rightarrow> bytes dictType" where
  "commandTableDictType seed =
     \<lparr>hashFunction = dictSdsCaseHash seed, keyCompare = dictSdsKeyCaseCompare, expandAllowed = None\<rparr>"

definition stringSetDictType :: "bytes \<Rightarrow> bytes dictType" where
  "stringSetDictType seed =
     \<lparr>hashFunction = dictCStrCaseHash seed, keyCompare = dictCStrKeyCaseCompare, expandAllowed = None\<rparr>"

definition objectKeyPointerValueDictType :: "bytes \<Rightarrow> byte \<Rightarrow> strobj dictType" where
  "objectKeyPointerValueDictType seed junk =
     \<lparr>hashFunction = (\<lambda>k. case dictEncObjHash seed junk k of Some h \<Rightarrow> h | None \<Rightarrow> 0),
      keyCompare = (\<lambda>a b. dictEncObjKeyCompare junk a b = Some True), expandAllowed = None\<rparr>"

section \<open>They keep the contract\<close>

lemma dictSdsKeyCompare_eq [simp]: "dictSdsKeyCompare a b \<longleftrightarrow> a = b"
  by (auto simp: dictSdsKeyCompare_def)

interpretation sds_set: dict_type "setDictType seed" for seed
  by unfold_locales (auto simp: setDictType_def)

interpretation sds_hash: dict_type "hashDictType seed" for seed
  by unfold_locales (auto simp: hashDictType_def)

interpretation sds_zset: dict_type "zsetDictType seed" for seed
  by unfold_locales (auto simp: zsetDictType_def)

interpretation sds_db: dict_type "dbDictType seed over" for seed over
  by unfold_locales (auto simp: dbDictType_def)

interpretation sds_expires: dict_type "dbExpiresDictType seed over" for seed over
  by unfold_locales (auto simp: dbExpiresDictType_def)

interpretation cstr_case: dict_type "stringSetDictType seed" for seed
  by unfold_locales
     (auto simp: stringSetDictType_def dictCStrKeyCaseCompare_def strcaseeq_def dictCStrCaseHash_def
        dictGenCaseHashFunction_def siphash_nocase_map)

lemma is_int64_sint: "is_int64 (sint (v :: word64))"
  using sint_greater_eq [of v] sint_less [of v] by (simp add: is_int64_def)

lemma ll_repr_inj: "is_int64 a \<Longrightarrow> is_int64 b \<Longrightarrow> ll_repr a = ll_repr b \<Longrightarrow> a = b"
  by (metis option.inject string2ll_complete)

lemma ll2string_32: "ll2string (replicate 32 junk) 32 (sint (v :: word64))
    = Some (ll_repr (sint v) @ 0 # drop (Suc (length (ll_repr (sint v)))) (replicate 32 junk), length (ll_repr (sint v)))"
  using length_ll_repr [OF is_int64_sint, of v] by (intro ll2string_correct is_int64_sint) auto

lemma obj_decoded_eq:
  "obj_decoded junk ob = Some (case ob of OBJ_SDS s \<Rightarrow> s | OBJ_INT v \<Rightarrow> ll_repr (sint v))"
  by (simp add: obj_decoded_def ll2string_32 split: strobj.split)

lemma dictEncObjHash_eq: "dictEncObjHash seed junk ob = map_option (dictGenHashFunction seed) (obj_decoded junk ob)"
  by (simp add: dictEncObjHash_def obj_decoded_def ll2string_32 split: strobj.split)

lemma ll_repr_sint_inj: "ll_repr (sint (v :: word64)) = ll_repr (sint w) \<longleftrightarrow> v = w"
  using ll_repr_inj [OF is_int64_sint is_int64_sint, of v w] by (auto intro: signed_word_eqI)

lemma dictEncObjKeyCompare_eq: "dictEncObjKeyCompare junk a b = Some (obj_decoded junk a = obj_decoded junk b)"
  by (auto simp: dictEncObjKeyCompare_def obj_decoded_eq ll_repr_sint_inj split: strobj.split)

interpretation encobj: dict_type "objectKeyPointerValueDictType seed junk" for seed junk
  by unfold_locales
     (auto simp: objectKeyPointerValueDictType_def dictEncObjKeyCompare_eq dictEncObjHash_eq obj_decoded_eq)

end
