(* ===== verification/Dict_Scan.thy ===== *)
theory Dict_Scan
  imports Dict_Map
begin

text \<open>
  Iterating over a hash table: the reversed cursor of \<open>dictScan\<close> visits every entry that stays in the
  dict during the whole iteration, whatever resizing happens in between, and safe iterators return
  every entry exactly once.
\<close>

section \<open>Bit reversal\<close>

definition rev_mask :: "nat \<Rightarrow> ulong \<Rightarrow> bool" where
  "rev_mask s m \<longleftrightarrow> (\<forall>n<64. bit m n \<longleftrightarrow> even (n div s))"

lemma parity_half: "even (q :: nat) \<longleftrightarrow> even (q div 2) \<noteq> (1 \<le> q \<and> even ((q - 1) div 2))"
proof (cases "even q")
  case True
  then obtain k where "q = 2 * k" by (elim evenE)
  then show ?thesis by (cases k) auto
next
  case False
  then obtain k where "q = 2 * k + 1" by (elim oddE)
  then show ?thesis by simp
qed

lemma parity_step:
  assumes "0 < (s :: nat)"
  shows "even (n div s) \<longleftrightarrow> even (n div (2 * s)) \<noteq> (s \<le> n \<and> even ((n - s) div (2 * s)))"
proof -
  define q where "q = n div s"
  have a: "k div (2 * s) = (k div s) div 2" for k by (simp add: mult.commute [of 2] div_mult2_eq)
  have b: "s \<le> n \<longleftrightarrow> 1 \<le> q" using assms by (simp add: q_def Suc_le_eq div_greater_zero_iff)
  have c: "s \<le> n \<Longrightarrow> (n - s) div s = q - 1"
    using assms le_div_geq [of s n] by (simp add: q_def)
  show ?thesis
    using parity_half [of q] b c unfolding a by (auto simp: q_def)
qed

lemma rev_mask_step:
  assumes "rev_mask (2 * s) m" "0 < s"
  shows "rev_mask s (m XOR push_bit s m)"
  unfolding rev_mask_def
proof (intro allI impI)
  fix n :: nat assume "n < 64"
  then have "bit (m XOR push_bit s m) n \<longleftrightarrow> even (n div (2 * s)) \<noteq> (s \<le> n \<and> even ((n - s) div (2 * s)))"
    using assms(1) by (simp add: rev_mask_def bit_xor_iff bit_push_bit_iff)
  then show "bit (m XOR push_bit s m) n \<longleftrightarrow> even (n div s)"
    using parity_step [OF assms(2), of n] by simp
qed

text \<open>One round exchanges neighbouring blocks of \<open>s\<close> bits.\<close>

definition swap_index :: "nat \<Rightarrow> nat \<Rightarrow> nat" where
  "swap_index s n = (if even (n div s) then s + n else n - s)"

lemma odd_div_ge: "odd (n div s) \<Longrightarrow> s \<le> (n :: nat)"
  by (cases "s \<le> n") auto

lemma swap_round:
  assumes "rev_mask s m" "n < 64"
  shows "bit ((drop_bit s v AND m) OR (push_bit s v AND NOT m)) n \<longleftrightarrow> bit v (swap_index s n)"
proof -
  have "bit m n \<longleftrightarrow> even (n div s)" using assms by (simp add: rev_mask_def)
  then show ?thesis
    using odd_div_ge [of n s] assms(2)
    by (simp add: swap_index_def bit_or_iff bit_and_iff bit_not_iff bit_drop_bit_eq bit_push_bit_iff)
qed

lemma list_all_64: "list_all P (0 # 1 # [2..<64]) \<Longrightarrow> n < 64 \<Longrightarrow> P n"
  unfolding list_all_iff list.set set_upt by fastforce

lemma swap_index_xor:
  "n < 64 \<Longrightarrow> swap_index 32 n = n XOR 32 \<and> swap_index 32 n < 64"
  "n < 64 \<Longrightarrow> swap_index 16 n = n XOR 16 \<and> swap_index 16 n < 64"
  "n < 64 \<Longrightarrow> swap_index 8 n = n XOR 8 \<and> swap_index 8 n < 64"
  "n < 64 \<Longrightarrow> swap_index 4 n = n XOR 4 \<and> swap_index 4 n < 64"
  "n < 64 \<Longrightarrow> swap_index 2 n = n XOR 2 \<and> swap_index 2 n < 64"
  "n < 64 \<Longrightarrow> swap_index 1 n = n XOR 1 \<and> swap_index 1 n < 64"
  by (erule list_all_64 [rotated], simp add: upt_rec_numeral swap_index_def)+

lemma xor_63: "n < 64 \<Longrightarrow> n XOR 63 = 63 - (n :: nat)"
  by (erule list_all_64 [rotated], simp add: upt_rec_numeral)

lemma swap_index_all:
  assumes "n < 64"
  shows "swap_index 32 (swap_index 16 (swap_index 8 (swap_index 4 (swap_index 2 (swap_index 1 n))))) = 63 - n"
    "swap_index 16 (swap_index 8 (swap_index 4 (swap_index 2 (swap_index 1 n)))) < 64"
    "swap_index 8 (swap_index 4 (swap_index 2 (swap_index 1 n))) < 64"
    "swap_index 4 (swap_index 2 (swap_index 1 n)) < 64"
    "swap_index 2 (swap_index 1 n) < 64" "swap_index 1 n < 64"
proof -
  note a = swap_index_xor(6) [OF assms]
  note b = swap_index_xor(5) [OF conjunct2 [OF a]]
  note c = swap_index_xor(4) [OF conjunct2 [OF b]]
  note d = swap_index_xor(3) [OF conjunct2 [OF c]]
  note e = swap_index_xor(2) [OF conjunct2 [OF d]]
  note f = swap_index_xor(1) [OF conjunct2 [OF e]]
  have "swap_index 32 (swap_index 16 (swap_index 8 (swap_index 4 (swap_index 2 (swap_index 1 n))))) = n XOR 63"
    unfolding conjunct1 [OF f] unfolding conjunct1 [OF e] unfolding conjunct1 [OF d]
    unfolding conjunct1 [OF c] unfolding conjunct1 [OF b] unfolding conjunct1 [OF a]
    by (simp add: xor.assoc)
  then show "swap_index 32 (swap_index 16 (swap_index 8 (swap_index 4 (swap_index 2 (swap_index 1 n))))) = 63 - n"
    by (simp only: xor_63 [OF assms])
  show "swap_index 16 (swap_index 8 (swap_index 4 (swap_index 2 (swap_index 1 n)))) < 64"
    "swap_index 8 (swap_index 4 (swap_index 2 (swap_index 1 n))) < 64"
    "swap_index 4 (swap_index 2 (swap_index 1 n)) < 64"
    "swap_index 2 (swap_index 1 n) < 64" "swap_index 1 n < 64"
    using a b c d e by blast+
qed

lemma rev_loop_step:
  assumes "rev_mask (2 * s) m" "0 < s"
  shows "\<exists>m'. rev_mask s m' \<and>
    (\<forall>v. rev_loop (2 * s) m v = rev_loop s m' ((drop_bit s v AND m') OR (push_bit s v AND NOT m')))"
proof (intro exI conjI allI)
  show "rev_mask s (m XOR push_bit s m)" by (rule rev_mask_step [OF assms])
  show "rev_loop (2 * s) m v = rev_loop s (m XOR push_bit s m)
      ((drop_bit s v AND (m XOR push_bit s m)) OR (push_bit s v AND NOT (m XOR push_bit s m)))" for v
    using assms(2) by (subst rev_loop.simps) (simp add: Let_def)
qed

lemma rev_loop_bits:
  assumes "rev_mask (2 * s) m" "0 < s" "\<And>m v n. rev_mask s m \<Longrightarrow> n < 64 \<Longrightarrow> bit (rev_loop s m v) n \<longleftrightarrow> bit v (f n)"
    and "n < 64" "f n < 64"
  shows "bit (rev_loop (2 * s) m v) n \<longleftrightarrow> bit v (swap_index s (f n))"
proof -
  obtain m' where m': "rev_mask s m'"
    "\<And>v. rev_loop (2 * s) m v = rev_loop s m' ((drop_bit s v AND m') OR (push_bit s v AND NOT m'))"
    using rev_loop_step [OF assms(1,2)] by blast
  show ?thesis unfolding m'(2) assms(3) [OF m'(1) assms(4)] by (rule swap_round [OF m'(1) assms(5)])
qed

lemma rev_loop_1: "bit (rev_loop 1 m v) n \<longleftrightarrow> bit v n"
  by (subst rev_loop.simps) simp

text \<open>\<open>rev\<close> reverses the bits of its argument.\<close>

lemma bit_dict_rev:
  assumes "n < 64"
  shows "bit (dict_rev v) n \<longleftrightarrow> bit v (63 - n)"
proof -
  have r2: "rev_mask 2 m \<Longrightarrow> n < 64 \<Longrightarrow> bit (rev_loop 2 m v) n \<longleftrightarrow> bit v (swap_index 1 n)" for m v n
    using rev_loop_bits [of 1 m "\<lambda>n. n"] rev_loop_1 by simp
  have r4: "rev_mask 4 m \<Longrightarrow> n < 64 \<Longrightarrow> bit (rev_loop 4 m v) n \<longleftrightarrow> bit v (swap_index 2 (swap_index 1 n))" for m v n
    using rev_loop_bits [of 2 m "swap_index 1"] r2 swap_index_all by simp
  have r8: "rev_mask 8 m \<Longrightarrow> n < 64 \<Longrightarrow>
      bit (rev_loop 8 m v) n \<longleftrightarrow> bit v (swap_index 4 (swap_index 2 (swap_index 1 n)))" for m v n
    using rev_loop_bits [of 4 m "\<lambda>n. swap_index 2 (swap_index 1 n)"] r4 swap_index_all by simp
  have r16: "rev_mask 16 m \<Longrightarrow> n < 64 \<Longrightarrow>
      bit (rev_loop 16 m v) n \<longleftrightarrow> bit v (swap_index 8 (swap_index 4 (swap_index 2 (swap_index 1 n))))" for m v n
    using rev_loop_bits [of 8 m "\<lambda>n. swap_index 4 (swap_index 2 (swap_index 1 n))"] r8 swap_index_all by simp
  have r32: "rev_mask 32 m \<Longrightarrow> n < 64 \<Longrightarrow> bit (rev_loop 32 m v) n
      \<longleftrightarrow> bit v (swap_index 16 (swap_index 8 (swap_index 4 (swap_index 2 (swap_index 1 n)))))" for m v n
    using rev_loop_bits [of 16 m "\<lambda>n. swap_index 8 (swap_index 4 (swap_index 2 (swap_index 1 n)))"] r16 swap_index_all
    by simp
  have "rev_mask 64 (NOT 0)" by (simp add: rev_mask_def bit_not_iff)
  then have "bit (rev_loop 64 (NOT 0) v) n
      \<longleftrightarrow> bit v (swap_index 32 (swap_index 16 (swap_index 8 (swap_index 4 (swap_index 2 (swap_index 1 n))))))"
    using rev_loop_bits [of 32 "NOT 0" "\<lambda>n. swap_index 16 (swap_index 8 (swap_index 4 (swap_index 2 (swap_index 1 n))))"]
      r32 swap_index_all assms by simp
  then show ?thesis unfolding dict_rev_def swap_index_all(1) [OF assms] .
qed

section \<open>The cursor in reversed order\<close>

text \<open>The cursor runs through the buckets in the order of the reversed bits of their index.\<close>

definition rpos :: "ulong \<Rightarrow> nat" where
  "rpos v = unat (dict_rev v)"

lemma rpos_less: "rpos v < 2 ^ 64"
  using unsigned_less [of "dict_rev v", where 'a = nat] by (simp add: rpos_def)

lemma dict_rev_rev [simp]: "dict_rev (dict_rev v) = v"
  by (rule bit_word_eqI) (simp add: bit_dict_rev)

lemma rpos_0 [simp]: "rpos 0 = 0"
proof -
  have "dict_rev 0 = 0" by (rule bit_word_eqI) (simp add: bit_dict_rev)
  then show ?thesis by (simp add: rpos_def)
qed

lemma rpos_eq_0: "rpos v = 0 \<longleftrightarrow> v = 0"
proof
  assume "rpos v = 0"
  then have "dict_rev v = 0" by (simp add: rpos_def unat_eq_0)
  then show "v = 0" using dict_rev_rev [of v] rpos_0 by (metis dict_rev_rev rpos_def unat_eq_0 unat_0)
qed simp

text \<open>Same bucket of a table of size \<open>2 ^ e\<close>: same \<open>e\<close> leading bits in reversed order.\<close>

lemma mask_eq_rpos:
  assumes "e \<le> 64"
  shows "h AND mask e = v AND mask e \<longleftrightarrow> rpos h div 2 ^ (64 - e) = rpos v div 2 ^ (64 - e)"
proof -
  have bits: "h AND mask e = v AND mask e \<longleftrightarrow> (\<forall>i<e. bit h i = bit v i)" for h v :: ulong
    using assms by (auto simp: bit_eq_iff bit_and_iff bit_mask_iff dest: less_le_trans)
  have "drop_bit (64 - e) (dict_rev h) = drop_bit (64 - e) (dict_rev v)
      \<longleftrightarrow> (\<forall>j<64. 64 - e \<le> j \<longrightarrow> bit (dict_rev h) j = bit (dict_rev v) j)"
  proof
    assume eq: "drop_bit (64 - e) (dict_rev h) = drop_bit (64 - e) (dict_rev v)"
    show "\<forall>j<64. 64 - e \<le> j \<longrightarrow> bit (dict_rev h) j = bit (dict_rev v) j"
    proof (intro allI impI)
      fix j :: nat assume "j < 64" "64 - e \<le> j"
      then show "bit (dict_rev h) j = bit (dict_rev v) j"
        using arg_cong [OF eq, of "\<lambda>w. bit w (j - (64 - e))"] by (simp add: bit_drop_bit_eq)
    qed
  next
    assume *: "\<forall>j<64. 64 - e \<le> j \<longrightarrow> bit (dict_rev h) j = bit (dict_rev v) j"
    show "drop_bit (64 - e) (dict_rev h) = drop_bit (64 - e) (dict_rev v)"
    proof (rule bit_word_eqI)
      fix n assume "n < LENGTH(64)"
      show "bit (drop_bit (64 - e) (dict_rev h)) n = bit (drop_bit (64 - e) (dict_rev v)) n"
        using * [rule_format, of "64 - e + n"] bit_imp_le_length [of "dict_rev h"] bit_imp_le_length [of "dict_rev v"]
        by (fastforce simp: bit_drop_bit_eq)
    qed
  qed
  also have "\<dots> \<longleftrightarrow> (\<forall>i<e. bit h i = bit v i)"
  proof
    assume *: "\<forall>j<64. 64 - e \<le> j \<longrightarrow> bit (dict_rev h) j = bit (dict_rev v) j"
    show "\<forall>i<e. bit h i = bit v i"
    proof (intro allI impI)
      fix i assume "i < e"
      then show "bit h i = bit v i" using * [rule_format, of "63 - i"] assms by (simp add: bit_dict_rev)
    qed
  qed (auto simp: bit_dict_rev)
  finally have "h AND mask e = v AND mask e \<longleftrightarrow> drop_bit (64 - e) (dict_rev h) = drop_bit (64 - e) (dict_rev v)"
    by (simp add: bits)
  also have "\<dots> \<longleftrightarrow> rpos h div 2 ^ (64 - e) = rpos v div 2 ^ (64 - e)"
    unfolding rpos_def word_unat_eq_iff unat_drop_bit_eq by (simp only: drop_bit_eq_div)
  finally show ?thesis .
qed

text \<open>The next cursor is the start of the next block of reversed positions, modulo \<open>2 ^ 64\<close>.\<close>

lemma rpos_cursor_next:
  assumes "e \<le> 64"
  shows "rpos (cursor_next (mask e) v) = ((rpos v div 2 ^ (64 - e) + 1) * 2 ^ (64 - e)) mod 2 ^ 64"
proof -
  define k where "k = 64 - e"
  have "dict_rev (v OR NOT (mask e)) = dict_rev v OR mask k"
    using assms by (intro bit_word_eqI) (auto simp: bit_dict_rev bit_or_iff bit_not_iff bit_mask_iff k_def)
  also have "\<dots> = push_bit k (drop_bit k (dict_rev v)) + mask k"
  proof -
    have "push_bit k (drop_bit k (dict_rev v)) + mask k = push_bit k (drop_bit k (dict_rev v)) OR mask k"
      by (rule disjunctive_add) (auto simp: bit_push_bit_iff bit_mask_iff)
    also have "\<dots> = dict_rev v OR mask k"
      by (rule bit_word_eqI) (auto simp: bit_or_iff bit_push_bit_iff bit_drop_bit_eq bit_mask_iff)
    finally show ?thesis by simp
  qed
  finally have "dict_rev (v OR NOT (mask e)) + 1 = push_bit k (drop_bit k (dict_rev v)) + 2 ^ k"
    by (simp add: mask_eq_exp_minus_1)
  also have "\<dots> = of_nat ((rpos v div 2 ^ k + 1) * 2 ^ k)"
  proof -
    have "of_nat (rpos v div 2 ^ k) = drop_bit k (dict_rev v)"
      by (simp add: rpos_def flip: drop_bit_eq_div unat_drop_bit_eq)
    then show ?thesis by (simp add: push_bit_eq_mult algebra_simps)
  qed
  finally have "dict_rev (cursor_next (mask e) v) = of_nat ((rpos v div 2 ^ k + 1) * 2 ^ k)"
    by (simp add: cursor_next_def)
  moreover have "unat (of_nat n :: ulong) = n mod 2 ^ 64" for n by (simp add: unat_of_nat)
  ultimately show ?thesis unfolding rpos_def k_def by metis
qed

section \<open>One call of \<open>dictScan\<close>\<close>

definition hpos :: "'k dictType \<Rightarrow> 'k \<Rightarrow> nat" where
  "hpos T k = rpos (of_nat (hashFunction T k))"

lemma exp_mask_eq: "0 \<le> e \<Longrightarrow> exp_mask e = mask (nat e)"
  by (simp add: exp_mask_def DICTHT_SIZE_MASK_def DICTHT_SIZE_def mask_eq_exp_minus_1 of_nat_diff)

lemma unat_and_mask: "E < 64 \<Longrightarrow> unat ((v :: ulong) AND mask E) = unat v mod 2 ^ E"
  unfolding take_bit_eq_mask [symmetric] unsigned_take_bit_eq by (simp only: take_bit_eq_mod)

lemma bucket_covers:
  assumes "table_ok T e used tab" "e \<noteq> -1"
  shows "\<exists>b. mem_get tab (unat (v AND exp_mask e)) = Some b \<and> set b \<subseteq> set (concat tab)
     \<and> (\<forall>x\<in>set (concat tab). hpos T (fst x) div 2 ^ (64 - nat e) = rpos v div 2 ^ (64 - nat e) \<longrightarrow> x \<in> set b)"
proof -
  define E where "E = nat e"
  note D = table_okD [OF assms]
  have E: "E \<le> 60" "exp_mask e = mask E" "DICTHT_SIZE e = 2 ^ E"
    using D(1,2) by (auto simp: E_def exp_mask_eq DICTHT_SIZE_def)
  define i where "i = unat (v AND mask E)"
  have i: "i < length tab" using E D(3) by (simp add: i_def unat_and_mask)
  have "x \<in> set (tab ! i)"
    if x: "x \<in> set (concat tab)" and eq: "hpos T (fst x) div 2 ^ (64 - E) = rpos v div 2 ^ (64 - E)" for x
  proof -
    obtain j where j: "j < length tab" "x \<in> set (tab ! j)" using x unfolding in_concat_iff by blast
    have "of_nat (hashFunction T (fst x)) AND mask E = v AND mask E"
      using mask_eq_rpos [of E "of_nat (hashFunction T (fst x))" v] eq E(1) by (simp add: hpos_def)
    then have "i = unat (of_nat (hashFunction T (fst x)) AND mask E :: ulong)" by (simp add: i_def)
    also have "\<dots> = hashFunction T (fst x) mod 2 ^ 64 mod 2 ^ E"
      using E(1) by (simp add: unat_and_mask unat_of_nat)
    also have "\<dots> = hashFunction T (fst x) mod 2 ^ E"
      using E(1) by (intro mod_mod_cancel le_imp_power_dvd) simp
    also have "\<dots> = j" using D(5) [OF j] E(3) by simp
    finally show ?thesis using j(2) by simp
  qed
  moreover have "set (tab ! i) \<subseteq> set (concat tab)" unfolding in_concat_iff subset_iff using i by blast
  ultimately show ?thesis using i by (auto simp: mem_get_def E(2) E_def [symmetric] i_def [symmetric])
qed

lemma rpos_and_mask:
  assumes "E \<le> 64"
  shows "rpos (v AND mask E) = rpos v div 2 ^ (64 - E) * 2 ^ (64 - E)"
proof -
  have "dict_rev (v AND mask E) = push_bit (64 - E) (drop_bit (64 - E) (dict_rev v))"
    using assms
    by (intro bit_word_eqI) (auto simp: bit_dict_rev bit_and_iff bit_mask_iff bit_push_bit_iff bit_drop_bit_eq)
  moreover have "unat (push_bit k (drop_bit k w)) = unat w div 2 ^ k * 2 ^ k" for k and w :: ulong
  proof -
    have "of_nat (unat w div 2 ^ k * 2 ^ k) = push_bit k (of_nat (unat (drop_bit k w)) :: ulong)"
      unfolding unat_drop_bit_eq by (simp add: push_bit_eq_mult drop_bit_eq_div)
    then have eq: "push_bit k (drop_bit k w) = of_nat (unat w div 2 ^ k * 2 ^ k)" by simp
    have "unat w < 2 ^ 64" using unsigned_less [of w, where 'a = nat] by simp
    then have "unat w div 2 ^ k * 2 ^ k < 2 ^ 64"
      by (rule le_less_trans [OF div_times_less_eq_dividend])
    then show ?thesis unfolding eq unat_of_nat by simp
  qed
  ultimately show ?thesis by (simp add: rpos_def)
qed

lemma word_xor_eq_0: "a XOR b = 0 \<longleftrightarrow> a = (b :: ulong)"
  by (simp add: bit_eq_iff bit_xor_iff)

text \<open>The loop condition \<open>v & (m0 ^ m1)\<close>: not yet at the next block of the smaller table.\<close>

lemma scan_cond:
  assumes "E0 \<le> E1" "E1 \<le> 64" "2 ^ (64 - E1) dvd rpos v"
  shows "v AND (mask E0 XOR mask E1) = 0 \<longleftrightarrow> 2 ^ (64 - E0) dvd rpos v"
proof -
  define K0 :: nat where "K0 = 2 ^ (64 - E0)"
  define K1 :: nat where "K1 = 2 ^ (64 - E1)"
  have K: "K1 dvd K0" "0 < K1" using assms(1) by (auto simp: K0_def K1_def le_imp_power_dvd)
  have "v AND (mask E0 XOR mask E1) = (v AND mask E0) XOR (v AND mask E1)"
    by (rule bit_word_eqI) (auto simp: bit_and_iff bit_xor_iff)
  then have "v AND (mask E0 XOR mask E1) = 0 \<longleftrightarrow> v AND mask E0 = v AND mask E1"
    by (simp add: word_xor_eq_0)
  also have "\<dots> \<longleftrightarrow> (v AND mask E0) AND mask E1 = v AND mask E1"
  proof -
    have "(v AND mask E0) AND mask E1 = v AND mask E0"
      using assms(1) by (intro bit_word_eqI) (auto simp: bit_and_iff bit_mask_iff)
    then show ?thesis by simp
  qed
  also have "\<dots> \<longleftrightarrow> (rpos v div K0 * K0) div K1 = rpos v div K1"
    using mask_eq_rpos [OF assms(2), of "v AND mask E0" v] rpos_and_mask [of E0 v] assms by (simp add: K0_def K1_def)
  also have "\<dots> \<longleftrightarrow> rpos v div K0 * K0 = rpos v"
  proof
    assume "(rpos v div K0 * K0) div K1 = rpos v div K1"
    then show "rpos v div K0 * K0 = rpos v"
      using dvd_div_mult_self [of K1 "rpos v"] dvd_div_mult_self [of K1 "rpos v div K0 * K0"] assms(3) K(1)
      by (simp add: K1_def [symmetric])
  qed simp
  also have "\<dots> \<longleftrightarrow> K0 dvd rpos v" 
  proof -
    have "a + b = c \<Longrightarrow> a = c \<longleftrightarrow> b = 0" for a b c :: nat by auto
    from this [OF div_mult_mod_eq] show ?thesis by (simp only: dvd_eq_mod_eq_0)
  qed
  finally show ?thesis by (simp add: K0_def)
qed

text \<open>Blocks of two sizes, one a multiple of the other.\<close>

lemma next_block_le:
  assumes "K1 dvd B" "r < B" "0 < (K1 :: nat)"
  shows "(r div K1 + 1) * K1 \<le> B" "r < (r div K1 + 1) * K1"
proof -
  obtain c where c: "B = c * K1" using assms(1) by (metis dvd_def mult.commute)
  have "r div K1 < c" using assms c by (simp add: less_mult_imp_div_less)
  then show "(r div K1 + 1) * K1 \<le> B"
    using mult_le_mono1 [of "Suc (r div K1)" c K1] c by simp
  show "r < (r div K1 + 1) * K1" using assms(3) by (simp add: dividend_less_div_times)
qed

lemma same_block:
  assumes "(r :: nat) \<le> h" "h < (r div K + 1) * K"
  shows "h div K = r div K"
proof -
  have "h div K < r div K + 1" using assms(2) by (rule less_mult_imp_div_less)
  moreover have "r div K \<le> h div K" using assms(1) by (rule div_le_mono)
  ultimately show ?thesis by simp
qed

lemma power_dvd_64: "2 ^ (64 - e) dvd (2 :: nat) ^ 64"
  by (rule le_imp_power_dvd) simp

lemma block_end_le: "e \<le> 64 \<Longrightarrow> (rpos v div 2 ^ (64 - e) + 1) * 2 ^ (64 - e) \<le> 2 ^ 64"
  by (rule next_block_le(1) [OF power_dvd_64 rpos_less]) simp

text \<open>
  The entries of a table that lie between two positions, and what a scan step has to emit: all
  of those between its cursor and the next one, where the final cursor 0 stands for \<open>2 ^ 64\<close>.
\<close>

definition cursor_end :: "ulong \<Rightarrow> nat" where
  "cursor_end v = (if v = 0 then 2 ^ 64 else rpos v)"

lemma cursor_end_mod:
  assumes "rpos v = B mod 2 ^ 64" "0 < B" "B \<le> 2 ^ 64"
  shows "cursor_end v = B"
proof (cases "B = 2 ^ 64")
  case True
  then show ?thesis using assms(1) rpos_eq_0 [of v] by (simp add: cursor_end_def)
next
  case False
  then have "rpos v = B" using assms by simp
  then show ?thesis using assms(2) rpos_eq_0 [of v] by (auto simp: cursor_end_def)
qed

lemma scan_expand_ok:
  fixes v0 :: ulong
  assumes "table_ok T e1 used tab" "e1 \<noteq> -1" "0 \<le> e0" "e0 \<le> e1"
  defines "K0 \<equiv> 2 ^ (64 - nat e0)"
  defines "B \<equiv> (rpos v0 div K0 + 1) * K0"
  shows "\<exists>r. c_loop (scan_expand_step tab (exp_mask e0) (exp_mask e1)) (v0, out0) = Some r
     \<and> (rpos (fst r) = B mod 2 ^ 64 \<and> set out0 \<subseteq> set (snd r) \<and> set (snd r) \<subseteq> set out0 \<union> set (concat tab)
        \<and> (\<forall>x\<in>set (concat tab). rpos v0 \<le> hpos T (fst x) \<and> hpos T (fst x) < B \<longrightarrow> x \<in> set (snd r)))"
proof -
  define K1 :: nat where "K1 = 2 ^ (64 - nat e1)"
  have e: "e1 \<le> 60" using table_okD(2) [OF assms(1,2)] .
  have K: "K1 dvd K0" "0 < K1" "0 < K0" using assms(3,4) by (auto simp: K0_def K1_def le_imp_power_dvd)
  have B: "B \<le> 2 ^ 64" "rpos v0 < B" "K0 dvd B" "K1 dvd B"
    using block_end_le [of "nat e0" v0] assms(4) e K by (auto simp: B_def K0_def dividend_less_div_times intro: dvd_trans)
  define I where "I = (\<lambda>(v, out). rpos v0 \<le> rpos v \<and> rpos v < B \<and> set out0 \<subseteq> set out
      \<and> set out \<subseteq> set out0 \<union> set (concat tab)
      \<and> (\<forall>x\<in>set (concat tab). rpos v0 \<le> hpos T (fst x) \<and> hpos T (fst x) < rpos v \<longrightarrow> x \<in> set out))"
  define Q where "Q = (\<lambda>r. rpos (fst r) = B mod 2 ^ 64 \<and> set out0 \<subseteq> set (snd r) \<and> set (snd r) \<subseteq> set out0 \<union> set (concat tab)
        \<and> (\<forall>x\<in>set (concat tab). rpos v0 \<le> hpos T (fst x) \<and> hpos T (fst x) < B \<longrightarrow> x \<in> set (snd r)))"
  have "\<exists>r. c_loop (scan_expand_step tab (exp_mask e0) (exp_mask e1)) (v0, out0) = Some r \<and> Q r"
  proof (rule c_loop_rule [where I = I and m = "\<lambda>(v, out). B - rpos v"])
    show "I (v0, out0)" using B by (auto simp: I_def)
  next
    fix s assume I: "I s"
    obtain v out where s: "s = (v, out)" by (cases s)
    obtain b where b: "mem_get tab (unat (v AND exp_mask e1)) = Some b" "set b \<subseteq> set (concat tab)"
      "\<forall>x\<in>set (concat tab). hpos T (fst x) div K1 = rpos v div K1 \<longrightarrow> x \<in> set b"
      using bucket_covers [OF assms(1,2), of v] by (auto simp: K1_def)
    define v' where "v' = cursor_next (exp_mask e1) v"
    define N where "N = (rpos v div K1 + 1) * K1"
    have v': "rpos v' = N mod 2 ^ 64"
      using rpos_cursor_next [of "nat e1" v] assms(3,4) e by (simp add: v'_def exp_mask_eq N_def K1_def)
    have rv: "rpos v0 \<le> rpos v" "rpos v < B" using I by (auto simp: s I_def)
    have N: "N \<le> B" "rpos v < N" using next_block_le [OF B(4) rv(2) K(2)] by (auto simp: N_def)
    have cov: "x \<in> set (out @ b)" if "x \<in> set (concat tab)" "rpos v0 \<le> hpos T (fst x)" "hpos T (fst x) < N" for x
    proof (cases "hpos T (fst x) < rpos v")
      case True
      then show ?thesis using I that by (auto simp: s I_def)
    next
      case False
      then have "hpos T (fst x) div K1 = rpos v div K1" using that(3) by (intro same_block) (auto simp: N_def)
      then show ?thesis using b(3) that(1) by auto
    qed
    have sub: "set out0 \<subseteq> set (out @ b)" "set (out @ b) \<subseteq> set out0 \<union> set (concat tab)"
      using I b(2) unfolding s I_def prod.case set_append by blast+
    have "K1 dvd rpos v'"
    proof -
      have "K1 dvd 2 ^ 64" unfolding K1_def by (rule power_dvd_64)
      then show ?thesis unfolding v' by (simp add: dvd_mod_iff N_def)
    qed
    then have cond: "v' AND (exp_mask e0 XOR exp_mask e1) = 0 \<longleftrightarrow> K0 dvd rpos v'"
      using scan_cond [of "nat e0" "nat e1" v'] assms(3,4) e by (simp add: exp_mask_eq K0_def K1_def)
    show "(\<exists>r. scan_expand_step tab (exp_mask e0) (exp_mask e1) s = Some (Inl r) \<and> Q r)
      \<or> (\<exists>s'. scan_expand_step tab (exp_mask e0) (exp_mask e1) s = Some (Inr s') \<and> I s'
           \<and> (case s' of (v, out) \<Rightarrow> B - rpos v) < (case s of (v, out) \<Rightarrow> B - rpos v))"
    proof (cases "N = B")
      case True
      have "K0 dvd 2 ^ 64" unfolding K0_def by (rule power_dvd_64)
      then have "K0 dvd rpos v'" unfolding v' True using B(3) by (simp add: dvd_mod_iff)
      then have "scan_expand_step tab (exp_mask e0) (exp_mask e1) s = Some (Inl (v', out @ b))"
        using cond b(1) by (simp add: scan_expand_step_def s Let_def flip: v'_def)
      moreover have "Q (v', out @ b)"
        unfolding Q_def fst_conv snd_conv using v' True cov sub by blast
      ultimately show ?thesis by blast
    next
      case False
      then have rv': "rpos v' = N" using N B(1) v' by simp
      have "\<not> K0 dvd rpos v'"
      proof
        assume "K0 dvd rpos v'"
        then obtain c where c: "N = c * K0" unfolding rv' by (metis dvd_def mult.commute)
        have "c * K0 < (rpos v0 div K0 + 1) * K0" using False N(1) c by (simp add: B_def)
        then have "c < rpos v0 div K0 + 1" by (simp only: mult_less_cancel2)
        then have "N \<le> rpos v0 div K0 * K0" using c by simp
        also have "\<dots> \<le> rpos v0" by simp
        finally show False using rv(1) N(2) by simp
      qed
      then have "scan_expand_step tab (exp_mask e0) (exp_mask e1) s = Some (Inr (v', out @ b))"
        using cond b(1) by (simp add: scan_expand_step_def s Let_def flip: v'_def)
      moreover have "I (v', out @ b)"
        unfolding I_def prod.case rv' using rv(1) N False cov sub by auto
      ultimately show ?thesis using rv' N rv by (auto simp: s)
    qed
  qed
  then show ?thesis unfolding Q_def .
qed

text \<open>Every entry between the cursor and the next one is emitted, and nothing else is made up.\<close>

lemma dictScan_ok:
  assumes "dict_struct T d"
  shows "\<exists>v' out. dictScan d v = Some (v', out) \<and> set out \<subseteq> set (dict_entries d)
     \<and> rpos v < cursor_end v'
     \<and> (\<forall>x\<in>set (dict_entries d). rpos v \<le> hpos T (fst x) \<and> hpos T (fst x) < cursor_end v' \<longrightarrow> x \<in> set out)
     \<and> (\<forall>E. 0 < dictSize d \<longrightarrow> nat (ht_size_exp0 d) \<le> E \<and> nat (ht_size_exp1 d) \<le> E \<and> E \<le> 64 \<longrightarrow> 2 ^ (64 - E) dvd cursor_end v')"
proof (cases "dictSize d = 0")
  case True
  then have "dict_entries d = []" using dict_struct_dictSize [OF assms] by simp
  then show ?thesis using True rpos_less by (simp add: dictScan_def cursor_end_def)
next
  case nz: False
  note tok = dict_struct_tables [OF assms]
  show ?thesis
  proof (cases "dictIsRehashing d")
    case False
    have e0: "ht_size_exp0 d \<noteq> -1" using dict_struct_table0 [OF assms] nz by simp
    define E where "E = nat (ht_size_exp0 d)"
    define B where "B = (rpos v div 2 ^ (64 - E) + 1) * 2 ^ (64 - E)"
    have E: "E \<le> 60" "exp_mask (ht_size_exp0 d) = mask E"
      using table_okD(1,2) [OF tok(1) e0] by (auto simp: E_def exp_mask_eq)
    obtain b where b: "mem_get (ht_table0 d) (unat (v AND mask E)) = Some b" "set b \<subseteq> set (concat (ht_table0 d))"
      "\<forall>x\<in>set (concat (ht_table0 d)). hpos T (fst x) div 2 ^ (64 - E) = rpos v div 2 ^ (64 - E) \<longrightarrow> x \<in> set b"
      using bucket_covers [OF tok(1) e0, of v] by (auto simp: E(2) E_def [symmetric])
    have "ht_table1 d = []" using assms False by (auto simp: dict_struct_def dictIsRehashing_def)
    then have ent: "set (dict_entries d) = set (concat (ht_table0 d))" by (simp add: dict_entries_def)
    have ce: "cursor_end (cursor_next (mask E) v) = B"
      using block_end_le [of E v] rpos_cursor_next [of E v] E(1) by (intro cursor_end_mod) (auto simp: B_def)
    have "rpos v < B" by (simp add: B_def dividend_less_div_times)
    moreover have "2 ^ (64 - F) dvd B" if "E \<le> F" for F
    proof -
      have "(2::nat) ^ (64 - F) dvd 2 ^ (64 - E)" using that by (simp add: le_imp_power_dvd)
      then show ?thesis by (simp add: B_def)
    qed
    moreover have "x \<in> set b" if "x \<in> set (concat (ht_table0 d))" "rpos v \<le> hpos T (fst x)" "hpos T (fst x) < B" for x
      using b(3) that(1) same_block [OF that(2) that(3) [unfolded B_def]] by blast
    ultimately show ?thesis
      using nz False b(1,2) unfolding ent by (simp add: dictScan_def Let_def E(2) ce E_def [symmetric] del: set_concat)
  next
    case True
    define t0 where "t0 = (if DICTHT_SIZE (ht_size_exp0 d) > DICTHT_SIZE (ht_size_exp1 d) then 1 else (0 :: nat))"
    define t1 where "t1 = (if DICTHT_SIZE (ht_size_exp0 d) > DICTHT_SIZE (ht_size_exp1 d) then 0 else (1 :: nat))"
    have ex: "ht_size_exp0 d \<noteq> -1" "ht_size_exp1 d \<noteq> -1"
      using dict_struct_rehashing [OF assms] True by (auto simp: dictIsRehashing_def)
    note ran = table_okD(1,2) [OF tok(1) ex(1)] table_okD(1,2) [OF tok(2) ex(2)]
    have t: "t0 \<le> 1" "t1 \<le> 1" "ht_size_exp d t0 \<noteq> -1" "ht_size_exp d t1 \<noteq> -1" "0 \<le> ht_size_exp d t0" "ht_size_exp d t0 \<le> 60"
      "ht_size_exp d t0 \<le> ht_size_exp d t1"
      using ex ran by (auto simp: t0_def t1_def DICTHT_SIZE_def split: if_splits)
    define E where "E = nat (ht_size_exp d t0)"
    define B where "B = (rpos v div 2 ^ (64 - E) + 1) * 2 ^ (64 - E)"
    have ent: "set (dict_entries d) = set (concat (ht_table d t0)) \<union> set (concat (ht_table d t1))"
      by (auto simp: dict_entries_def t0_def t1_def)
    obtain b where b: "mem_get (ht_table d t0) (unat (v AND exp_mask (ht_size_exp d t0))) = Some b"
      "set b \<subseteq> set (concat (ht_table d t0))"
      "\<forall>x\<in>set (concat (ht_table d t0)). hpos T (fst x) div 2 ^ (64 - E) = rpos v div 2 ^ (64 - E) \<longrightarrow> x \<in> set b"
      using bucket_covers [OF dict_struct_table_ok [OF assms t(1)] t(3), of v] unfolding E_def by blast
    obtain r where r: "c_loop (scan_expand_step (ht_table d t1) (exp_mask (ht_size_exp d t0)) (exp_mask (ht_size_exp d t1))) (v, b) = Some r"
      "rpos (fst r) = B mod 2 ^ 64" "set b \<subseteq> set (snd r)" "set (snd r) \<subseteq> set b \<union> set (concat (ht_table d t1))"
      "\<forall>x\<in>set (concat (ht_table d t1)). rpos v \<le> hpos T (fst x) \<and> hpos T (fst x) < B \<longrightarrow> x \<in> set (snd r)"
      using scan_expand_ok [OF dict_struct_table_ok [OF assms t(2)] t(4,5,7), of v b] unfolding B_def E_def by blast
    have run: "dictScan d v = Some (fst r, snd r)"
      using nz True b(1) r(1) by (simp add: dictScan_def Let_def flip: t0_def t1_def)
    have ce: "cursor_end (fst r) = B"
      using block_end_le [of E v] r(2) t(6) by (intro cursor_end_mod) (auto simp: B_def E_def)
    have cov0: "x \<in> set b" if "x \<in> set (concat (ht_table d t0))" "rpos v \<le> hpos T (fst x)" "hpos T (fst x) < B" for x
      using b(3) that(1) same_block [OF that(2) that(3) [unfolded B_def]] by blast
    have dv: "2 ^ (64 - F) dvd B" if "nat (ht_size_exp0 d) \<le> F" "nat (ht_size_exp1 d) \<le> F" for F
    proof -
      have "(2::nat) ^ (64 - F) dvd 2 ^ (64 - E)"
        using that by (intro le_imp_power_dvd) (auto simp: E_def t0_def)
      then show ?thesis by (simp add: B_def)
    qed
    have "rpos v < B" by (simp add: B_def dividend_less_div_times)
    moreover have "set (snd r) \<subseteq> set (dict_entries d)" using r(4) b(2) unfolding ent by blast
    moreover have "\<forall>x\<in>set (dict_entries d). rpos v \<le> hpos T (fst x) \<and> hpos T (fst x) < B \<longrightarrow> x \<in> set (snd r)"
      unfolding ent using cov0 r(3,5) by blast
    ultimately show ?thesis using run dv unfolding ce [symmetric] by blast
  qed
qed

section \<open>A full iteration\<close>

text \<open>
  The calls of one iteration, each on the dict as it is at that time, until the cursor is 0 again;
  \<open>None\<close> when the given states end before.
\<close>

fun scan_iter :: "('k, 'v) dict list \<Rightarrow> ulong \<Rightarrow> ('k \<times> 'v) list option" where
  "scan_iter [] v = None"
| "scan_iter (d # ds) v =
     do { (v', out) \<leftarrow> dictScan d v;
          (if v' = 0 then Some out else map_option ((@) out) (scan_iter ds v')) }"

lemma scan_iter_complete:
  assumes "list_all (dict_struct T) ds" "scan_iter ds v = Some out" "rpos v \<le> hpos T k"
    and "list_all (\<lambda>d. k \<in> fst ` set (dict_entries d)) ds"
  shows "k \<in> fst ` set out"
  using assms
proof (induction ds arbitrary: v out)
  case (Cons d ds)
  obtain v' o1 where s: "dictScan d v = Some (v', o1)"
     "\<forall>x\<in>set (dict_entries d). rpos v \<le> hpos T (fst x) \<and> hpos T (fst x) < cursor_end v' \<longrightarrow> x \<in> set o1"
    using dictScan_ok [of T d v] Cons.prems(1) by auto
  obtain w where w: "(k, w) \<in> set (dict_entries d)" using Cons.prems(4) by auto
  show ?case
  proof (cases "hpos T k < cursor_end v'")
    case True
    then have "(k, w) \<in> set o1" using s(2) w Cons.prems(3) by auto
    moreover have "set o1 \<subseteq> set out" using Cons.prems(2) s(1) by (auto split: if_splits)
    ultimately show ?thesis by force
  next
    case False
    then have nz: "v' \<noteq> 0" "rpos v' \<le> hpos T k"
      using rpos_less [of "of_nat (hashFunction T k)"] by (auto simp: cursor_end_def hpos_def split: if_splits)
    obtain o2 where "scan_iter ds v' = Some o2" "out = o1 @ o2" using Cons.prems(2) s(1) nz(1) by auto
    then show ?thesis using Cons.IH [of v' o2] Cons.prems nz by auto
  qed
qed simp

lemma scan_iter_sound:
  assumes "list_all (dict_struct T) ds" "scan_iter ds v = Some out" "x \<in> set out"
  shows "\<exists>d\<in>set ds. x \<in> set (dict_entries d)"
  using assms
proof (induction ds arbitrary: v out)
  case (Cons d ds)
  obtain v' o1 where s: "dictScan d v = Some (v', o1)" "set o1 \<subseteq> set (dict_entries d)"
    using dictScan_ok [of T d v] Cons.prems(1) by auto
  then show ?case using Cons.prems Cons.IH [of v'] by (auto split: if_splits)
qed simp

lemma scan_iter_ends:
  assumes "list_all (\<lambda>d. dict_struct T d \<and> nat (ht_size_exp0 d) \<le> E \<and> nat (ht_size_exp1 d) \<le> E) ds" "E \<le> 64"
    and "2 ^ (64 - E) dvd rpos v" "2 ^ 64 \<le> rpos v + length ds * 2 ^ (64 - E)"
  shows "\<exists>out. scan_iter ds v = Some out"
  using assms
proof (induction ds arbitrary: v)
  case Nil
  then show ?case using rpos_less [of v] by simp
next
  case (Cons d ds)
  obtain v' o1 where s: "dictScan d v = Some (v', o1)" "rpos v < cursor_end v'"
     "0 < dictSize d \<longrightarrow> 2 ^ (64 - E) dvd cursor_end v'"
    using dictScan_ok [of T d v] Cons.prems(1,2) by auto
  show ?case
  proof (cases "v' = 0")
    case True
    then show ?thesis using s by simp
  next
    case False
    have "dictSize d \<noteq> 0"
    proof
      assume "dictSize d = 0"
      then have "dictScan d v = Some (0, [])" by (simp add: dictScan_def)
      then show False using s(1) False by simp
    qed
    then have dv: "2 ^ (64 - E) dvd rpos v'" "rpos v < rpos v'" using s False by (auto simp: cursor_end_def)
    obtain a b where ab: "rpos v = a * 2 ^ (64 - E)" "rpos v' = b * 2 ^ (64 - E)"
      using Cons.prems(3) dv(1) by (metis dvd_def mult.commute)
    have "a < b" using dv(2) unfolding ab by simp
    then have "(a + 1) * 2 ^ (64 - E) \<le> b * (2 :: nat) ^ (64 - E)" by (intro mult_le_mono1) simp
    then have "rpos v + 2 ^ (64 - E) \<le> rpos v'" by (simp add: ab)
    then have "2 ^ 64 \<le> rpos v' + length ds * 2 ^ (64 - E)" using Cons.prems(4) by simp
    then show ?thesis using Cons.IH [of v'] Cons.prems(1,2) dv(1) s(1) False by auto
  qed
qed

section \<open>Safe iterators\<close>

definition iter_rest :: "('k, 'v) dict \<Rightarrow> ('k, 'v) dictIterator \<Rightarrow> ('k \<times> 'v) list" where
  "iter_rest d it = iter_chain it @ concat (drop (nat (iter_index it + 1)) (ht_table d (iter_table it)))
     @ (if iter_table it = 0 \<and> dictIsRehashing d then concat (ht_table1 d) else [])"

definition iter_ok :: "('k, 'v) dict \<Rightarrow> ('k, 'v) dictIterator \<Rightarrow> bool" where
  "iter_ok d it \<longleftrightarrow> (iter_table it = 0 \<and> -1 \<le> iter_index it
     \<or> iter_table it = 1 \<and> 0 \<le> iter_index it \<and> dictIsRehashing d)"

definition iter_started :: "('k, 'v) dictIterator \<Rightarrow> bool" where
  "iter_started it \<longleftrightarrow> \<not> (iter_index it = -1 \<and> iter_table it = 0)"

text \<open>The dict with rehashing paused by this iterator, if it has started.\<close>

definition iter_paused :: "('k, 'v) dict \<Rightarrow> ('k, 'v) dictIterator \<Rightarrow> ('k, 'v) dict" where
  "iter_paused d it = (if iter_started it then d\<lparr>pauserehash := pauserehash d + 1\<rparr> else d)"

lemma pauserehash_simps [simp]:
  "ht_table (d\<lparr>pauserehash := p\<rparr>) t = ht_table d t" "ht_size_exp (d\<lparr>pauserehash := p\<rparr>) t = ht_size_exp d t"
  "dictIsRehashing (d\<lparr>pauserehash := p\<rparr>) = dictIsRehashing d"
  by (simp_all add: ht_table_def ht_size_exp_def dictIsRehashing_def)

lemma iter_paused_simps [simp]:
  "ht_table (iter_paused d it) t = ht_table d t" "ht_size_exp (iter_paused d it) t = ht_size_exp d t"
  "dictIsRehashing (iter_paused d it) = dictIsRehashing d"
  by (simp_all add: iter_paused_def)

lemma table_length: "dict_struct T d \<Longrightarrow> t \<le> 1 \<Longrightarrow> length (ht_table d t) = DICTHT_SIZE (ht_size_exp d t)"
  using dict_struct_table_ok [of T d t] by (auto simp: table_ok_def DICTHT_SIZE_def split: if_splits)

lemma dictNext_step_empty:
  assumes "dict_struct T d" "iter_ok d it" "iter_chain it = []"
  shows "(\<exists>it'. dictNext_step (iter_paused d it, it) = Some (Inl (iter_paused d it', it', None)) \<and> iter_rest d it = []
            \<and> iter_started it')
       \<or> (\<exists>it'. dictNext_step (iter_paused d it, it) = Some (Inr (iter_paused d it', it'))
            \<and> iter_ok d it' \<and> iter_started it' \<and> iter_rest d it' = iter_rest d it
            \<and> (if iter_table it = 0 then 1 else 0) * Suc (length (ht_table1 d)) + (length (ht_table d (iter_table it)) - nat (iter_index it + 1))
              > (if iter_table it' = 0 then 1 else 0) * Suc (length (ht_table1 d)) + (length (ht_table d (iter_table it')) - nat (iter_index it' + 1)))"
proof -
  define t where "t = iter_table it"
  define i where "i = iter_index it + 1"
  have t: "t \<le> 1" "0 \<le> i" using assms(2) by (auto simp: iter_ok_def t_def i_def)
  have started: "iter_started (it\<lparr>iter_index := i\<rparr>)" using t(2) by (auto simp: iter_started_def)
  have pause: "(if iter_index it = -1 \<and> iter_table it = 0 then (iter_paused d it)\<lparr>pauserehash := pauserehash (iter_paused d it) + 1\<rparr>
      else iter_paused d it) = d\<lparr>pauserehash := pauserehash d + 1\<rparr>"
    by (auto simp: iter_paused_def iter_started_def)
  define over where "over \<longleftrightarrow> int (length (ht_table d t)) \<le> i"
  have size': "DICTHT_SIZE (ht_size_exp d t) = length (ht_table d t)" using table_length [OF assms(1) t(1)] by simp
  have step: "dictNext_step (iter_paused d it, it) =
    (if over \<and> \<not> (dictIsRehashing d \<and> t = 0) then
       Some (Inl (d\<lparr>pauserehash := pauserehash d + 1\<rparr>, it\<lparr>iter_index := i\<rparr>, None))
     else let table = (if over then 1 else t); index = (if over then 0 else i)
          in do { b \<leftarrow> mem_get (ht_table d table) (nat index);
                  Some (Inr (d\<lparr>pauserehash := pauserehash d + 1\<rparr>, \<lparr>iter_table = table, iter_index = index, iter_chain = b\<rparr>)) })"
    unfolding dictNext_step_def prod.case assms(3) list.case pause Let_def pauserehash_simps
    unfolding t_def [symmetric] i_def [symmetric] size' over_def [symmetric] ..
  show ?thesis
  proof (cases "over \<and> \<not> (dictIsRehashing d \<and> t = 0)")
    case True
    then have "iter_rest d it = []" by (auto simp: iter_rest_def assms(3) over_def t_def i_def)
    then show ?thesis using True step started
      by (intro disjI1 exI [of _ "it\<lparr>iter_index := i\<rparr>"]) (simp add: iter_paused_def)
  next
    case False
    define t' where "t' = (if over then 1 else t)"
    define i' where "i' = (if over then 0 else i)"
    have r: "over \<longrightarrow> dictIsRehashing d \<and> t = 0" using False by blast
    have len: "nat i' < length (ht_table d t')"
    proof (cases over)
      case True
      then have "ht_size_exp1 d \<noteq> -1" using dict_struct_rehashing(2) [OF assms(1)] r by (simp add: dictIsRehashing_def)
      then show ?thesis using True table_length [OF assms(1), of 1] by (simp add: t'_def i'_def)
    qed (use t in \<open>auto simp: t'_def i'_def over_def\<close>)
    define it' where "it' = \<lparr>iter_table = t', iter_index = i', iter_chain = ht_table d t' ! nat i'\<rparr>"
    have st: "iter_started it'" using t(2) by (auto simp: iter_started_def it'_def t'_def i'_def)
    have run: "dictNext_step (iter_paused d it, it) = Some (Inr (iter_paused d it', it'))"
      unfolding step using False len st
      by (simp add: Let_def mem_get_def iter_paused_def flip: t'_def i'_def) (simp add: it'_def)
    have ok: "iter_ok d it'" using assms(2) r t
      by (auto simp: iter_ok_def it'_def t'_def i'_def t_def [symmetric] i_def)
    have rest: "iter_rest d it' = iter_rest d it"
    proof -
      have "ht_table d t' ! nat i' @ concat (drop (nat (i' + 1)) (ht_table d t')) = concat (drop (nat i') (ht_table d t'))"
        using len t(2) Cons_nth_drop_Suc [OF len] by (auto simp: i'_def nat_add_distrib simp flip: concat.simps(2))
      then show ?thesis
        using r by (cases over)
          (auto simp: iter_rest_def it'_def assms(3) t'_def i'_def t_def [symmetric] i_def [symmetric] over_def)
    qed
    have "(if t = 0 then 1 else 0) * Suc (length (ht_table1 d)) + (length (ht_table d t) - nat i)
        > (if t' = 0 then 1 else 0) * Suc (length (ht_table1 d)) + (length (ht_table d t') - nat (i' + 1))"
      using len r t(2) by (cases over) (auto simp: t'_def i'_def nat_add_distrib)
    then show ?thesis
      using run ok rest st by (intro disjI2 exI [of _ it']) (simp add: it'_def flip: t_def i_def)
  qed
qed

lemma dictNext_ok:
  assumes "dict_struct T d" "iter_ok d it" "iter_started it \<or> iter_chain it = []"
  shows "\<exists>it'. iter_started it' \<and> (if iter_rest d it = []
       then dictNext (iter_paused d it) it = Some (iter_paused d it', it', None)
       else dictNext (iter_paused d it) it = Some (iter_paused d it', it', Some (hd (iter_rest d it)))
            \<and> iter_ok d it' \<and> iter_rest d it' = tl (iter_rest d it))"
proof -
  define R where "R = iter_rest d it"
  have "\<exists>r. c_loop dictNext_step (iter_paused d it, it) = Some r \<and>
      (\<exists>it'. iter_started it' \<and> (if R = [] then r = (iter_paused d it', it', None)
        else r = (iter_paused d it', it', Some (hd R)) \<and> iter_ok d it' \<and> iter_rest d it' = tl R))"
  proof (rule c_loop_rule [where I = "\<lambda>(d', it'). iter_ok d it' \<and> (iter_started it' \<or> iter_chain it' = [])
          \<and> d' = iter_paused d it' \<and> iter_rest d it' = R"
        and m = "\<lambda>(_, it). (if iter_table it = 0 then 1 else 0) * Suc (length (ht_table1 d))
          + (length (ht_table d (iter_table it)) - nat (iter_index it + 1))"], goal_cases)
    case 1
    then show ?case using assms by (simp add: R_def)
  next
    case (2 s)
    then obtain it0 where s: "s = (iter_paused d it0, it0)" "iter_ok d it0" "iter_started it0 \<or> iter_chain it0 = []"
        "iter_rest d it0 = R" by auto
    show ?case
    proof (cases "iter_chain it0")
      case Nil
      from dictNext_step_empty [OF assms(1) s(2) Nil] show ?thesis
      proof (elim disjE exE conjE, goal_cases)
        case (1 it')
        then show ?case using s by auto
      next
        case (2 it')
        then show ?case using s by (intro disjI2 exI [of _ "(iter_paused d it', it')"]) auto
      qed
    next
      case (Cons e es)
      define it' where "it' = it0\<lparr>iter_chain := es\<rparr>"
      have "dictNext_step s = Some (Inl (iter_paused d it', it', Some e))"
        using Cons s by (simp add: dictNext_step_def it'_def iter_paused_def iter_started_def)
      moreover have "iter_started it'" using s(3) Cons by (simp add: it'_def iter_started_def)
      moreover have "R = e # iter_rest d it'" "iter_ok d it'"
        using s Cons by (auto simp: iter_rest_def it'_def iter_ok_def)
      ultimately show ?thesis by (intro disjI1) auto
    qed
  qed
  then show ?thesis unfolding dictNext_def R_def by auto
qed

text \<open>Calling \<open>dictNext\<close> until it returns \<open>NULL\<close>.\<close>

fun iter_collect :: "nat \<Rightarrow> ('k, 'v) dict \<Rightarrow> ('k, 'v) dictIterator
    \<Rightarrow> (('k, 'v) dict \<times> ('k, 'v) dictIterator \<times> ('k \<times> 'v) list) option" where
  "iter_collect 0 d it = None"
| "iter_collect (Suc n) d it =
     do { (d, it, r) \<leftarrow> dictNext d it;
          (case r of
             None \<Rightarrow> Some (d, it, [])
           | Some e \<Rightarrow> do { (d, it, es) \<leftarrow> iter_collect n d it; Some (d, it, e # es) }) }"

lemma iter_collect_ok:
  assumes "dict_struct T d" "iter_ok d it" "iter_started it \<or> iter_chain it = []" "length (iter_rest d it) < n"
  shows "\<exists>it'. iter_started it' \<and> iter_collect n (iter_paused d it) it = Some (iter_paused d it', it', iter_rest d it)"
  using assms(2-4)
proof (induction n arbitrary: it)
  case (Suc n)
  obtain it' where it': "iter_started it'" "if iter_rest d it = []
       then dictNext (iter_paused d it) it = Some (iter_paused d it', it', None)
       else dictNext (iter_paused d it) it = Some (iter_paused d it', it', Some (hd (iter_rest d it)))
            \<and> iter_ok d it' \<and> iter_rest d it' = tl (iter_rest d it)"
    using dictNext_ok [OF assms(1) Suc.prems(1,2)] by blast
  show ?case
  proof (cases "iter_rest d it")
    case Nil
    then show ?thesis using it' by auto
  next
    case (Cons e es)
    then show ?thesis using it' Suc.IH [of it'] Suc.prems(3) by auto
  qed
qed simp

end
