(* ===== verification/Dict_Props.thy ===== *)
theory Dict_Props
  imports Dict_Types Dict_Scan
begin

text \<open>
  The properties of the hash tables of \<open>dict.c\<close>, with the dict types of \<open>server.c\<close> as instances.
\<close>

section \<open>A dict in the middle of a rehash\<close>

text \<open>Numbers hashed to themselves; table 0 has 4 buckets of which the first is done, table 1 has 8.\<close>

definition ex_type :: "nat dictType" where
  "ex_type = \<lparr>hashFunction = (\<lambda>k. k), keyCompare = (=), expandAllowed = None\<rparr>"

definition ex_dict :: "(nat, nat) dict" where
  "ex_dict = \<lparr>ht_table0 = [[], [(1, 10)], [], [(7, 70), (3, 30)]],
              ht_table1 = [[(8, 80)], [], [], [], [(4, 40)], [], [], []],
              ht_used0 = 3, ht_used1 = 2, rehashidx = 1, pauserehash = 0, ht_size_exp0 = 2, ht_size_exp1 = 3\<rparr>"

lemma ex_type_ok: "dict_type ex_type"
  by unfold_locales (auto simp: ex_type_def)

lemma ex_dict_ok: "dict_ok ex_type ex_dict"
  by code_simp

lemma ex_dict_struct: "dict_struct ex_type ex_dict"
  using ex_dict_ok by (simp add: dict_ok_def)

lemma ex_dict_size: "dictSize ex_dict = 5"
  by (simp add: ex_dict_def dictSize_def)

section \<open>Properties\<close>

text \<open>
  \<^bold>\<open>C5\<close> (refinement). For every dict type that keeps its contract, any sequence of \<open>dictAdd\<close>,
  \<open>dictReplace\<close>, \<open>dictDelete\<close> and \<open>dictFetchValue\<close> on a well-formed dict, with all the resizing and incremental
  rehashing they trigger, succeeds and returns what the same operations on a finite map return.
\<close>

theorem dict_refines_map:
  assumes "dict_type T" "dict_ok T d" "dictSize d + length ops \<le> 2 ^ 60"
  shows "\<exists>d' rs. run_map_ops (dict_step T cr v0) d ops = Some (d', rs) \<and> dict_ok T d'
     \<and> spec_map_ops (keyCompare T) (dict_map T d) ops = (dict_map T d', rs)
     \<and> dictSize d' \<le> dictSize d + length ops"
proof -
  have "map_adt (dict_ok T) (dict_map T) (keyCompare T) dictSize (2 ^ 60) (dict_step T cr v0)"
    using dict_type.dict_step_ok [OF assms(1)] by (intro map_adt.intro)
  from map_adt.run_map_ops_refines [OF this assms(2,3)] show ?thesis .
qed

theorem dict_refines_map_witness:
  "\<exists>d' rs. run_map_ops (dict_step ex_type DICT_RESIZE_ENABLE 0) ex_dict
       [MAdd 3 1, MReplace 3 2, MGet 3, MDel 9, MDel 8] = Some (d', rs)
     \<and> rs = [RFlag False, RFlag False, RVal (Some 2), RFlag False, RFlag True]"
proof -
  have m: "dict_map ex_type ex_dict 3 = Some 30" "dict_map ex_type ex_dict 9 = None" "dict_map ex_type ex_dict 8 = Some 80"
    "keyCompare ex_type = (=)"
    by (simp_all add: dict_map_def dict_lookup_def dict_entries_def ex_dict_def ex_type_def)
  show ?thesis
    using dict_refines_map [OF ex_type_ok ex_dict_ok, of "[MAdd 3 1, MReplace 3 2, MGet 3, MDel 9, MDel 8]" DICT_RESIZE_ENABLE 0]
    by (auto simp: m ex_dict_size upd_by_def del_by_def)
qed

text \<open>
  \<^bold>\<open>C26\<close> (invariant). A round of incremental rehashing of any length, under any resize policy,
  never fails an assertion or reads outside the tables, keeps the dict well-formed, and neither loses
  nor duplicates an entry; while there is more to do \<open>rehashidx\<close> strictly advances.
\<close>

theorem dictRehash_invariant:
  assumes "dict_type T" "dict_ok T d" "0 < n"
  shows "\<exists>d' more. dictRehash T cr d n = Some (d', more) \<and> dict_ok T d'
     \<and> mset (dict_entries d') = mset (dict_entries d) \<and> dict_map T d' = dict_map T d
     \<and> pauserehash d' = pauserehash d
     \<and> (more \<longrightarrow> dictIsRehashing d' \<and> rehashidx d < rehashidx d')
     \<and> (cr = DICT_RESIZE_ENABLE \<longrightarrow> more = dictIsRehashing d')"
proof -
  have "dict_struct T d" using assms(2) by (simp add: dict_ok_def)
  from dictRehash_ok [OF this assms(3), of cr] obtain d' more where r: "dictRehash T cr d n = Some (d', more)"
    "rehash_keeps T d d'" "cr = DICT_RESIZE_ENABLE \<longrightarrow> more = dictIsRehashing d'"
    "more \<longrightarrow> dictIsRehashing d \<and> dictIsRehashing d' \<and> ht_size_exp0 d' = ht_size_exp0 d \<and> rehashidx d < rehashidx d'"
    by blast
  then show ?thesis
    using dict_type.keeps_ok [OF assms(1,2) r(2)] by (auto simp: rehash_keeps_def)
qed

theorem dictRehash_invariant_witness:
  "\<exists>d' more. dictRehash ex_type DICT_RESIZE_ENABLE ex_dict 1 = Some (d', more)
     \<and> dict_ok ex_type d' \<and> mset (dict_entries d') = mset (dict_entries ex_dict) \<and> more = dictIsRehashing d'"
  using dictRehash_invariant [OF ex_type_ok ex_dict_ok zero_less_one, of DICT_RESIZE_ENABLE] by auto



text \<open>
  \<^bold>\<open>C28\<close> (error). Below \<open>2 ^ 60\<close> entries, finding the position for an insertion never reports the
  failure to expand: it returns the existing entry with an equal key, or a bucket for the new one, and
  inserting there keeps the dict well-formed. So \<open>dictReplace\<close>, which does not check for that failure,
  never dereferences a \<open>NULL\<close> entry.
\<close>

theorem dict_insert_total:
  assumes "dict_type T" "dict_ok T d" "dictSize d < 2 ^ 60"
  shows "\<exists>d1 p. dictFindPositionForInsert T cr d k = Some (d1, p) \<and> dict_map T d1 = dict_map T d \<and>
     (case p of
        Inl None \<Rightarrow> False
      | Inl (Some r) \<Rightarrow> \<exists>k' v. get_entry d1 r = Some (k', v) \<and> keyCompare T k k' \<and> dict_map T d k = Some v
      | Inr pos \<Rightarrow> dict_map T d k = None \<and>
          (\<exists>d2 r. dictInsertAtPosition d1 k v0 pos = Some (d2, r) \<and> dict_ok T d2
             \<and> get_entry d2 r = Some (k, v0) \<and> dictSize d2 = dictSize d + 1))"
proof -
  from dict_type.dictFindPositionForInsert_ok [OF assms, of cr k] obtain d1 p
    where p: "dictFindPositionForInsert T cr d k = Some (d1, p)" "rehash_keeps T d d1" "ht_size_exp0 d1 \<noteq> -1"
    "case dict_map T d k of
        Some v \<Rightarrow> \<exists>r. p = Inl (Some r) \<and> ref_ok d1 r \<and> keyCompare T k (fst (ref_entry d1 r)) \<and> v = snd (ref_entry d1 r)
      | None \<Rightarrow> let t = (if dictIsRehashing d1 then 1 else 0)
                in p = Inr (t, hashFunction T k mod DICTHT_SIZE (ht_size_exp d1 t))" by blast
  note K = dict_type.keeps_ok [OF assms(1,2) p(2)]
  show ?thesis
  proof (cases "dict_map T d k")
    case None
    define t where "t = (if dictIsRehashing d1 then 1 else (0 :: nat))"
    define i where "i = hashFunction T k mod DICTHT_SIZE (ht_size_exp d1 t)"
    have pe: "p = Inr (t, i)" using p(4) None by (simp add: Let_def t_def i_def)
    obtain d2 where "dictInsertAtPosition d1 k v0 (t, i) = Some (d2, (t, i, 0))" "dict_ok T d2" "ref_ok d2 (t, i, 0)"
      "ref_entry d2 (t, i, 0) = (k, v0)" "dictSize d2 = dictSize d1 + 1"
      using dict_type.insert_ok [OF assms(1) K(1) p(3), of k v0] None K(2) unfolding t_def i_def by auto
    then have "dictInsertAtPosition d1 k v0 (t, i) = Some (d2, (t, i, 0)) \<and> dict_ok T d2
        \<and> get_entry d2 (t, i, 0) = Some (k, v0) \<and> dictSize d2 = dictSize d + 1"
      using K(3) get_entry_ok [of d2 "(t, i, 0)"] by simp
    then show ?thesis using p(1) K(2) None unfolding pe by auto
  next
    case (Some v)
    then obtain r where "p = Inl (Some r)" "ref_ok d1 r" "keyCompare T k (fst (ref_entry d1 r))" "v = snd (ref_entry d1 r)"
      using p(4) by auto
    then show ?thesis using p(1) K(2) Some get_entry_ok [of d1 r] by (cases "ref_entry d1 r") auto
  qed
qed

theorem dict_insert_total_witness:
  "\<exists>d1 p. dictFindPositionForInsert ex_type DICT_RESIZE_FORBID ex_dict 11 = Some (d1, p) \<and> p \<noteq> Inl None"
proof -
  have "dictSize ex_dict < 2 ^ 60" by (simp add: ex_dict_size)
  from dict_insert_total [OF ex_type_ok ex_dict_ok this, of DICT_RESIZE_FORBID 11 0] show ?thesis
    by (elim exE conjE) (intro exI conjI, assumption, auto)
qed

text \<open>
  \<^bold>\<open>C29\<close> (safety). Unlinking in two phases: the entry found by the first is still valid for the
  second, the pair deletes exactly that key, and rehashing is paused in between and resumed after.
\<close>

theorem dict_two_phase_unlink:
  assumes "dict_type T" "dict_ok T d"
  shows "\<exists>d1 r d2. dictTwoPhaseUnlinkFind T cr d k = Some (d1, r) \<and> dictTwoPhaseUnlinkFree d1 r = Some d2
     \<and> (r \<noteq> None \<longleftrightarrow> dict_map T d k \<noteq> None) \<and> (r \<noteq> None \<longrightarrow> pauserehash d1 = pauserehash d + 1)
     \<and> dict_map T d1 = dict_map T d \<and> pauserehash d2 = pauserehash d
     \<and> dict_ok T d2 \<and> dict_map T d2 = del_by (keyCompare T) (dict_map T d) k"
  by (rule dict_type.dictTwoPhaseUnlink_ok [OF assms])

theorem dict_two_phase_unlink_witness:
  "\<exists>d1 r d2. dictTwoPhaseUnlinkFind ex_type DICT_RESIZE_ENABLE ex_dict 7 = Some (d1, r)
     \<and> dictTwoPhaseUnlinkFree d1 r = Some d2 \<and> r \<noteq> None \<and> dict_map ex_type d2 7 = None"
proof -
  have "dict_map ex_type ex_dict 7 = Some 70" "keyCompare ex_type 7 7"
    by (simp_all add: dict_map_def dict_lookup_def dict_entries_def ex_dict_def ex_type_def)
  then show ?thesis
    using dict_two_phase_unlink [OF ex_type_ok ex_dict_ok, of DICT_RESIZE_ENABLE 7]
    by (elim exE conjE) (intro exI conjI, assumption, assumption, auto simp: del_by_def)
qed

text \<open>
  \<^bold>\<open>C6\<close> (safety). The guarantee of \<open>dictScan\<close>: in a full iteration, from cursor 0 until the cursor is
  0 again, a key that is in the dict at every call is returned at least once, whatever insertions,
  deletions, expansions, shrinks and rehashing steps happen between the calls; and only keys that
  were in the dict at some call are returned.
\<close>

theorem dictScan_guarantee:
  assumes "list_all (dict_struct T) ds" "scan_iter ds 0 = Some out"
  shows "(list_all (\<lambda>d. k \<in> fst ` set (dict_entries d)) ds \<longrightarrow> k \<in> fst ` set out)
       \<and> (\<forall>x\<in>set out. \<exists>d\<in>set ds. x \<in> set (dict_entries d))"
  using scan_iter_complete [OF assms, of k] scan_iter_sound [OF assms] by auto

text \<open>The same entries after the rehash is over.\<close>

definition ex_dict2 :: "(nat, nat) dict" where
  "ex_dict2 = \<lparr>ht_table0 = [[(8, 80)], [(1, 10)], [], [(3, 30)], [(4, 40)], [], [], [(7, 70)]], ht_table1 = [],
               ht_used0 = 5, ht_used1 = 0, rehashidx = -1, pauserehash = 0, ht_size_exp0 = 3, ht_size_exp1 = -1\<rparr>"

lemma ex_dict2_ok: "dict_ok ex_type ex_dict2"
  by code_simp

lemma ex_scan_ends: "\<exists>out. scan_iter (ex_dict # replicate 7 ex_dict2) 0 = Some out"
  using ex_dict_struct ex_dict2_ok
  by (intro scan_iter_ends [of ex_type 3]) (auto simp: dict_ok_def ex_dict_def ex_dict2_def list_all_iff)

theorem dictScan_guarantee_witness:
  "\<exists>out. scan_iter (ex_dict # replicate 7 ex_dict2) 0 = Some out \<and> 3 \<in> fst ` set out \<and> 7 \<in> fst ` set out"
proof -
  obtain out where out: "scan_iter (ex_dict # replicate 7 ex_dict2) 0 = Some out" using ex_scan_ends by blast
  have st: "list_all (dict_struct ex_type) (ex_dict # replicate 7 ex_dict2)"
    using ex_dict_struct ex_dict2_ok by (auto simp: dict_ok_def list_all_iff)
  show ?thesis
    using dictScan_guarantee [OF st out, of 3] dictScan_guarantee [OF st out, of 7] out
    by (auto simp: list_all_iff dict_entries_def ex_dict_def ex_dict2_def)
qed

text \<open>
  \<^bold>\<open>C30\<close> (termination). A scan ends: while the tables have at most \<open>2 ^ E\<close> buckets, the cursor is back
  at 0 after at most \<open>2 ^ E\<close> calls, and no call reads outside a table.
\<close>

theorem dictScan_ends:
  assumes "list_all (\<lambda>d. dict_struct T d \<and> nat (ht_size_exp0 d) \<le> E \<and> nat (ht_size_exp1 d) \<le> E) ds" "E \<le> 60"
    and "length ds = 2 ^ E"
  shows "\<exists>out. scan_iter ds 0 = Some out"
proof -
  have "(2::nat) ^ E * 2 ^ (64 - E) = 2 ^ 64" using assms(2) by (simp flip: power_add)
  then show ?thesis using scan_iter_ends [OF assms(1), of 0] assms(2,3) by simp
qed

theorem dictScan_ends_witness: "\<exists>out. scan_iter (replicate 8 ex_dict) 0 = Some out"
  using dictScan_ends [of ex_type 3 "replicate 8 ex_dict"] ex_dict_struct
  by (simp add: list_all_iff) (simp add: ex_dict_def)

text \<open>
  \<^bold>\<open>C31\<close> (functional). A safe iterator returns every entry exactly once, bucket by bucket, table 1
  after table 0; it pauses rehashing while it runs, and releasing it gives back the dict unchanged.
\<close>

theorem dict_iterator_all:
  fixes d :: "('k, 'v) dict"
  assumes "dict_struct T d" "dictSize d < n"
  shows "\<exists>d' it'. iter_collect n d dictInitIterator = Some (d', it', dict_entries d)
     \<and> pauserehash d' = pauserehash d + 1 \<and> dictResetIterator d' it' = d"
proof -
  have init: "iter_ok d dictInitIterator" "iter_chain (dictInitIterator :: ('k, 'v) dictIterator) = []"
    "iter_paused d dictInitIterator = d"
    by (auto simp: iter_ok_def dictInitIterator_def iter_paused_def iter_started_def)
  have rest: "iter_rest d dictInitIterator = dict_entries d"
    using assms(1) by (auto simp: iter_rest_def dictInitIterator_def dict_entries_def dict_struct_def dictIsRehashing_def)
  obtain it' where it': "iter_started it'" "iter_collect n d dictInitIterator = Some (iter_paused d it', it', dict_entries d)"
    using iter_collect_ok [OF assms(1) init(1), of n] init rest dict_struct_dictSize [OF assms(1)] assms(2) by auto
  then have "dictResetIterator (iter_paused d it') it' = d"
    by (simp add: dictResetIterator_def iter_paused_def iter_started_def)
  then show ?thesis using it' by (auto simp: iter_paused_def)
qed

theorem dict_iterator_all_witness:
  "\<exists>d' it'. iter_collect 6 ex_dict dictInitIterator = Some (d', it', [(1, 10), (7, 70), (3, 30), (8, 80), (4, 40)])"
proof -
  have "dict_entries ex_dict = [(1, 10), (7, 70), (3, 30), (8, 80), (4, 40)]"
    by (simp add: dict_entries_def ex_dict_def)
  then show ?thesis using dict_iterator_all [OF ex_dict_struct, of 6] by (auto simp: ex_dict_size)
qed


text \<open>
  \<^bold>\<open>C33\<close> (safety). The case-insensitive type of the command table hashes all bytes of an sds but
  compares only up to the first NUL byte; it respects the contract on keys without NUL bytes.
\<close>

theorem commandTable_nul_free:
  assumes "0 \<notin> set a" "0 \<notin> set b" "keyCompare (commandTableDictType seed) a b"
  shows "hashFunction (commandTableDictType seed) a = hashFunction (commandTableDictType seed) b"
proof -
  have "c_str s = s" if "0 \<notin> set s" for s using that by (auto simp: c_str_def takeWhile_eq_all_conv)
  then show ?thesis
    using assms by (simp add: commandTableDictType_def dictSdsKeyCaseCompare_def strcaseeq_def dictSdsCaseHash_def
        dictGenCaseHashFunction_def siphash_nocase_map)
qed

theorem commandTable_nul_free_witness:
  "hashFunction (commandTableDictType (replicate 16 0)) [71, 69, 116]
   = hashFunction (commandTableDictType (replicate 16 0)) [103, 101, 84]"
  using commandTable_nul_free [of "[71, 69, 116]" "[103, 101, 84]" "replicate 16 0"]
  by (simp add: commandTableDictType_def dictSdsKeyCaseCompare_def strcaseeq_def c_str_def siptlw_def)

end
