(* ===== verification/Server_Env.thy ===== *)
theory Server_Env
  imports Intset Listpack_Props Dict_Types Dict_Scan
begin

text \<open>
  What the data types of the server share: the part of the configuration and of the process they depend on
  (size limits, hash seed, resize policy, allocator), elements that are strings or integers, and the
  facts on listpacks as containers of such elements.
\<close>

section \<open>Environment\<close>

text \<open>
  The limits of the configuration, the siphash seed, the dict resize policy, and the contents of fresh memory.
\<close>

record server_env =
  set_max_intset_entries :: nat
  set_max_listpack_entries :: nat
  set_max_listpack_value :: nat
  hash_max_listpack_entries :: nat
  hash_max_listpack_value :: nat
  env_seed :: bytes
  env_can_resize :: dictResizeEnable
  env_alloc :: allocator
  env_junk :: "nat \<Rightarrow> byte"

text \<open>The defaults of \<open>config.c\<close>, with any hash seed, resize policy and allocator.\<close>

definition default_env :: "bytes \<Rightarrow> dictResizeEnable \<Rightarrow> (nat \<Rightarrow> nat) \<Rightarrow> (nat \<Rightarrow> byte) \<Rightarrow> (nat \<Rightarrow> byte) \<Rightarrow> server_env" where
  "default_env seed cr slack j1 j2 =
     \<lparr>set_max_intset_entries = 512, set_max_listpack_entries = 128, set_max_listpack_value = 64,
      hash_max_listpack_entries = 512, hash_max_listpack_value = 64, env_seed = seed,
      env_can_resize = cr, env_alloc = \<lparr>usable = (\<lambda>n. n + slack n), junk = j1\<rparr>, env_junk = j2\<rparr>"

text \<open>An element as an operation receives or an iterator returns it: a string, or \<open>NULL\<close> and an integer.\<close>

datatype elem = EStr bytes | EInt int

definition isSdsRepresentableAsLongLong :: "bytes \<Rightarrow> int option" where
  "isSdsRepresentableAsLongLong s = string2ll s"

text \<open>\<open>sdsfromlonglong\<close>, and the conversion into \<open>tmpbuf\<close> at the start of several operations.\<close>

definition sdsfromlonglong :: "server_env \<Rightarrow> int \<Rightarrow> bytes option" where
  "sdsfromlonglong env value =
     do { (buf, len) \<leftarrow> ll2string (map (env_junk env) [0..<LONG_STR_SIZE]) LONG_STR_SIZE value;
          Some (take len buf) }"

definition elem_bytes :: "server_env \<Rightarrow> elem \<Rightarrow> bytes option" where
  "elem_bytes env e = (case e of EStr s \<Rightarrow> Some s | EInt v \<Rightarrow> sdsfromlonglong env v)"

definition lp_value_elem :: "bytes \<Rightarrow> lp_value \<Rightarrow> elem option" where
  "lp_value_elem lp v =
     (case v of LP_Int i \<Rightarrow> Some (EInt i) | LP_Str q n \<Rightarrow> map_option EStr (mem_read lp q n))"

definition lp_append_elem :: "server_env \<Rightarrow> bytes \<Rightarrow> elem \<Rightarrow> bytes option option" where
  "lp_append_elem env lp e =
     (case e of EStr s \<Rightarrow> lpAppend (env_alloc env) lp s | EInt v \<Rightarrow> lpAppendInteger (env_alloc env) lp v)"

definition htNeedsResize :: "('k, 'v) dict \<Rightarrow> bool" where
  "htNeedsResize d \<longleftrightarrow> dictSlots d > 4 \<and> dictSize d * 100 div dictSlots d < 10"

section \<open>Hypotheses on the environment\<close>

text \<open>
  An allocation is at least as large as requested; an intset stays below \<open>2 ^ 29\<close> entries, where the byte count
  of \<open>intsetMoveTail\<close> wraps; a hash within its listpack limits fits into a listpack.
\<close>

definition env_ok :: "server_env \<Rightarrow> bool" where
  "env_ok env \<longleftrightarrow> alloc_ok (env_alloc env) \<and> set_max_intset_entries env + 1 < 2 ^ 29
     \<and> (2 * hash_max_listpack_entries env + 2) * (hash_max_listpack_value env + 14) + 7 < 2 ^ 32"

lemma default_env_ok: "env_ok (default_env seed cr slack j1 j2)"
  by (simp add: env_ok_def default_env_def alloc_ok_def)

abbreviation ex_env :: server_env where
  "ex_env \<equiv> default_env (replicate 16 0) DICT_RESIZE_ENABLE (\<lambda>_. 0) (\<lambda>_. 0) (\<lambda>_. 0)"

section \<open>Listpacks represent one list of entries\<close>

lemma wf_entry_prefix:
  assumes "wf_entry d" "wf_entry d'" "d @ xs = d' @ ys"
  shows "d = d'"
proof -
  have "lpCurrentEncodedSizeUnsafe (d @ xs) 0 = Some (length d)" "lpCurrentEncodedSizeUnsafe (d' @ ys) 0 = Some (length d')"
    using assms(1,2) encodedSize_block [of d _ "[]" xs] encodedSize_block [of d' _ "[]" ys] by (simp_all add: wf_entry_def)
  then show ?thesis using assms(3) by simp
qed

lemma lp_body_unique:
  "list_all wf_entry ds \<Longrightarrow> list_all wf_entry es \<Longrightarrow> lp_body ds @ LP_EOF # xs = lp_body es @ LP_EOF # ys \<Longrightarrow> ds = es"
proof (induction ds arbitrary: es)
  case Nil
  then show ?case by (cases es) (auto simp: wf_entry_def lp_entry_def neq_Nil_conv)
next
  case (Cons d ds)
  obtain e es' where es: "es = e # es'"
    using Cons.prems by (cases es) (auto simp: wf_entry_def lp_entry_def neq_Nil_conv)
  then have "d = e" using Cons.prems wf_entry_prefix [of d e] by (simp add: lp_entry_def)
  then show ?case using Cons es by simp
qed

lemma lp_rep_unique: "lp_rep lp ds \<Longrightarrow> lp_rep lp es \<Longrightarrow> ds = es"
  unfolding lp_rep_def using lp_body_unique [of ds es]
  by (elim conjE exE) (metis append_eq_append_conv length_lp_hdr)

section \<open>Elements\<close>

definition elem_str :: "elem \<Rightarrow> bytes" where
  "elem_str e = (case e of EStr s \<Rightarrow> s | EInt v \<Rightarrow> ll_repr v)"

definition elem_ok :: "elem \<Rightarrow> bool" where
  "elem_ok e = (case e of EStr s \<Rightarrow> True | EInt v \<Rightarrow> is_int64 v)"

lemma sdsfromlonglong_ok: "is_int64 v \<Longrightarrow> sdsfromlonglong env v = Some (ll_repr v)"
  using ll2string_correct [of v 21 "map (env_junk env) [0..<21]"] length_ll_repr [of v]
  by (auto simp: sdsfromlonglong_def simp del: upt_Suc)

lemma elem_bytes_ok: "elem_ok e \<Longrightarrow> elem_bytes env e = Some (elem_str e)"
  by (cases e) (simp_all add: elem_ok_def elem_bytes_def elem_str_def sdsfromlonglong_ok)

lemma elem_encode: "elem_ok e \<Longrightarrow> e = EInt v \<Longrightarrow> lp_encode (elem_str e) = lpEncodeIntegerGetType v"
  by (simp add: elem_ok_def elem_str_def lp_encode_def lpStringToInt64_eq string2ll_complete)

lemma lp_append_elem_ok:
  assumes "env_ok env" "lp_rep lp ds" "elem_ok e" "length (elem_str e) + 5 < 2 ^ 32"
    "lp_size (ds @ [lp_encode (elem_str e)]) < 2 ^ 32"
  shows "\<exists>lp'. lp_append_elem env lp e = Some (Some lp') \<and> lp_rep lp' (ds @ [lp_encode (elem_str e)])"
proof -
  define ele where "ele = (case e of EStr s \<Rightarrow> EleStr s | EInt v \<Rightarrow> EleInt (lpEncodeIntegerGetType v))"
  have d: "ele_data ele = lp_encode (elem_str e)" "ele \<noteq> EleDel"
    using elem_encode [OF assms(3)] by (auto simp: ele_def ele_data_def elem_str_def split: elem.split)
  have "lpGetTotalBytes lp - 1 = lp_off ds (length ds)" using lp_rep_header(1) [OF assms(2)] by (simp add: lp_off_end)
  then have "lp_append_elem env lp e = map_option (map_option fst) (lpInsert (env_alloc env) lp ele (lp_off ds (length ds)) LP_BEFORE)"
    by (cases e) (simp_all add: lp_append_elem_def lpAppend_def lpAppendInteger_def lpInsertInteger_def ele_def)
  then show ?thesis
    using lpInsert_before [of "env_alloc env" lp ds "length ds" ele] assms d lp_encode_wf [OF assms(4)]
    by (auto simp: env_ok_def)
qed

lemma find_from_0:
  "(case find_from P 0 0 k xs of None \<Rightarrow> \<forall>x\<in>set xs. \<not> P x | Some j \<Rightarrow> k \<le> j \<and> j < k + length xs \<and> P (xs ! (j - k)))"
proof (induction xs arbitrary: k)
  case (Cons x xs)
  show ?case
  proof (cases "P x")
    case False
    show ?thesis
    proof (cases "find_from P 0 0 (Suc k) xs")
      case None
      then show ?thesis using Cons.IH [of "Suc k"] False by simp
    next
      case (Some j)
      then have "Suc k \<le> j" "j < Suc k + length xs" "P (xs ! (j - Suc k))" using Cons.IH [of "Suc k"] by simp_all
      moreover have "(x # xs) ! (j - k) = xs ! (j - Suc k)" using \<open>Suc k \<le> j\<close> by (simp add: nth_Cons' diff_diff_eq)
      ultimately show ?thesis using Some False by simp
    qed
  qed simp
qed simp

lemma nth_image: "i < length xs \<Longrightarrow> f (xs ! i) \<in> f ` set xs"
  by simp

lemma lp_rep_take:
  assumes "lp_rep lp ds"
  shows "mem_read lp 0 (lpBytes lp) = Some (take (lp_size ds) lp) \<and> lp_rep (take (lp_size ds) lp) ds"
proof -
  obtain n rest where lp: "lp = lp_hdr (lp_size ds) n @ lp_body ds @ LP_EOF # rest" "lp_num_ok n (length ds)"
    using assms by (auto simp: lp_rep_def)
  have "take (lp_size ds) lp = lp_hdr (lp_size ds) n @ lp_body ds @ LP_EOF # []"
    unfolding lp(1) by (simp add: lp_size_def)
  then have "lp_rep (take (lp_size ds) lp) ds"
    using lp_repI [of ds n "[]"] lp(2) assms by (auto simp: lp_rep_def)
  then show ?thesis using lp_rep_header(1,2) [OF assms] by (simp add: mem_read_def lpBytes_def)
qed

lemma lp_size_bound:
  assumes "\<And>d. d \<in> set ds \<Longrightarrow> length (lp_entry d) \<le> m"
  shows "lp_size ds \<le> 7 + m * length ds"
proof -
  have "length (lp_body ds) \<le> m * length ds" using assms by (induction ds) (auto simp: add_le_mono)
  then show ?thesis by (simp add: lp_size_def)
qed

section \<open>Reading a listpack\<close>

abbreviation lp_str :: "bytes \<Rightarrow> bytes" where
  "lp_str d \<equiv> val_bytes (entry_val d)"

text \<open>The strings of a listpack, read entry by entry from the offset \<open>p\<close>.\<close>

fun lp_decode :: "nat \<Rightarrow> bytes \<Rightarrow> nat \<Rightarrow> bytes list" where
  "lp_decode 0 lp p = []"
| "lp_decode (Suc n) lp p =
     (if mem_get lp p = Some LP_EOF then []
      else
        (case lpGetWithSize lp p of
           Some (LP_Str q k, Some sz) \<Rightarrow> take k (drop q lp) # lp_decode n lp (p + sz)
         | Some (LP_Int i, Some sz) \<Rightarrow> ll_repr i # lp_decode n lp (p + sz)
         | _ \<Rightarrow> []))"

definition lp_strs :: "bytes \<Rightarrow> bytes list" where
  "lp_strs lp = lp_decode (length lp) lp 6"

lemma lp_decode_rep:
  assumes "lp_rep lp ds"
  shows "i \<le> length ds \<Longrightarrow> length ds < i + n \<Longrightarrow> lp_decode n lp (lp_off ds i) = map lp_str (drop i ds)"
proof (induction n arbitrary: i)
  case (Suc n)
  show ?case
  proof (cases "i < length ds")
    case True
    obtain v where v: "lpGetWithSize lp (lp_off ds i) = Some (v, Some (length (lp_entry (ds ! i))))"
      "case v of LP_Str q n \<Rightarrow> q + n \<le> lp_off ds (Suc i) \<and> (\<exists>s. mem_read lp q n = Some s \<and> length s = n \<and> entry_val (ds ! i) = VStr s)
       | LP_Int x \<Rightarrow> entry_val (ds ! i) = VInt x"
      using getWithSize_off [OF assms True] by blast
    have d: "drop i ds = ds ! i # drop (Suc i) ds" using True by (simp add: Cons_nth_drop_Suc)
    have "lp_decode n lp (lp_off ds i + length (lp_entry (ds ! i))) = map lp_str (drop (Suc i) ds)"
      using Suc.IH [of "Suc i"] Suc.prems True by (simp add: lp_off_Suc)
    moreover have "mem_get lp (lp_off ds i) \<noteq> Some LP_EOF" using lp_get_off(1) [OF assms True] by auto
    ultimately show ?thesis using v d
      by (cases v) (auto simp: val_bytes_def mem_read_def split: if_splits)
  next
    case False
    then show ?thesis using lp_get_off(2) [OF assms] Suc.prems by simp
  qed
qed simp

lemma lp_strs_rep:
  assumes "lp_rep lp ds"
  shows "lp_strs lp = map lp_str ds"
proof -
  have "length (lp_body ds) < length lp" using lp_rep_header(2) [OF assms] by (simp add: lp_size_def)
  moreover have "2 * length ds \<le> length (lp_body ds)" using lp_length_le_size assms by (auto simp: lp_rep_def)
  ultimately have "length ds < length lp" by simp
  then show ?thesis using lp_decode_rep [OF assms, of 0 "length lp"] by (simp add: lp_strs_def)
qed

end
