(* ===== verification/Set_Type.thy ===== *)
theory Set_Type
  imports Server_Env
begin

text \<open>
  The set type of \<open>t_set.c\<close>: one object with three encodings (a sorted array of integers, a listpack,
  a hash table), operations that dispatch on the encoding, and the conversions between encodings
  that additions trigger. The configuration and the environment of the allocations are a record.
\<close>

section \<open>Objects and environment\<close>

datatype setobj = SET_INTSET intset | SET_LISTPACK bytes | SET_HT "(bytes, unit) dict"

datatype set_encoding = ENC_LISTPACK | ENC_HT

definition setTypeCreate :: "server_env \<Rightarrow> bytes \<Rightarrow> nat \<Rightarrow> setobj" where
  "setTypeCreate env value size_hint =
     (if isSdsRepresentableAsLongLong value \<noteq> None \<and> size_hint \<le> set_max_intset_entries env then
        SET_INTSET intsetNew
      else if size_hint \<le> set_max_listpack_entries env then SET_LISTPACK (lpNew (env_alloc env) 0)
      else SET_HT (fst (dictExpand dictCreate size_hint)))"

definition intsetMaxEntries :: "server_env \<Rightarrow> nat" where
  "intsetMaxEntries env =
     (let max_entries = set_max_intset_entries env
      in if max_entries \<ge> 2 ^ 30 then 2 ^ 30 else max_entries)"

text \<open>\<open>lpLength\<close> may write the number of elements into the header.\<close>

definition setTypeSize :: "setobj \<Rightarrow> (setobj \<times> nat) option" where
  "setTypeSize subject =
     (case subject of
        SET_HT d \<Rightarrow> Some (subject, dictSize d)
      | SET_INTSET is \<Rightarrow> Some (subject, intsetLen is)
      | SET_LISTPACK lp \<Rightarrow> map_option (\<lambda>(lp, n). (SET_LISTPACK lp, n)) (lpLength lp))"

section \<open>Iterators\<close>

datatype set_iter = ITER_INTSET nat | ITER_LISTPACK "nat option" | ITER_HT "(bytes, unit) dictIterator"

definition setTypeInitIterator :: "setobj \<Rightarrow> set_iter" where
  "setTypeInitIterator subject =
     (case subject of
        SET_HT _ \<Rightarrow> ITER_HT dictInitIterator
      | SET_INTSET _ \<Rightarrow> ITER_INTSET 0
      | SET_LISTPACK _ \<Rightarrow> ITER_LISTPACK None)"

text \<open>
  The next element, or \<open>None\<close> for the result -1. The dict of the subject is paused and resumed by its
  iterator, so the subject is returned too; the iterator of a set works on the encoding it was made for.
\<close>

definition setTypeNext :: "setobj \<Rightarrow> set_iter \<Rightarrow> (setobj \<times> set_iter \<times> elem option) option" where
  "setTypeNext subject si =
     (case (subject, si) of
        (SET_HT d, ITER_HT di) \<Rightarrow>
          do { (d, di, de) \<leftarrow> dictNext d di;
               Some (SET_HT d, ITER_HT di, map_option (\<lambda>e. EStr (fst e)) de) }
      | (SET_INTSET is, ITER_INTSET ii) \<Rightarrow>
          do { r \<leftarrow> intsetGet is ii; Some (subject, ITER_INTSET (ii + 1), map_option EInt r) }
      | (SET_LISTPACK lp, ITER_LISTPACK lpi) \<Rightarrow>
          do { lpi' \<leftarrow> (case lpi of None \<Rightarrow> lpFirst lp | Some p \<Rightarrow> lpNext lp p);
               (case lpi' of
                  None \<Rightarrow> Some (subject, si, None)
                | Some p \<Rightarrow>
                    do { v \<leftarrow> lpGetValue lp p; e \<leftarrow> lp_value_elem lp v;
                         Some (subject, ITER_LISTPACK (Some p), Some e) }) }
      | _ \<Rightarrow> None)"

definition setTypeReleaseIterator :: "setobj \<Rightarrow> set_iter \<Rightarrow> setobj" where
  "setTypeReleaseIterator subject si =
     (case (subject, si) of
        (SET_HT d, ITER_HT di) \<Rightarrow> SET_HT (dictResetIterator d di)
      | _ \<Rightarrow> subject)"

definition setTypeNextObject :: "server_env \<Rightarrow> setobj \<Rightarrow> set_iter \<Rightarrow> (setobj \<times> set_iter \<times> bytes option) option" where
  "setTypeNextObject env subject si =
     do { (subject, si, e) \<leftarrow> setTypeNext subject si;
          (case e of
             None \<Rightarrow> Some (subject, si, None)
           | Some e \<Rightarrow> do { s \<leftarrow> elem_bytes env e; Some (subject, si, Some s) }) }"

section \<open>Conversions\<close>

text \<open>The two copying loops; a state is the old set with its iterator, and the new structure.\<close>

definition copy_ht_step :: "server_env \<Rightarrow> setobj \<times> set_iter \<times> (bytes, unit) dict
    \<Rightarrow> (((bytes, unit) dict) + (setobj \<times> set_iter \<times> (bytes, unit) dict)) option" where
  "copy_ht_step env = (\<lambda>(setobj, si, d).
     do { (setobj, si, element) \<leftarrow> setTypeNextObject env setobj si;
          (case element of
             None \<Rightarrow> Some (Inl d)
           | Some s \<Rightarrow>
               do { (d, ok) \<leftarrow> dictAdd (setDictType (env_seed env)) (env_can_resize env) () d s ();
                    c_assert ok;
                    Some (Inr (setobj, si, d)) }) })"

definition copy_lp_step :: "server_env \<Rightarrow> setobj \<times> set_iter \<times> bytes \<Rightarrow> (bytes + (setobj \<times> set_iter \<times> bytes)) option" where
  "copy_lp_step env = (\<lambda>(setobj, si, lp).
     do { (setobj, si, e) \<leftarrow> setTypeNext setobj si;
          (case e of
             None \<Rightarrow> Some (Inl lp)
           | Some e \<Rightarrow>
               do { r \<leftarrow> lp_append_elem env lp e;
                    lp \<leftarrow> r;
                    Some (Inr (setobj, si, lp)) }) })"

definition lp_estcap :: "setobj \<Rightarrow> nat \<Rightarrow> nat option" where
  "lp_estcap setobj cap =
     (case setobj of
        SET_INTSET is \<Rightarrow>
          if intsetLen is > 0 then
            do { lo \<leftarrow> intsetMin is; hi \<leftarrow> intsetMax is;
                 Some (max (lpEstimateBytesRepeatedInteger lo cap) (lpEstimateBytesRepeatedInteger hi cap)) }
          else Some (cap * 2)
      | _ \<Rightarrow> Some (cap * 2))"

text \<open>
  \<open>setTypeConvertAndExpand\<close> with \<open>panic\<close> set: a failing allocation does not return. Converting a set to
  the encoding it has is an assertion failure.
\<close>

definition setTypeConvertAndExpand :: "server_env \<Rightarrow> setobj \<Rightarrow> set_encoding \<Rightarrow> nat \<Rightarrow> setobj option" where
  "setTypeConvertAndExpand env setobj enc cap =
     (case enc of
        ENC_HT \<Rightarrow>
          do { c_assert (case setobj of SET_HT _ \<Rightarrow> False | _ \<Rightarrow> True);
               d \<leftarrow> c_loop (copy_ht_step env) (setobj, setTypeInitIterator setobj, fst (dictExpand dictCreate cap));
               Some (SET_HT d) }
      | ENC_LISTPACK \<Rightarrow>
          do { c_assert (case setobj of SET_LISTPACK _ \<Rightarrow> False | _ \<Rightarrow> True);
               estcap \<leftarrow> lp_estcap setobj cap;
               lp \<leftarrow> c_loop (copy_lp_step env) (setobj, setTypeInitIterator setobj, lpNew (env_alloc env) estcap);
               Some (SET_LISTPACK lp) })"

definition setTypeConvert :: "server_env \<Rightarrow> setobj \<Rightarrow> set_encoding \<Rightarrow> setobj option" where
  "setTypeConvert env setobj enc =
     do { (setobj, n) \<leftarrow> setTypeSize setobj; setTypeConvertAndExpand env setobj enc n }"

definition setTypeMaybeConvert :: "server_env \<Rightarrow> setobj \<Rightarrow> nat \<Rightarrow> setobj option" where
  "setTypeMaybeConvert env set' size_hint =
     (if (case set' of
            SET_LISTPACK _ \<Rightarrow> size_hint > set_max_listpack_entries env
          | SET_INTSET _ \<Rightarrow> size_hint > set_max_intset_entries env
          | SET_HT _ \<Rightarrow> False)
      then setTypeConvertAndExpand env set' ENC_HT size_hint
      else Some set')"

definition maybeConvertIntset :: "server_env \<Rightarrow> setobj \<Rightarrow> setobj option" where
  "maybeConvertIntset env subject =
     (case subject of
        SET_INTSET is \<Rightarrow>
          if intsetLen is > intsetMaxEntries env then setTypeConvert env subject ENC_HT else Some subject
      | _ \<Rightarrow> None)"

section \<open>Adding, removing, membership\<close>

text \<open>\<open>maxelelen\<close> and \<open>totsize\<close> of an intset: bounds for its elements in a listpack.\<close>

definition intset_lp_bounds :: "intset \<Rightarrow> (nat \<times> nat) option" where
  "intset_lp_bounds is =
     (let n = intsetLen is in
      if n \<noteq> 0 then
        do { hi \<leftarrow> intsetMax is; lo \<leftarrow> intsetMin is;
             Some (max (sdigits10 hi) (sdigits10 lo),
                   max (lpEstimateBytesRepeatedInteger hi n) (lpEstimateBytesRepeatedInteger lo n)) }
      else Some (0, 0))"

text \<open>Adding to an intset a string that is not an integer: to a listpack if that is safe.\<close>

definition intset_add_string :: "server_env \<Rightarrow> intset \<Rightarrow> bytes \<Rightarrow> setobj option" where
  "intset_add_string env is str =
     do { (maxelelen, totsize) \<leftarrow> intset_lp_bounds is;
          (if intsetLen is < set_max_listpack_entries env \<and> length str \<le> set_max_listpack_value env
              \<and> maxelelen \<le> set_max_listpack_value env \<and> lpSafeToAdd None (totsize + length str)
           then
             do { set' \<leftarrow> setTypeConvertAndExpand env (SET_INTSET is) ENC_LISTPACK (intsetLen is + 1);
                  (case set' of
                     SET_LISTPACK lp \<Rightarrow>
                       do { r \<leftarrow> lpAppend (env_alloc env) lp str;
                            lp \<leftarrow> r;
                            Some (SET_LISTPACK (lpShrinkToFit (env_alloc env) lp)) }
                   | _ \<Rightarrow> None) }
           else
             do { set' \<leftarrow> setTypeConvertAndExpand env (SET_INTSET is) ENC_HT (intsetLen is + 1);
                  (case set' of
                     SET_HT d \<Rightarrow>
                       do { (d, ok) \<leftarrow> dictAdd (setDictType (env_seed env)) (env_can_resize env) () d str ();
                            c_assert ok;
                            Some (SET_HT d) }
                   | _ \<Rightarrow> None) }) }"

text \<open>Appending to a listpack an element that is not in it, converting when a limit is reached.\<close>

definition listpack_add_new :: "server_env \<Rightarrow> bytes \<Rightarrow> elem \<Rightarrow> bytes \<Rightarrow> setobj option" where
  "listpack_add_new env lp e str =
     do { (lp, n) \<leftarrow> lpLength lp;
          (if n < set_max_listpack_entries env \<and> length str \<le> set_max_listpack_value env
              \<and> lpSafeToAdd (Some lp) (length str)
           then do { r \<leftarrow> lp_append_elem env lp e; lp \<leftarrow> r; Some (SET_LISTPACK lp) }
           else
             do { (lp, n) \<leftarrow> lpLength lp;
                  set' \<leftarrow> setTypeConvertAndExpand env (SET_LISTPACK lp) ENC_HT (n + 1);
                  (case set' of
                     SET_HT d \<Rightarrow>
                       do { (d, ok) \<leftarrow> dictAdd (setDictType (env_seed env)) (env_can_resize env) () d str ();
                            c_assert ok;
                            Some (SET_HT d) }
                   | _ \<Rightarrow> None) }) }"

definition lp_find_elem :: "bytes \<Rightarrow> bytes \<Rightarrow> nat option option" where
  "lp_find_elem lp str =
     do { p \<leftarrow> lpFirst lp;
          (case p of None \<Rightarrow> Some None | Some p \<Rightarrow> lpFind lp p str 0) }"

definition setTypeAddAux :: "server_env \<Rightarrow> setobj \<Rightarrow> elem \<Rightarrow> (setobj \<times> bool) option" where
  "setTypeAddAux env set' e =
     (case (e, set') of
        (EInt llval, SET_INTSET is) \<Rightarrow>
          do { (is, success) \<leftarrow> intsetAdd (env_junk env) is llval;
               set' \<leftarrow> (if success then maybeConvertIntset env (SET_INTSET is) else Some (SET_INTSET is));
               Some (set', success) }
      | _ \<Rightarrow>
          do { str \<leftarrow> elem_bytes env e;
               (case set' of
                  SET_HT ht \<Rightarrow>
                    do { (ht, position) \<leftarrow> dictFindPositionForInsert (setDictType (env_seed env)) (env_can_resize env) ht str;
                         (case position of
                            Inr p \<Rightarrow> do { (ht, _) \<leftarrow> dictInsertAtPosition ht str () p; Some (SET_HT ht, True) }
                          | Inl _ \<Rightarrow> Some (SET_HT ht, False)) }
                | SET_LISTPACK lp \<Rightarrow>
                    do { p \<leftarrow> lp_find_elem lp str;
                         (case p of
                            None \<Rightarrow> do { set' \<leftarrow> listpack_add_new env lp e str; Some (set', True) }
                          | Some _ \<Rightarrow> Some (set', False)) }
                | SET_INTSET is \<Rightarrow>
                    (case string2ll str of
                       Some value \<Rightarrow>
                         do { (is, success) \<leftarrow> intsetAdd (env_junk env) is value;
                              (if success then
                                 do { set' \<leftarrow> maybeConvertIntset env (SET_INTSET is); Some (set', True) }
                               else Some (SET_INTSET is, False)) }
                     | None \<Rightarrow> do { set' \<leftarrow> intset_add_string env is str; Some (set', True) })) })"

definition setTypeAdd :: "server_env \<Rightarrow> setobj \<Rightarrow> bytes \<Rightarrow> (setobj \<times> bool) option" where
  "setTypeAdd env subject value = setTypeAddAux env subject (EStr value)"

definition setTypeRemoveAux :: "server_env \<Rightarrow> setobj \<Rightarrow> elem \<Rightarrow> (setobj \<times> bool) option" where
  "setTypeRemoveAux env setobj e =
     (case (e, setobj) of
        (EInt llval, SET_INTSET is) \<Rightarrow>
          do { (is, success) \<leftarrow> intsetRemove (env_junk env) is llval; Some (SET_INTSET is, success) }
      | _ \<Rightarrow>
          do { str \<leftarrow> elem_bytes env e;
               (case setobj of
                  SET_HT d \<Rightarrow>
                    do { (d, deleted) \<leftarrow> dictDelete (setDictType (env_seed env)) (env_can_resize env) d str;
                         Some (SET_HT (if deleted \<and> htNeedsResize d then fst (dictResize (env_can_resize env) d) else d),
                               deleted) }
                | SET_LISTPACK lp \<Rightarrow>
                    do { p \<leftarrow> lp_find_elem lp str;
                         (case p of
                            None \<Rightarrow> Some (setobj, False)
                          | Some p \<Rightarrow>
                              do { r \<leftarrow> lpDelete (env_alloc env) lp p;
                                   (lp, _) \<leftarrow> r;
                                   Some (SET_LISTPACK lp, True) }) }
                | SET_INTSET is \<Rightarrow>
                    (case string2ll str of
                       Some llval \<Rightarrow>
                         do { (is, success) \<leftarrow> intsetRemove (env_junk env) is llval; Some (SET_INTSET is, success) }
                     | None \<Rightarrow> Some (setobj, False))) })"

definition setTypeRemove :: "server_env \<Rightarrow> setobj \<Rightarrow> bytes \<Rightarrow> (setobj \<times> bool) option" where
  "setTypeRemove env setobj value = setTypeRemoveAux env setobj (EStr value)"

text \<open>A lookup in the hash table may do a step of rehashing.\<close>

definition setTypeIsMemberAux :: "server_env \<Rightarrow> setobj \<Rightarrow> elem \<Rightarrow> (setobj \<times> bool) option" where
  "setTypeIsMemberAux env set' e =
     (case (e, set') of
        (EInt llval, SET_INTSET is) \<Rightarrow> map_option (Pair set') (intsetFind is llval)
      | _ \<Rightarrow>
          do { str \<leftarrow> elem_bytes env e;
               (case set' of
                  SET_LISTPACK lp \<Rightarrow> map_option (\<lambda>p. (set', p \<noteq> None)) (lp_find_elem lp str)
                | SET_INTSET is \<Rightarrow>
                    (case string2ll str of
                       Some llval \<Rightarrow> map_option (Pair set') (intsetFind is llval)
                     | None \<Rightarrow> Some (set', False))
                | SET_HT d \<Rightarrow>
                    do { (d, r) \<leftarrow> dictFind (setDictType (env_seed env)) (env_can_resize env) d str;
                         Some (SET_HT d, r \<noteq> None) }) })"

definition setTypeIsMember :: "server_env \<Rightarrow> setobj \<Rightarrow> bytes \<Rightarrow> (setobj \<times> bool) option" where
  "setTypeIsMember env subject value = setTypeIsMemberAux env subject (EStr value)"

text \<open>Collapsing a set whose elements are all integers into an intset.\<close>

definition to_intset_step :: "server_env \<Rightarrow> setobj \<times> set_iter \<times> intset \<Rightarrow> (intset + (setobj \<times> set_iter \<times> intset)) option" where
  "to_intset_step env = (\<lambda>(set', si, is).
     do { (set', si, e) \<leftarrow> setTypeNext set' si;
          (case e of
             None \<Rightarrow> Some (Inl is)
           | Some e \<Rightarrow>
               do { llval \<leftarrow> (case e of EStr s \<Rightarrow> string2ll s | EInt v \<Rightarrow> Some v);
                    (is, success) \<leftarrow> intsetAdd (env_junk env) is llval;
                    c_assert success;
                    Some (Inr (set', si, is)) }) })"

definition maybeConvertToIntset :: "server_env \<Rightarrow> setobj \<Rightarrow> setobj option" where
  "maybeConvertToIntset env set' =
     (case set' of
        SET_INTSET _ \<Rightarrow> Some set'
      | _ \<Rightarrow>
          do { (set', n) \<leftarrow> setTypeSize set';
               (if n > intsetMaxEntries env then Some set'
                else
                  do { is \<leftarrow> c_loop (to_intset_step env) (set', setTypeInitIterator set', intsetNew);
                       Some (SET_INTSET is) }) })"

text \<open>Duplicating with the same encoding.\<close>

definition dup_ht_step :: "server_env \<Rightarrow> setobj \<times> set_iter \<times> setobj \<Rightarrow> ((setobj \<times> setobj) + (setobj \<times> set_iter \<times> setobj)) option" where
  "dup_ht_step env = (\<lambda>(ob, si, set').
     do { (ob, si, e) \<leftarrow> setTypeNext ob si;
          (case e of
             None \<Rightarrow> Some (Inl (setTypeReleaseIterator ob si, set'))
           | Some (EStr s) \<Rightarrow> do { (set', _) \<leftarrow> setTypeAdd env set' s; Some (Inr (ob, si, set')) }
           | Some (EInt _) \<Rightarrow> None) })"

definition setTypeDup :: "server_env \<Rightarrow> setobj \<Rightarrow> (setobj \<times> setobj) option" where
  "setTypeDup env ob =
     (case ob of
        SET_INTSET is \<Rightarrow> Some (ob, SET_INTSET is)
      | SET_LISTPACK lp \<Rightarrow>
          do { bs \<leftarrow> mem_read lp 0 (lpBytes lp); Some (ob, SET_LISTPACK bs) }
      | SET_HT d \<Rightarrow>
          c_loop (dup_ht_step env) (ob, setTypeInitIterator ob, SET_HT (fst (dictExpand dictCreate (dictSize d)))))"

end
