(* ===== verification/Set_Type_Props.thy ===== *)
theory Set_Type_Props
  imports Set_Type
begin

text \<open>
  Correctness of the set type: each of the three encodings of a set object represents a list of distinct
  strings, iterators return it, the conversions keep it, and adding, removing and testing implement a
  mathematical set. The contract of \<open>Set_Interface\<close> is interpreted on the operations of \<open>t_set.c\<close>.
\<close>

text \<open>The strings a set holds, in the order of its iterator, and the invariant of a set object.\<close>

fun set_list :: "server_env \<Rightarrow> setobj \<Rightarrow> bytes list \<Rightarrow> bool" where
  "set_list env (SET_INTSET is) L \<longleftrightarrow>
     intset_inv is \<and> is_length is \<le> intsetMaxEntries env \<and> L = map ll_repr (intset_elems is)"
| "set_list env (SET_LISTPACK lp) L \<longleftrightarrow>
     (\<exists>ds. lp_rep lp ds \<and> lp_size ds \<le> 2 ^ 30 + 64 \<and> L = map (\<lambda>d. val_bytes (entry_val d)) ds) \<and> distinct L"
| "set_list env (SET_HT d) L \<longleftrightarrow>
     dict_ok (setDictType (env_seed env)) d \<and> dictSize d \<le> 2 ^ 60 \<and> L = map fst (dict_entries d)"

lemma set_list_unique: "set_list env s L \<Longrightarrow> set_list env s M \<Longrightarrow> L = M"
  by (cases s) (auto dest: lp_rep_unique)

lemma intset_elems_int64: "intset_inv is \<Longrightarrow> x \<in> set (intset_elems is) \<Longrightarrow> is_int64 x"
  using intset_inv_rep [of "is"] by (auto simp: intset_rep_def fits_def is_int64_def)

lemma distinct_keys_set: "distinct_keys (setDictType seed) es \<longleftrightarrow> distinct (map fst es)"
  by (induction es) (auto simp: distinct_keys_def setDictType_def)

lemma intset_list_distinct:
  assumes "intset_inv is"
  shows "distinct (map ll_repr (intset_elems is))"
proof -
  have "sorted_wrt (<) (intset_elems is)" using intset_inv_rep [OF assms] by (auto simp: intset_rep_def)
  then have "distinct (intset_elems is)" by (simp add: strict_sorted_iff)
  moreover have "inj_on ll_repr (set (intset_elems is))"
    using intset_elems_int64 [OF assms] ll_repr_inj by (auto intro!: inj_onI)
  ultimately show ?thesis by (simp add: distinct_map)
qed

lemma set_list_distinct: "set_list env s L \<Longrightarrow> distinct L"
proof (cases s)
  case (SET_INTSET "is")
  assume "set_list env s L"
  then show ?thesis using SET_INTSET intset_list_distinct by auto
next
  case (SET_HT d)
  assume "set_list env s L"
  then show ?thesis using SET_HT by (simp add: dict_ok_def distinct_keys_set)
qed auto

lemma dict_keys_dom: "dom (dict_map (setDictType seed) d) = fst ` set (dict_entries d)"
proof -
  have "k \<in> dom (dict_map (setDictType seed) d) \<longleftrightarrow> k \<in> fst ` set (dict_entries d)" for k
    using dict_lookup_None [of "setDictType seed" "dict_entries d" k]
    by (auto simp: dict_map_def setDictType_def dom_def image_iff)
  then show ?thesis by blast
qed

section \<open>Iterators\<close>

text \<open>An iterator over the set \<open>s0\<close>, now in the state \<open>s\<close>, that still has to return \<open>rest\<close>.\<close>

fun iter_at :: "server_env \<Rightarrow> setobj \<Rightarrow> setobj \<Rightarrow> set_iter \<Rightarrow> bytes list \<Rightarrow> bool" where
  "iter_at env (SET_INTSET is) s (ITER_INTSET i) rest \<longleftrightarrow>
     s = SET_INTSET is \<and> intset_inv is \<and> rest = map ll_repr (drop i (intset_elems is))"
| "iter_at env (SET_LISTPACK lp) s (ITER_LISTPACK p) rest \<longleftrightarrow>
     s = SET_LISTPACK lp \<and>
     (\<exists>ds k. lp_rep lp ds \<and> k \<le> length ds \<and> p = (if k = 0 then None else Some (lp_off ds (k - 1)))
        \<and> rest = map (\<lambda>d. val_bytes (entry_val d)) (drop k ds))"
| "iter_at env (SET_HT d) s (ITER_HT it) rest \<longleftrightarrow>
     s = SET_HT (iter_paused d it) \<and> dict_ok (setDictType (env_seed env)) d \<and> iter_ok d it
     \<and> (iter_started it \<or> iter_chain it = []) \<and> rest = map fst (iter_rest d it)"
| "iter_at env _ s _ rest = False"

lemma iter_at_init:
  assumes "set_list env s L"
  shows "iter_at env s s (setTypeInitIterator s) L"
proof (cases s)
  case (SET_HT d)
  then have ok: "dict_ok (setDictType (env_seed env)) d" and L: "L = map fst (dict_entries d)" using assms by auto
  have "iter_rest d dictInitIterator = dict_entries d"
    using ok by (auto simp: iter_rest_def dictInitIterator_def dict_entries_def dict_ok_def dict_struct_def dictIsRehashing_def)
  then show ?thesis using SET_HT ok L
    by (auto simp: setTypeInitIterator_def iter_ok_def dictInitIterator_def iter_paused_def iter_started_def)
qed (use assms in \<open>auto simp: setTypeInitIterator_def intro!: exI [of _ 0]\<close>)

text \<open>What the next call returns: the head of what is left, or the end with the set restored.\<close>

definition next_spec :: "server_env \<Rightarrow> setobj \<Rightarrow> bytes list \<Rightarrow> (setobj \<times> set_iter \<times> elem option) option \<Rightarrow> bool" where
  "next_spec env s0 rest r \<longleftrightarrow>
     (case rest of
        [] \<Rightarrow> \<exists>s si. r = Some (s, si, None) \<and> setTypeReleaseIterator s si = s0
      | x # xs \<Rightarrow> \<exists>s si e. r = Some (s, si, Some e) \<and> elem_str e = x \<and> elem_ok e
          \<and> iter_at env s0 s si xs \<and> (\<forall>d. s0 = SET_HT d \<longrightarrow> e = EStr x))"

lemma next_intset:
  assumes "iter_at env (SET_INTSET is) s (ITER_INTSET i) rest"
  shows "next_spec env (SET_INTSET is) rest (setTypeNext s (ITER_INTSET i))"
proof -
  have i: "intset_inv is" "s = SET_INTSET is" "rest = map ll_repr (drop i (intset_elems is))" using assms by auto
  note rep = intset_inv_rep [OF i(1)]
  show ?thesis
  proof (cases "i < is_length is")
    case True
    then have "i_intsetGet is (int i) = Some (intset_elems is ! i)" using intsetGet_rep [of "is" "intset_elems is" i] rep by simp
    then have "setTypeNext s (ITER_INTSET i) = Some (s, ITER_INTSET (Suc i), Some (EInt (intset_elems is ! i)))"
      using True i by (simp add: setTypeNext_def intsetGet_def)
    moreover have "rest = ll_repr (intset_elems is ! i) # map ll_repr (drop (Suc i) (intset_elems is))"
      using True rep i(3) by (simp flip: Cons_nth_drop_Suc)
    ultimately show ?thesis using i rep True intset_elems_int64 [OF i(1), of "intset_elems is ! i"]
      by (simp add: next_spec_def elem_str_def elem_ok_def)
  next
    case False
    then show ?thesis using i rep
      by (simp add: next_spec_def setTypeNext_def intsetGet_def setTypeReleaseIterator_def)
  qed
qed

lemma next_listpack:
  assumes "iter_at env (SET_LISTPACK lp) s (ITER_LISTPACK p) rest"
  shows "next_spec env (SET_LISTPACK lp) rest (setTypeNext s (ITER_LISTPACK p))"
proof -
  obtain ds k where d: "s = SET_LISTPACK lp" "lp_rep lp ds" "k \<le> length ds"
    "p = (if k = 0 then None else Some (lp_off ds (k - 1)))" "rest = map (\<lambda>d. val_bytes (entry_val d)) (drop k ds)"
    using assms by auto
  have nx: "(case p of None \<Rightarrow> lpFirst lp | Some p \<Rightarrow> lpNext lp p) = Some (lp_ptr ds k)"
    using d lpFirst_rep [OF d(2)] lpNext_off [OF d(2), of "k - 1"] by auto
  show ?thesis
  proof (cases "k < length ds")
    case True
    obtain v where v: "lpGetWithSize lp (lp_off ds k) = Some (v, Some (length (lp_entry (ds ! k))))"
      "case v of LP_Str q n \<Rightarrow> q + n \<le> lp_off ds (Suc k) \<and> (\<exists>s. mem_read lp q n = Some s \<and> length s = n \<and> entry_val (ds ! k) = VStr s)
       | LP_Int x \<Rightarrow> entry_val (ds ! k) = VInt x"
      using getWithSize_off [OF d(2) True] by blast
    then obtain e where e: "lp_value_elem lp v = Some e" "elem_str e = val_bytes (entry_val (ds ! k))" "elem_ok e"
      using entry_val_int64 [of "ds ! k"] lp_rep_header(5) [OF d(2)] True
      by (cases v) (auto simp: lp_value_elem_def elem_str_def elem_ok_def val_bytes_def)
    have "setTypeNext s (ITER_LISTPACK p) = Some (s, ITER_LISTPACK (Some (lp_off ds k)), Some e)"
      using nx d(1) True v(1) e(1) by (simp add: setTypeNext_def lp_ptr_def lpGetValue_def)
    moreover have "rest = val_bytes (entry_val (ds ! k)) # map (\<lambda>d. val_bytes (entry_val d)) (drop (Suc k) ds)"
      using True d(5) by (simp flip: Cons_nth_drop_Suc)
    ultimately show ?thesis using d e True
      by (auto simp: next_spec_def intro!: exI [of _ ds] exI [of _ "Suc k"])
  next
    case False
    then show ?thesis using d nx
      by (simp add: next_spec_def setTypeNext_def lp_ptr_def setTypeReleaseIterator_def)
  qed
qed

lemma next_ht:
  assumes "iter_at env (SET_HT d) s (ITER_HT it) rest"
  shows "next_spec env (SET_HT d) rest (setTypeNext s (ITER_HT it))"
proof -
  have h: "s = SET_HT (iter_paused d it)" "dict_ok (setDictType (env_seed env)) d" "iter_ok d it"
    "iter_started it \<or> iter_chain it = []" "rest = map fst (iter_rest d it)" using assms by auto
  obtain it' where it': "iter_started it'"
    "if iter_rest d it = [] then dictNext (iter_paused d it) it = Some (iter_paused d it', it', None)
     else dictNext (iter_paused d it) it = Some (iter_paused d it', it', Some (hd (iter_rest d it)))
            \<and> iter_ok d it' \<and> iter_rest d it' = tl (iter_rest d it)"
    using dictNext_ok [of "setDictType (env_seed env)" d it] h by (auto simp: dict_ok_def)
  show ?thesis
  proof (cases "iter_rest d it")
    case Nil
    then show ?thesis using h it'
      by (auto simp: next_spec_def setTypeNext_def setTypeReleaseIterator_def dictResetIterator_def iter_paused_def
          iter_started_def)
  next
    case (Cons x xs)
    then show ?thesis using h it'
      by (auto simp: next_spec_def setTypeNext_def elem_str_def elem_ok_def)
  qed
qed

lemma setTypeNext_ok: "iter_at env s0 s si rest \<Longrightarrow> next_spec env s0 rest (setTypeNext s si)"
  using next_intset next_listpack next_ht by (cases s0; cases si) auto

lemma setTypeNextObject_ok:
  assumes "iter_at env s0 s si rest"
  shows "case rest of [] \<Rightarrow> \<exists>s' si'. setTypeNextObject env s si = Some (s', si', None)
    | x # xs \<Rightarrow> \<exists>s' si'. setTypeNextObject env s si = Some (s', si', Some x) \<and> iter_at env s0 s' si' xs"
  using setTypeNext_ok [OF assms] elem_bytes_ok [of _ env]
  by (fastforce simp: next_spec_def setTypeNextObject_def split: list.splits)

section \<open>The set contract of each encoding\<close>

definition set_ok :: "server_env \<Rightarrow> setobj \<Rightarrow> bool" where
  "set_ok env s \<longleftrightarrow> (\<exists>L. set_list env s L)"

definition set_elems :: "server_env \<Rightarrow> setobj \<Rightarrow> bytes set" where
  "set_elems env s = {x. \<exists>L. set_list env s L \<and> x \<in> set L}"

lemma set_list_elems: "set_list env s L \<Longrightarrow> set_elems env s = set L"
  using set_list_unique by (auto simp: set_elems_def)

lemma set_ht_elems:
  assumes "dict_ok (setDictType (env_seed env)) d"
    and "dictSize d \<le> 2 ^ 60"
  shows "set_ok env (SET_HT d)" "set_elems env (SET_HT d) = dom (dict_map (setDictType (env_seed env)) d)"
    "card (set_elems env (SET_HT d)) = dictSize d"
proof -
  have l: "set_list env (SET_HT d) (map fst (dict_entries d))" using assms by simp
  then show "set_ok env (SET_HT d)" unfolding set_ok_def by blast
  show e: "set_elems env (SET_HT d) = dom (dict_map (setDictType (env_seed env)) d)"
    using set_list_elems [OF l] by (simp add: dict_keys_dom)
  show "card (set_elems env (SET_HT d)) = dictSize d"
    using set_list_elems [OF l] distinct_card [OF set_list_distinct [OF l]] dict_struct_dictSize [of "setDictType (env_seed env)" d] assms
    by (simp add: dict_ok_def)
qed

lemma set_compare [simp]: "keyCompare (setDictType seed) a b \<longleftrightarrow> a = b"
  by (simp add: setDictType_def)

lemma dom_upd_by [simp]: "dom (upd_by (keyCompare (setDictType seed)) m k v) = insert k (dom m)"
  by (auto simp: upd_by_def split: if_splits)

lemma dom_del_by [simp]: "dom (del_by (keyCompare (setDictType seed)) m k) = dom m - {k}"
  by (auto simp: del_by_def split: if_splits)

text \<open>Hash tables.\<close>

lemma set_ok_ht: "set_ok env (SET_HT d) \<longleftrightarrow> dict_ok (setDictType (env_seed env)) d \<and> dictSize d \<le> 2 ^ 60"
  by (auto simp: set_ok_def)

lemma set_dictAdd:
  assumes "set_ok env (SET_HT d)" "x \<notin> set_elems env (SET_HT d)" "card (set_elems env (SET_HT d)) < 2 ^ 60"
  shows "\<exists>d'. dictAdd (setDictType (env_seed env)) (env_can_resize env) () d x () = Some (d', True)
    \<and> set_ok env (SET_HT d') \<and> set_elems env (SET_HT d') = insert x (set_elems env (SET_HT d))"
proof -
  have ok: "dict_ok (setDictType (env_seed env)) d" "dictSize d \<le> 2 ^ 60" using assms(1) by (simp_all add: set_ok_ht)
  note el = set_ht_elems [OF ok]
  have n: "dict_map (setDictType (env_seed env)) d x = None" "dictSize d < 2 ^ 60"
    using assms(2,3) el by (auto simp: domIff)
  obtain d' where d': "dictAdd (setDictType (env_seed env)) (env_can_resize env) () d x () = Some (d', True)"
    "dict_ok (setDictType (env_seed env)) d'" "dictSize d' \<le> dictSize d + 1"
    "dict_map (setDictType (env_seed env)) d' = key_upd (setDictType (env_seed env)) (dict_map (setDictType (env_seed env)) d) x ()"
    using sds_set.dictAdd_ok [OF ok(1) n(2), of "env_can_resize env" "()" x "()"] n(1) by auto
  then have "dictSize d' \<le> 2 ^ 60" using n(2) by simp
  then show ?thesis using el(2) set_ht_elems(2) [OF d'(2)] d' by (simp add: set_ok_ht)
qed

lemma ht_add:
  assumes "set_ok env (SET_HT d)" "card (set_elems env (SET_HT d)) < 2 ^ 60" "elem_ok e"
  shows "\<exists>d'. setTypeAddAux env (SET_HT d) e = Some (SET_HT d', elem_str e \<notin> set_elems env (SET_HT d))
    \<and> set_ok env (SET_HT d') \<and> set_elems env (SET_HT d') = insert (elem_str e) (set_elems env (SET_HT d))"
proof -
  let ?T = "setDictType (env_seed env)" let ?k = "elem_str e"
  have ok: "dict_ok ?T d" "dictSize d \<le> 2 ^ 60" using assms(1) by (simp_all add: set_ok_ht)
  note el = set_ht_elems [OF ok]
  have n: "dictSize d < 2 ^ 60" using el(3) assms(2) by simp
  obtain d1 p where d1: "dictFindPositionForInsert ?T (env_can_resize env) d ?k = Some (d1, p)" "rehash_keeps ?T d d1"
    "ht_size_exp0 d1 \<noteq> -1"
    "case dict_map ?T d ?k of
        Some v \<Rightarrow> \<exists>r. p = Inl (Some r) \<and> ref_ok d1 r \<and> keyCompare ?T ?k (fst (ref_entry d1 r)) \<and> v = snd (ref_entry d1 r)
      | None \<Rightarrow> let t = (if dictIsRehashing d1 then 1 else 0)
                in p = Inr (t, hashFunction ?T ?k mod DICTHT_SIZE (ht_size_exp d1 t))"
    using sds_set.dictFindPositionForInsert_ok [OF ok(1) n, of "env_can_resize env" ?k] by blast
  note ok1 = sds_set.keeps_ok [OF ok(1) d1(2)]
  have add: "setTypeAddAux env (SET_HT d) e = do { (ht, position) \<leftarrow> Some (d1, p);
      (case position of Inr p \<Rightarrow> do { (ht, _) \<leftarrow> dictInsertAtPosition ht ?k () p; Some (SET_HT ht, True) }
       | Inl _ \<Rightarrow> Some (SET_HT ht, False)) }"
    using d1(1) elem_bytes_ok [OF assms(3), of env] by (cases e) (simp_all add: setTypeAddAux_def)
  show ?thesis
  proof (cases "dict_map ?T d ?k")
    case None
    define t :: nat where "t = (if dictIsRehashing d1 then 1 else 0)"
    define i where "i = hashFunction ?T ?k mod DICTHT_SIZE (ht_size_exp d1 t)"
    obtain d2 where d2: "dictInsertAtPosition d1 ?k () (t, i) = Some (d2, (t, i, 0))" "dict_ok ?T d2"
      "dict_map ?T d2 = key_upd ?T (dict_map ?T d1) ?k ()" "dictSize d2 = dictSize d1 + 1"
      using sds_set.insert_ok [OF ok1(1) d1(3), of ?k "()"] ok1(2) None unfolding i_def t_def by auto
    have sz: "dictSize d2 \<le> 2 ^ 60" using d2(4) ok1(3) n by simp
    have "p = Inr (t, i)" using d1(4) None by (simp add: i_def t_def Let_def)
    then have "setTypeAddAux env (SET_HT d) e = Some (SET_HT d2, True)" using add d2(1) by simp
    then show ?thesis using d2 sz el(2) ok1(2) None set_ht_elems(2) [OF d2(2) sz] by (auto simp: set_ok_ht)
  next
    case (Some v)
    then have "setTypeAddAux env (SET_HT d) e = Some (SET_HT d1, False)" using d1(4) add by auto
    moreover have "elem_str e \<in> set_elems env (SET_HT d)" using el(2) Some by auto
    ultimately show ?thesis using ok1 el(2) ok(2) set_ht_elems(2) [OF ok1(1)] by (auto simp: set_ok_ht)
  qed
qed

lemma dictResize_keeps:
  assumes "dict_ok (setDictType seed) d" "dictSize d \<le> 2 ^ 60"
  shows "rehash_keeps (setDictType seed) d (fst (dictResize cr d))"
proof -
  have s: "dict_struct (setDictType seed) d" using assms(1) by (simp add: dict_ok_def)
  have "ht_used0 d \<le> dictSize d" by (simp add: dictSize_def)
  then show ?thesis using i_dictExpand_ok(1) [OF s] assms(2) s
    by (auto simp: dictResize_def dictExpand_def Let_def rehash_keeps_def)
qed

lemma ht_remove:
  assumes "set_ok env (SET_HT d)" "elem_ok e"
  shows "\<exists>d'. setTypeRemoveAux env (SET_HT d) e = Some (SET_HT d', elem_str e \<in> set_elems env (SET_HT d))
    \<and> set_ok env (SET_HT d') \<and> set_elems env (SET_HT d') = set_elems env (SET_HT d) - {elem_str e}"
proof -
  let ?T = "setDictType (env_seed env)" let ?k = "elem_str e"
  have ok: "dict_ok ?T d" "dictSize d \<le> 2 ^ 60" using assms(1) by (simp_all add: set_ok_ht)
  note el = set_ht_elems [OF ok]
  obtain d1 where d1: "dictDelete ?T (env_can_resize env) d ?k = Some (d1, dict_map ?T d ?k \<noteq> None)" "dict_ok ?T d1"
    "dict_map ?T d1 = key_del ?T (dict_map ?T d) ?k" "dictSize d1 \<le> dictSize d"
    using sds_set.dictDelete_ok [OF ok(1), of "env_can_resize env" ?k] by blast
  have sz1: "dictSize d1 \<le> 2 ^ 60" using d1(4) ok(2) by simp
  define d2 where "d2 = (if dict_map ?T d ?k \<noteq> None \<and> htNeedsResize d1 then fst (dictResize (env_can_resize env) d1) else d1)"
  have "rehash_keeps ?T d1 d2"
    using dictResize_keeps [OF d1(2) sz1, of "env_can_resize env"] d1(2) by (simp add: d2_def rehash_keeps_def dict_ok_def)
  note ok2 = sds_set.keeps_ok [OF d1(2) this]
  have sz2: "dictSize d2 \<le> 2 ^ 60" using ok2(3) sz1 by simp
  have "setTypeRemoveAux env (SET_HT d) e = Some (SET_HT d2, dict_map ?T d ?k \<noteq> None)"
    using d1(1) elem_bytes_ok [OF assms(2), of env] by (cases e) (simp_all add: setTypeRemoveAux_def d2_def)
  then show ?thesis using ok2(1,2) sz2 d1(3) el(2) set_ht_elems(2) [OF ok2(1) sz2] by (auto simp: set_ok_ht)
qed

lemma ht_member:
  assumes "set_ok env (SET_HT d)" "elem_ok e"
  shows "\<exists>d'. setTypeIsMemberAux env (SET_HT d) e = Some (SET_HT d', elem_str e \<in> set_elems env (SET_HT d))
    \<and> set_ok env (SET_HT d') \<and> set_elems env (SET_HT d') = set_elems env (SET_HT d)"
proof -
  let ?T = "setDictType (env_seed env)" let ?k = "elem_str e"
  have ok: "dict_ok ?T d" "dictSize d \<le> 2 ^ 60" using assms(1) by (simp_all add: set_ok_ht)
  note el = set_ht_elems [OF ok]
  obtain d1 r where d1: "dictFind ?T (env_can_resize env) d ?k = Some (d1, r)" "rehash_keeps ?T d d1"
    "case r of None \<Rightarrow> dict_map ?T d ?k = None
      | Some r \<Rightarrow> ref_ok d1 r \<and> keyCompare ?T ?k (fst (ref_entry d1 r)) \<and> dict_map ?T d ?k = Some (snd (ref_entry d1 r))"
    using sds_set.dictFind_ok [OF ok(1), of "env_can_resize env" ?k] by blast
  note ok1 = sds_set.keeps_ok [OF ok(1) d1(2)]
  have "setTypeIsMemberAux env (SET_HT d) e = Some (SET_HT d1, r \<noteq> None)"
    using d1(1) elem_bytes_ok [OF assms(2), of env] by (cases e) (simp_all add: setTypeIsMemberAux_def)
  moreover have "r \<noteq> None \<longleftrightarrow> ?k \<in> set_elems env (SET_HT d)" using d1(3) el(2) by (auto split: option.splits)
  ultimately show ?thesis using ok1 ok(2) el(2) set_ht_elems(2) [OF ok1(1)] by (auto simp: set_ok_ht)
qed

text \<open>Listpacks.\<close>

lemma set_list_listpack:
  assumes "lp_rep lp ds" "lp_size ds \<le> 2 ^ 30 + 64" "distinct (map (\<lambda>d. val_bytes (entry_val d)) ds)"
  shows "set_list env (SET_LISTPACK lp) (map (\<lambda>d. val_bytes (entry_val d)) ds)"
  using assms by auto

lemma set_ok_listpackE:
  assumes "set_ok env (SET_LISTPACK lp)"
  obtains ds where "lp_rep lp ds" "lp_size ds \<le> 2 ^ 30 + 64" "distinct (map (\<lambda>d. val_bytes (entry_val d)) ds)"
    "set_elems env (SET_LISTPACK lp) = (\<lambda>d. val_bytes (entry_val d)) ` set ds"
proof -
  obtain L where L: "set_list env (SET_LISTPACK lp) L" using assms by (auto simp: set_ok_def)
  then show thesis using set_list_elems [OF L] by (auto intro: that)
qed

lemma set_ok_listpackI:
  assumes "lp_rep lp ds" "lp_size ds \<le> 2 ^ 30 + 64" "distinct (map (\<lambda>d. val_bytes (entry_val d)) ds)"
  shows "set_ok env (SET_LISTPACK lp)" "set_elems env (SET_LISTPACK lp) = (\<lambda>d. val_bytes (entry_val d)) ` set ds"
proof -
  note l = set_list_listpack [OF assms, of env]
  show "set_ok env (SET_LISTPACK lp)" unfolding set_ok_def using l by (rule exI)
  show "set_elems env (SET_LISTPACK lp) = (\<lambda>d. val_bytes (entry_val d)) ` set ds" using set_list_elems [OF l] by simp
qed

lemma lp_find_elem_ok:
  assumes "lp_rep lp ds"
  shows "\<exists>r. lp_find_elem lp s = Some (map_option (lp_off ds) r) \<and>
    (case r of None \<Rightarrow> s \<notin> (\<lambda>d. val_bytes (entry_val d)) ` set ds
     | Some i \<Rightarrow> i < length ds \<and> val_bytes (entry_val (ds ! i)) = s)"
proof (cases "ds = []")
  case True
  then show ?thesis using lpFirst_rep [OF assms] by (simp add: lp_find_elem_def lp_ptr_def)
next
  case False
  then have "lp_find_elem lp s = Some (map_option (lp_off ds) (find_from (entry_matches s) 0 0 0 ds))"
    using lpFirst_rep [OF assms] lpFind_rep [OF assms, of 0 s 0] by (simp add: lp_find_elem_def lp_ptr_def)
  then show ?thesis using find_from_0 [where P = "entry_matches s" and k = 0 and xs = ds]
    by (intro exI [of _ "find_from (entry_matches s) 0 0 0 ds"])
      (cases "find_from (entry_matches s) 0 0 0 ds"; auto simp: entry_matches_def)
qed

lemma listpack_member:
  assumes "set_ok env (SET_LISTPACK lp)" "elem_ok e"
  shows "setTypeIsMemberAux env (SET_LISTPACK lp) e = Some (SET_LISTPACK lp, elem_str e \<in> set_elems env (SET_LISTPACK lp))"
proof -
  obtain ds where ds: "lp_rep lp ds" "set_elems env (SET_LISTPACK lp) = (\<lambda>d. val_bytes (entry_val d)) ` set ds"
    by (rule set_ok_listpackE [OF assms(1)])
  obtain r where r: "lp_find_elem lp (elem_str e) = Some (map_option (lp_off ds) r)"
    "case r of None \<Rightarrow> elem_str e \<notin> (\<lambda>d. val_bytes (entry_val d)) ` set ds
     | Some i \<Rightarrow> i < length ds \<and> val_bytes (entry_val (ds ! i)) = elem_str e"
    using lp_find_elem_ok [OF ds(1), of "elem_str e"] by (elim exE conjE)
  have "setTypeIsMemberAux env (SET_LISTPACK lp) e = Some (SET_LISTPACK lp, r \<noteq> None)"
    using r(1) elem_bytes_ok [OF assms(2), of env] by (cases e) (simp_all add: setTypeIsMemberAux_def)
  moreover have "r \<noteq> None \<longleftrightarrow> elem_str e \<in> (\<lambda>d. val_bytes (entry_val d)) ` set ds"
    using r(2) nth_image [of "the r" ds "\<lambda>d. val_bytes (entry_val d)"] by (cases r) simp_all
  ultimately show ?thesis using ds(2) by simp
qed

lemma remove_nth_image:
  assumes "distinct (map f xs)" "i < length xs"
  shows "f ` set (take i xs @ drop (Suc i) xs) = f ` set xs - {f (xs ! i)}"
    "distinct (map f (take i xs @ drop (Suc i) xs))"
proof -
  have "xs = take i xs @ xs ! i # drop (Suc i) xs" by (rule id_take_nth_drop [OF assms(2)])
  then have "map f xs = map f (take i xs) @ f (xs ! i) # map f (drop (Suc i) xs)" by (metis list.map(2) map_append)
  then have d: "distinct (map f (take i xs) @ f (xs ! i) # map f (drop (Suc i) xs))"
    and s: "f ` set xs = set (map f (take i xs) @ f (xs ! i) # map f (drop (Suc i) xs))"
    using assms(1) by (simp, metis set_map)
  show "f ` set (take i xs @ drop (Suc i) xs) = f ` set xs - {f (xs ! i)}" using d s by auto
  show "distinct (map f (take i xs @ drop (Suc i) xs))" using d by simp
qed

lemma listpack_remove:
  assumes "env_ok env" "set_ok env (SET_LISTPACK lp)" "elem_ok e"
  shows "\<exists>lp'. setTypeRemoveAux env (SET_LISTPACK lp) e = Some (SET_LISTPACK lp', elem_str e \<in> set_elems env (SET_LISTPACK lp))
    \<and> set_ok env (SET_LISTPACK lp') \<and> set_elems env (SET_LISTPACK lp') = set_elems env (SET_LISTPACK lp) - {elem_str e}"
proof -
  obtain ds where ds: "lp_rep lp ds" "lp_size ds \<le> 2 ^ 30 + 64" "distinct (map (\<lambda>d. val_bytes (entry_val d)) ds)"
    "set_elems env (SET_LISTPACK lp) = (\<lambda>d. val_bytes (entry_val d)) ` set ds"
    by (rule set_ok_listpackE [OF assms(2)])
  obtain r where r: "lp_find_elem lp (elem_str e) = Some (map_option (lp_off ds) r)"
    "case r of None \<Rightarrow> elem_str e \<notin> (\<lambda>d. val_bytes (entry_val d)) ` set ds
     | Some i \<Rightarrow> i < length ds \<and> val_bytes (entry_val (ds ! i)) = elem_str e"
    using lp_find_elem_ok [OF ds(1), of "elem_str e"] by (elim exE conjE)
  have rem: "setTypeRemoveAux env (SET_LISTPACK lp) e = (case map_option (lp_off ds) r of
      None \<Rightarrow> Some (SET_LISTPACK lp, False)
    | Some p \<Rightarrow> do { r \<leftarrow> lpDelete (env_alloc env) lp p; (lp, _) \<leftarrow> r; Some (SET_LISTPACK lp, True) })"
    using r(1) elem_bytes_ok [OF assms(3), of env] by (cases e) (simp_all add: setTypeRemoveAux_def)
  show ?thesis
  proof (cases r)
    case None
    then show ?thesis using rem r(2) ds(4) assms(2) by auto
  next
    case (Some i)
    then have i: "i < length ds" "val_bytes (entry_val (ds ! i)) = elem_str e" using r(2) by auto
    obtain lp' where lp': "lpDelete (env_alloc env) lp (lp_off ds i) = Some (Some (lp', lp_ptr (take i ds @ drop (Suc i) ds) i))"
      "lp_rep lp' (take i ds @ drop (Suc i) ds)"
      using lpDelete_off [OF _ ds(1) i(1), of "env_alloc env"] assms(1) by (auto simp: env_ok_def)
    note new = remove_nth_image [OF ds(3) i(1)]
    note ok = set_ok_listpackI [OF lp'(2) le_trans [OF lp_size_delete [OF i(1)] ds(2)] new(2), of env]
    have "elem_str e \<in> set_elems env (SET_LISTPACK lp)" using i ds(4) nth_image [of i ds "\<lambda>d. val_bytes (entry_val d)"] by simp
    then show ?thesis using rem Some lp'(1) ok new(1) ds(4) i(2) by simp
  qed
qed

section \<open>Conversions\<close>

lemma copy_lp_loop:
  assumes "env_ok env" "iter_at env s0 s si rest" "lp_rep lp ds" "list_all (\<lambda>x. length x + 5 < 2 ^ 32) rest"
    "lp_size (ds @ map lp_encode rest) < 2 ^ 32"
  shows "\<exists>lp'. c_loop (copy_lp_step env) (s, si, lp) = Some lp' \<and> lp_rep lp' (ds @ map lp_encode rest)"
  using assms(2-)
proof (induction rest arbitrary: s si lp ds)
  case Nil
  then obtain s' si' where "setTypeNext s si = Some (s', si', None)"
    using setTypeNext_ok [OF Nil.prems(1)] by (auto simp: next_spec_def)
  then have "copy_lp_step env (s, si, lp) = Some (Inl lp)" by (simp add: copy_lp_step_def)
  then show ?case using Nil.prems by (simp add: c_loop_step)
next
  case (Cons x xs)
  obtain s' si' e where e: "setTypeNext s si = Some (s', si', Some e)" "elem_str e = x" "elem_ok e" "iter_at env s0 s' si' xs"
    using setTypeNext_ok [OF Cons.prems(1)] by (auto simp: next_spec_def)
  have "lp_size (ds @ [lp_encode x]) \<le> lp_size (ds @ map lp_encode (x # xs))" by (simp add: lp_size_def)
  then have "lp_size (ds @ [lp_encode x]) < 2 ^ 32" using Cons.prems(4) by simp
  then obtain lp' where lp': "lp_append_elem env lp e = Some (Some lp')" "lp_rep lp' (ds @ [lp_encode x])"
    using lp_append_elem_ok [OF assms(1) Cons.prems(2) e(3)] e(2) Cons.prems(3) by auto
  then have "copy_lp_step env (s, si, lp) = Some (Inr (s', si', lp'))" using e(1) by (simp add: copy_lp_step_def)
  then show ?case using Cons.IH [OF e(4) lp'(2)] Cons.prems(3,4) by (simp add: c_loop_step)
qed

lemma copy_ht_loop:
  assumes "iter_at env s0 s si rest" "set_ok env (SET_HT d)" "distinct rest" "set rest \<inter> set_elems env (SET_HT d) = {}"
    "card (set_elems env (SET_HT d)) + length rest \<le> 2 ^ 60"
  shows "\<exists>d'. c_loop (copy_ht_step env) (s, si, d) = Some d' \<and> set_ok env (SET_HT d')
    \<and> set_elems env (SET_HT d') = set rest \<union> set_elems env (SET_HT d)"
  using assms
proof (induction rest arbitrary: s si d)
  case Nil
  then obtain s' si' where "setTypeNextObject env s si = Some (s', si', None)"
    using setTypeNextObject_ok [OF Nil.prems(1)] by auto
  then have "copy_ht_step env (s, si, d) = Some (Inl d)" by (simp add: copy_ht_step_def)
  then show ?case using Nil.prems by (simp add: c_loop_step)
next
  case (Cons x xs)
  obtain s' si' where e: "setTypeNextObject env s si = Some (s', si', Some x)" "iter_at env s0 s' si' xs"
    using setTypeNextObject_ok [OF Cons.prems(1)] by auto
  obtain d' where d': "dictAdd (setDictType (env_seed env)) (env_can_resize env) () d x () = Some (d', True)"
    "set_ok env (SET_HT d')" "set_elems env (SET_HT d') = insert x (set_elems env (SET_HT d))"
    using set_dictAdd [OF Cons.prems(2), of x] Cons.prems(4,5) by auto
  have "finite (set_elems env (SET_HT d))"
    using Cons.prems(2) set_list_elems unfolding set_ok_def by (metis List.finite_set)
  then have "card (set_elems env (SET_HT d')) + length xs \<le> 2 ^ 60"
    using d'(3) Cons.prems(5) by (simp add: card_insert_if)
  moreover have "copy_ht_step env (s, si, d) = Some (Inr (s', si', d'))"
    using e(1) d'(1) by (simp add: copy_ht_step_def c_assert_def)
  ultimately show ?case using Cons.IH [OF e(2) d'(2)] Cons.prems(3,4) d'(3) by (auto simp: c_loop_step)
qed

lemma dictExpand_new:
  assumes "cap \<le> 2 ^ 60"
  shows "set_ok env (SET_HT (fst (dictExpand dictCreate cap)))" "set_elems env (SET_HT (fst (dictExpand dictCreate cap))) = {}"
proof -
  have ok: "dict_ok (setDictType (env_seed env)) (dictCreate :: (bytes, unit) dict)" by simp
  then have "rehash_keeps (setDictType (env_seed env)) dictCreate (fst (dictExpand dictCreate cap) :: (bytes, unit) dict)"
    unfolding dictExpand_def using assms by (intro i_dictExpand_ok(1)) (simp_all add: dict_ok_def)
  note k = sds_set.keeps_ok [OF ok this]
  then show "set_ok env (SET_HT (fst (dictExpand dictCreate cap)))" by (simp add: set_ok_ht)
  show "set_elems env (SET_HT (fst (dictExpand dictCreate cap))) = {}"
    using set_ht_elems(2) [OF k(1)] k(2,3) by simp
qed

lemma convert_ht:
  assumes "iter_at env s s (setTypeInitIterator s) L" "distinct L" "\<And>d. s \<noteq> SET_HT d" "length L \<le> 2 ^ 60" "cap \<le> 2 ^ 60"
  shows "\<exists>d. setTypeConvertAndExpand env s ENC_HT cap = Some (SET_HT d) \<and> set_ok env (SET_HT d)
    \<and> set_elems env (SET_HT d) = set L"
proof -
  note new = dictExpand_new [OF assms(5), of env]
  obtain d where "c_loop (copy_ht_step env) (s, setTypeInitIterator s, fst (dictExpand dictCreate cap)) = Some d"
      "set_ok env (SET_HT d)" "set_elems env (SET_HT d) = set L"
    using copy_ht_loop [OF assms(1) new(1) assms(2)] new(2) assms(4) by auto
  then show ?thesis using assms(3)
    by (cases s) (auto simp: setTypeConvertAndExpand_def c_assert_def)
qed

lemma map_encode_str:
  assumes "list_all (\<lambda>x. length x + 5 < 2 ^ 32) L"
  shows "map (\<lambda>d. val_bytes (entry_val d)) (map lp_encode L) = L"
  using assms lp_encode_wf by (induction L) auto

lemma set_list_encoded:
  assumes "lp_rep lp (map lp_encode L)" "lp_size (map lp_encode L) \<le> 2 ^ 30 + 64"
    "list_all (\<lambda>x. length x + 5 < 2 ^ 32) L" "distinct L"
  shows "set_list env (SET_LISTPACK lp) L"
  using set_list_listpack [OF assms(1,2), of env] unfolding map_encode_str [OF assms(3)] using assms(4) by blast

lemma convert_listpack:
  assumes "env_ok env" "set_list env s L" "\<And>lp. s \<noteq> SET_LISTPACK lp" "lp_estcap s cap = Some est"
    "list_all (\<lambda>x. length x + 5 < 2 ^ 32) L" "lp_size (map lp_encode L) < 2 ^ 32"
  shows "\<exists>lp. setTypeConvertAndExpand env s ENC_LISTPACK cap = Some (SET_LISTPACK lp) \<and> lp_rep lp (map lp_encode L)"
proof -
  have "lp_rep (lpNew (env_alloc env) est) []" using lpNew_rep assms(1) by (auto simp: env_ok_def)
  then obtain lp where "c_loop (copy_lp_step env) (s, setTypeInitIterator s, lpNew (env_alloc env) est) = Some lp"
      "lp_rep lp (map lp_encode L)"
    using copy_lp_loop [OF assms(1) iter_at_init [OF assms(2)], of _ "[]"] assms(5,6) by auto
  then show ?thesis using assms(3,4) by (cases s) (auto simp: setTypeConvertAndExpand_def c_assert_def)
qed

section \<open>Additions to a listpack\<close>

lemma listpack_add_new_ok:
  assumes "env_ok env" "lp_rep lp ds" "lp_size ds \<le> 2 ^ 30 + 64" "distinct (map (\<lambda>d. val_bytes (entry_val d)) ds)"
    "elem_ok e" "elem_str e \<notin> (\<lambda>d. val_bytes (entry_val d)) ` set ds"
  shows "\<exists>s. listpack_add_new env lp e (elem_str e) = Some s \<and> set_ok env s
    \<and> set_elems env s = insert (elem_str e) ((\<lambda>d. val_bytes (entry_val d)) ` set ds)"
proof -
  let ?s = "elem_str e"
  obtain lp1 where lp1: "lpLength lp = Some (lp1, length ds)" "lp_rep lp1 ds" using lpLength_rep [OF assms(2)] by blast
  obtain lp2 where lp2: "lpLength lp1 = Some (lp2, length ds)" "lp_rep lp2 ds" using lpLength_rep [OF lp1(2)] by blast
  have n: "length ds < 2 ^ 31" by (rule lp_rep_length [OF assms(2)])
  show ?thesis
  proof (cases "length ds < set_max_listpack_entries env \<and> length ?s \<le> set_max_listpack_value env \<and> lpSafeToAdd (Some lp1) (length ?s)")
    case True
    then have fit: "lp_size ds + length ?s \<le> 2 ^ 30"
      using lp_rep_header(1) [OF lp1(2)] by (simp add: lpSafeToAdd_def)
    have sz: "lp_size (ds @ [lp_encode ?s]) \<le> lp_size ds + length ?s + 14"
      using length_lp_encode [of ?s] by (simp add: lp_size_def)
    have "7 \<le> lp_size ds" by (simp add: lp_size_def)
    then have len: "length ?s + 5 < 2 ^ 32" using fit by simp
    obtain lp' where lp': "lp_append_elem env lp1 e = Some (Some lp')" "lp_rep lp' (ds @ [lp_encode ?s])"
      using lp_append_elem_ok [OF assms(1) lp1(2) assms(5) len] sz fit by auto
    have "set_ok env (SET_LISTPACK lp') \<and> set_elems env (SET_LISTPACK lp') = (\<lambda>d. val_bytes (entry_val d)) ` set (ds @ [lp_encode ?s])"
      using set_ok_listpackI [OF lp'(2), of env] sz fit assms(4,6) lp_encode_wf [OF len] by simp
    then show ?thesis using lp1 lp' True lp_encode_wf [OF len] by (simp add: listpack_add_new_def)
  next
    case False
    note l2 = set_list_listpack [OF lp2(2) assms(3,4), of env]
    obtain d where d: "setTypeConvertAndExpand env (SET_LISTPACK lp2) ENC_HT (length ds + 1) = Some (SET_HT d)"
      "set_ok env (SET_HT d)" "set_elems env (SET_HT d) = (\<lambda>d. val_bytes (entry_val d)) ` set ds"
      using convert_ht [OF iter_at_init [OF l2] set_list_distinct [OF l2], of "length ds + 1"] n by auto
    have "card (set_elems env (SET_HT d)) \<le> length ds" unfolding d(3) by (metis card_image_le card_length le_trans List.finite_set)
    then obtain d' where "dictAdd (setDictType (env_seed env)) (env_can_resize env) () d ?s () = Some (d', True)"
      "set_ok env (SET_HT d')" "set_elems env (SET_HT d') = insert ?s (set_elems env (SET_HT d))"
      using set_dictAdd [OF d(2), of ?s] assms(6) d(3) n by auto
    then show ?thesis using lp1 lp2 False d by (auto simp: listpack_add_new_def c_assert_def)
  qed
qed

lemma listpack_add:
  assumes "env_ok env" "set_ok env (SET_LISTPACK lp)" "elem_ok e"
  shows "\<exists>s. setTypeAddAux env (SET_LISTPACK lp) e = Some (s, elem_str e \<notin> set_elems env (SET_LISTPACK lp))
    \<and> set_ok env s \<and> set_elems env s = insert (elem_str e) (set_elems env (SET_LISTPACK lp))"
proof -
  obtain ds where ds: "lp_rep lp ds" "lp_size ds \<le> 2 ^ 30 + 64" "distinct (map (\<lambda>d. val_bytes (entry_val d)) ds)"
    "set_elems env (SET_LISTPACK lp) = (\<lambda>d. val_bytes (entry_val d)) ` set ds"
    by (rule set_ok_listpackE [OF assms(2)])
  obtain r where r: "lp_find_elem lp (elem_str e) = Some (map_option (lp_off ds) r)"
    "case r of None \<Rightarrow> elem_str e \<notin> (\<lambda>d. val_bytes (entry_val d)) ` set ds
     | Some i \<Rightarrow> i < length ds \<and> val_bytes (entry_val (ds ! i)) = elem_str e"
    using lp_find_elem_ok [OF ds(1), of "elem_str e"] by (elim exE conjE)
  have add: "setTypeAddAux env (SET_LISTPACK lp) e = (case map_option (lp_off ds) r of
      None \<Rightarrow> do { set' \<leftarrow> listpack_add_new env lp e (elem_str e); Some (set', True) }
    | Some _ \<Rightarrow> Some (SET_LISTPACK lp, False))"
    using r(1) elem_bytes_ok [OF assms(3), of env] by (cases e; cases r) (simp_all add: setTypeAddAux_def)
  show ?thesis
  proof (cases r)
    case None
    then have new: "elem_str e \<notin> (\<lambda>d. val_bytes (entry_val d)) ` set ds" using r(2) by simp
    then show ?thesis using listpack_add_new_ok [OF assms(1) ds(1-3) assms(3) new] add None ds(4) by auto
  next
    case (Some i)
    then have "elem_str e \<in> set_elems env (SET_LISTPACK lp)"
      using r(2) ds(4) nth_image [of i ds "\<lambda>d. val_bytes (entry_val d)"] by simp
    then show ?thesis using add Some assms(2) by (simp add: insert_absorb)
  qed
qed

section \<open>Integer sets\<close>

lemma set_ok_intset:
  "set_ok env (SET_INTSET is) \<longleftrightarrow> intset_inv is \<and> is_length is \<le> intsetMaxEntries env"
  by (auto simp: set_ok_def)

lemma set_elems_intset:
  assumes "intset_inv is" "is_length is \<le> intsetMaxEntries env"
  shows "set_elems env (SET_INTSET is) = ll_repr ` set (intset_elems is)"
  using set_list_elems [of env "SET_INTSET is" "map ll_repr (intset_elems is)"] assms by simp

lemma intset_limit: "env_ok env \<Longrightarrow> intsetMaxEntries env + 1 < 2 ^ 29"
  by (simp add: env_ok_def intsetMaxEntries_def)

text \<open>Converting an intset that has grown past the limit.\<close>

lemma maybeConvertIntset_ok:
  assumes "env_ok env" "intset_inv is"
  shows "\<exists>s. maybeConvertIntset env (SET_INTSET is) = Some s \<and> set_ok env s
    \<and> set_elems env s = ll_repr ` set (intset_elems is)"
proof (cases "is_length is \<le> intsetMaxEntries env")
  case True
  then show ?thesis using assms set_elems_intset [OF assms(2) True] by (simp add: maybeConvertIntset_def intsetLen_def set_ok_intset)
next
  case False
  have n: "is_length is < 2 ^ 29" using assms(2) by (simp add: intset_inv_def)
  have it: "iter_at env (SET_INTSET is) (SET_INTSET is) (setTypeInitIterator (SET_INTSET is)) (map ll_repr (intset_elems is))"
    using assms(2) by (simp add: setTypeInitIterator_def)
  obtain d where "setTypeConvertAndExpand env (SET_INTSET is) ENC_HT (is_length is) = Some (SET_HT d)"
    "set_ok env (SET_HT d)" "set_elems env (SET_HT d) = ll_repr ` set (intset_elems is)"
    using convert_ht [OF it intset_list_distinct [OF assms(2)], of "is_length is"] intset_inv_rep [OF assms(2)] n by auto
  then show ?thesis using False
    by (simp add: maybeConvertIntset_def intsetLen_def setTypeConvert_def setTypeSize_def)
qed

lemma ll_repr_mem: "is_int64 v \<Longrightarrow> intset_inv is \<Longrightarrow> ll_repr v \<in> ll_repr ` set (intset_elems is) \<longleftrightarrow> v \<in> set (intset_elems is)"
  using intset_elems_int64 ll_repr_inj [of v] by auto

lemma intset_add_int:
  assumes "env_ok env" "set_ok env (SET_INTSET is)" "is_int64 v"
  shows "\<exists>is' s. intsetAdd (env_junk env) is v = Some (is', ll_repr v \<notin> set_elems env (SET_INTSET is))
    \<and> (if ll_repr v \<notin> set_elems env (SET_INTSET is) then maybeConvertIntset env (SET_INTSET is') = Some s else s = SET_INTSET is')
    \<and> set_ok env s \<and> set_elems env s = insert (ll_repr v) (set_elems env (SET_INTSET is))"
proof -
  have i: "intset_inv is" "is_length is \<le> intsetMaxEntries env" using assms(2) by (simp_all add: set_ok_intset)
  note el = set_elems_intset [OF i]
  obtain is' where is': "intsetAdd (env_junk env) is v = Some (is', v \<notin> set (intset_elems is))" "intset_inv is'"
    "set (intset_elems is') = insert v (set (intset_elems is))"
    using intsetAdd_inv [OF i(1) assms(3), of "env_junk env"] i(2) intset_limit [OF assms(1)] by auto
  obtain s where s: "maybeConvertIntset env (SET_INTSET is') = Some s" "set_ok env s" "set_elems env s = ll_repr ` set (intset_elems is')"
    using maybeConvertIntset_ok [OF assms(1) is'(2)] by blast
  note mem = ll_repr_mem [OF assms(3) i(1)]
  show ?thesis
  proof (cases "v \<in> set (intset_elems is)")
    case False
    then show ?thesis using is' s el mem by auto
  next
    case True
    have eq: "intset_elems is' = intset_elems is"
    proof (rule sorted_distinct_set_unique)
      show "sorted (intset_elems is')" "distinct (intset_elems is')" "sorted (intset_elems is)" "distinct (intset_elems is)"
        using intset_inv_rep [OF is'(2)] intset_inv_rep [OF i(1)] by (auto simp: intset_rep_def strict_sorted_iff)
      show "set (intset_elems is') = set (intset_elems is)" using is'(3) True by auto
    qed
    then have "is_length is' = is_length is" using intset_inv_rep [OF is'(2)] intset_inv_rep [OF i(1)] by simp
    then have ok: "set_ok env (SET_INTSET is')" "set_elems env (SET_INTSET is') = set_elems env (SET_INTSET is)"
      using is'(2) i(2) set_elems_intset [of is' env] el eq by (simp_all add: set_ok_intset)
    then show ?thesis using is' el mem True by (auto simp: insert_absorb)
  qed
qed

text \<open>The entry of an integer in a listpack is no longer than that of the least or the greatest.\<close>

lemma length_lp_entry_small: "length d \<le> 127 \<Longrightarrow> length (lp_entry d) = length d + 1"
  by (simp add: lp_entry_def lpEncodeBacklen_def)

lemma length_encode_int:
  "length (lpEncodeIntegerGetType v) =
     (if v \<ge> 0 \<and> v \<le> 127 then 1 else if v \<ge> -4096 \<and> v \<le> 4095 then 2 else if v \<ge> -32768 \<and> v \<le> 32767 then 3
      else if v \<ge> -8388608 \<and> v \<le> 8388607 then 4 else if v \<ge> -2147483648 \<and> v \<le> 2147483647 then 5 else 9)"
  by (simp add: lpEncodeIntegerGetType_def Let_def)

lemma encode_between:
  assumes "lo \<le> v" "v \<le> hi"
  shows "length (lpEncodeIntegerGetType v) \<le> max (length (lpEncodeIntegerGetType lo)) (length (lpEncodeIntegerGetType hi))"
proof (cases "v < 0")
  case True
  then have "length (lpEncodeIntegerGetType v) \<le> length (lpEncodeIntegerGetType lo)"
    using assms(1) by (simp add: length_encode_int)
  then show ?thesis by simp
next
  case False
  then have "length (lpEncodeIntegerGetType v) \<le> length (lpEncodeIntegerGetType hi)"
    using assms(2) by (simp add: length_encode_int)
  then show ?thesis by simp
qed

lemma max_mult_bound: "7 + max a b * n \<le> max (7 + a * n) (7 + b * n)" for n :: nat
  by (cases "a \<le> b") (simp_all add: max.absorb1 max.absorb2)

lemma estimate_eq: "lpEstimateBytesRepeatedInteger v n = 7 + length (lp_entry (lpEncodeIntegerGetType v)) * n"
  by (simp add: lpEstimateBytesRepeatedInteger_def length_lp_entry Let_def)

lemma encode_ll_repr: "is_int64 v \<Longrightarrow> lp_encode (ll_repr v) = lpEncodeIntegerGetType v"
  using elem_encode [of "EInt v" v] by (simp add: elem_ok_def elem_str_def)

lemma intset_min_max:
  assumes "intset_inv is" "is_length is \<noteq> 0"
  shows "intsetMax is = Some (intset_elems is ! (is_length is - 1))" "intsetMin is = Some (intset_elems is ! 0)"
proof -
  have rep: "intset_rep is (intset_elems is)" "length (intset_elems is) = is_length is" using intset_inv_rep [OF assms(1)] by simp_all
  have "int (is_length is) - 1 = int (is_length is - 1)" using assms(2) by simp
  then show "intsetMax is = Some (intset_elems is ! (is_length is - 1))"
    using intsetGet_rep [OF rep(1), of "is_length is - 1"] rep(2) assms(2) by (simp add: intsetMax_def)
  show "intsetMin is = Some (intset_elems is ! 0)"
    using intsetGet_rep [OF rep(1), of 0] rep(2) assms(2) by (simp add: intsetMin_def)
qed

lemma intset_between:
  assumes "intset_inv is" "v \<in> set (intset_elems is)"
  shows "intset_elems is ! 0 \<le> v" "v \<le> intset_elems is ! (is_length is - 1)"
proof -
  have rep: "intset_rep is (intset_elems is)" "length (intset_elems is) = is_length is" using intset_inv_rep [OF assms(1)] by simp_all
  have so: "sorted (intset_elems is)" using rep(1) by (simp add: intset_rep_def strict_sorted_iff)
  obtain i where i: "i < is_length is" "v = intset_elems is ! i" using assms(2) rep(2) by (metis in_set_conv_nth)
  show "intset_elems is ! 0 \<le> v" using sorted_nth_mono [OF so, of 0 i] i rep(2) by simp
  show "v \<le> intset_elems is ! (is_length is - 1)" using sorted_nth_mono [OF so, of i "is_length is - 1"] i rep(2) by simp
qed

lemma length_int_entry: "length (lp_entry (lpEncodeIntegerGetType v)) = length (lpEncodeIntegerGetType v) + 1"
  using length_lpEncodeInteger [of v] by (simp add: length_lp_entry_small)

lemma intset_lp_size:
  assumes "intset_inv is"
  defines "lo \<equiv> intset_elems is ! 0" and "hi \<equiv> intset_elems is ! (is_length is - 1)"
  shows "lp_size (map lp_encode (map ll_repr (intset_elems is)))
    \<le> max (lpEstimateBytesRepeatedInteger hi (is_length is)) (lpEstimateBytesRepeatedInteger lo (is_length is))"
proof -
  let ?m = "max (length (lp_entry (lpEncodeIntegerGetType hi))) (length (lp_entry (lpEncodeIntegerGetType lo)))"
  have each: "length (lp_entry d) \<le> ?m" if d: "d \<in> set (map lp_encode (map ll_repr (intset_elems is)))" for d
  proof -
    obtain v where v: "v \<in> set (intset_elems is)" "d = lp_encode (ll_repr v)" using d by (auto simp only: set_map)
    have "length (lpEncodeIntegerGetType v) \<le> max (length (lpEncodeIntegerGetType lo)) (length (lpEncodeIntegerGetType hi))"
      unfolding lo_def hi_def by (intro encode_between intset_between assms(1) v(1))
    then have "length (lp_entry (lpEncodeIntegerGetType v)) \<le> ?m" unfolding length_int_entry by linarith
    then show ?thesis using encode_ll_repr [OF intset_elems_int64 [OF assms(1) v(1)]] v(2) by simp
  qed
  have "lp_size (map lp_encode (map ll_repr (intset_elems is))) \<le> 7 + ?m * length (map lp_encode (map ll_repr (intset_elems is)))"
    by (rule lp_size_bound [OF each])
  also have "\<dots> = 7 + ?m * is_length is" using intset_inv_rep [OF assms(1)] by simp
  also have "\<dots> \<le> max (lpEstimateBytesRepeatedInteger hi (is_length is)) (lpEstimateBytesRepeatedInteger lo (is_length is))"
    unfolding estimate_eq by (rule max_mult_bound)
  finally show ?thesis .
qed

lemma intset_lp_bounds_ok:
  assumes "intset_inv is"
  shows "\<exists>m t. intset_lp_bounds is = Some (m, t) \<and> lp_size (map lp_encode (map ll_repr (intset_elems is))) \<le> t + 7"
proof (cases "is_length is = 0")
  case True
  then have "intset_elems is = []" using intset_inv_rep [OF assms] by auto
  then show ?thesis using True by (simp add: intset_lp_bounds_def intsetLen_def lp_size_def)
next
  case False
  have "intset_lp_bounds is = Some (max (sdigits10 (intset_elems is ! (is_length is - 1))) (sdigits10 (intset_elems is ! 0)),
      max (lpEstimateBytesRepeatedInteger (intset_elems is ! (is_length is - 1)) (is_length is))
        (lpEstimateBytesRepeatedInteger (intset_elems is ! 0) (is_length is)))"
    using False by (simp add: intset_lp_bounds_def intsetLen_def Let_def intset_min_max [OF assms False])
  then show ?thesis using trans_le_add1 [OF intset_lp_size [OF assms]] by (intro exI conjI)
qed


lemma intset_add_string_ok:
  assumes "env_ok env" "set_ok env (SET_INTSET is)" "string2ll str = None"
  shows "\<exists>s. intset_add_string env is str = Some s \<and> set_ok env s
    \<and> set_elems env s = insert str (set_elems env (SET_INTSET is))"
proof -
  let ?L = "map ll_repr (intset_elems is)"
  have i: "intset_inv is" "is_length is \<le> intsetMaxEntries env" using assms(2) by (simp_all add: set_ok_intset)
  note el = set_elems_intset [OF i] and n = intset_limit [OF assms(1)] and rep = intset_inv_rep [OF i(1)]
  have l: "set_list env (SET_INTSET is) ?L" using i by simp
  have fresh: "str \<notin> set ?L" using string2ll_complete intset_elems_int64 [OF i(1)] assms(3) by force
  have short: "list_all (\<lambda>x. length x + 5 < 2 ^ 32) ?L"
    using length_ll_repr intset_elems_int64 [OF i(1)] by (fastforce simp: list_all_iff)
  obtain m t where b: "intset_lp_bounds is = Some (m, t)" "lp_size (map lp_encode ?L) \<le> t + 7"
    using intset_lp_bounds_ok [OF i(1)] by blast
  show ?thesis
  proof (cases "intsetLen is < set_max_listpack_entries env \<and> length str \<le> set_max_listpack_value env
      \<and> m \<le> set_max_listpack_value env \<and> lpSafeToAdd None (t + length str)")
    case True
    then have fit: "t + length str \<le> 2 ^ 30" by (simp add: lpSafeToAdd_def)
    have est: "\<exists>est. lp_estcap (SET_INTSET is) (intsetLen is + 1) = Some est"
      using intset_min_max [OF i(1)] by (auto simp: lp_estcap_def intsetLen_def)
    then obtain lp where lp: "setTypeConvertAndExpand env (SET_INTSET is) ENC_LISTPACK (intsetLen is + 1) = Some (SET_LISTPACK lp)"
      "lp_rep lp (map lp_encode ?L)"
      using convert_listpack [OF assms(1) l _ _ short] b(2) fit by auto
    have sz: "lp_size (map lp_encode ?L @ [lp_encode str]) \<le> 2 ^ 30 + 64"
      using length_lp_encode [of str] b(2) fit by (simp add: lp_size_def)
    have len: "length str + 5 < 2 ^ 32" using fit by simp
    obtain lp1 where lp1: "lp_append_elem env lp (EStr str) = Some (Some lp1)" "lp_rep lp1 (map lp_encode ?L @ [lp_encode str])"
      using lp_append_elem_ok [OF assms(1) lp(2), of "EStr str"] sz len by (auto simp: elem_ok_def elem_str_def)
    have lp2: "lp_rep (lpShrinkToFit (env_alloc env) lp1) (map lp_encode (?L @ [str]))"
      using lpShrinkToFit_rep [OF _ lp1(2)] assms(1) by (simp add: env_ok_def)
    have l2: "set_list env (SET_LISTPACK (lpShrinkToFit (env_alloc env) lp1)) (?L @ [str])"
      by (rule set_list_encoded [OF lp2]) (use sz short len intset_list_distinct [OF i(1)] fresh in simp_all)
    then have "set_ok env (SET_LISTPACK (lpShrinkToFit (env_alloc env) lp1))" unfolding set_ok_def by blast
    moreover have "set_elems env (SET_LISTPACK (lpShrinkToFit (env_alloc env) lp1)) = insert str (set ?L)"
      using set_list_elems [OF l2] by simp
    moreover have "intset_add_string env is str = Some (SET_LISTPACK (lpShrinkToFit (env_alloc env) lp1))"
      using True b(1) lp(1) lp1(1) by (simp add: intset_add_string_def lp_append_elem_def)
    ultimately show ?thesis using el by simp
  next
    case False
    have ln: "length ?L \<le> 2 ^ 60" "intsetLen is + 1 \<le> 2 ^ 60" using i(2) n rep by (simp_all add: intsetLen_def)
    obtain d where d: "setTypeConvertAndExpand env (SET_INTSET is) ENC_HT (intsetLen is + 1) = Some (SET_HT d)"
      "set_ok env (SET_HT d)" "set_elems env (SET_HT d) = set ?L"
      using convert_ht [OF iter_at_init [OF l] set_list_distinct [OF l] _ ln] by auto
    have "card (set ?L) < 2 ^ 60" using card_length [of ?L] i(2) n rep by simp
    then obtain d' where d': "dictAdd (setDictType (env_seed env)) (env_can_resize env) () d str () = Some (d', True)"
      "set_ok env (SET_HT d')" "set_elems env (SET_HT d') = insert str (set_elems env (SET_HT d))"
      using set_dictAdd [OF d(2), of str] fresh d(3) by auto
    then have "intset_add_string env is str = Some (SET_HT d')"
      using False b(1) d(1) by (auto simp: intset_add_string_def c_assert_def)
    then show ?thesis using d(3) d'(2,3) el by simp
  qed
qed

lemma elem_intset_cases:
  assumes "elem_ok e"
  obtains v where "is_int64 v" "elem_str e = ll_repr v" "string2ll (elem_str e) = Some v" "e = EInt v \<or> e = EStr (ll_repr v)"
  | str where "e = EStr str" "elem_str e = str" "string2ll str = None"
proof (cases e)
  case (EStr s)
  show thesis
  proof (cases "string2ll s")
    case None
    then show thesis using that(2) [of s] EStr by (simp add: elem_str_def)
  next
    case (Some v)
    then show thesis using that(1) [of v] string2ll_sound [of s v] EStr by (simp add: elem_str_def)
  qed
next
  case (EInt v)
  then show thesis using that(1) [of v] assms string2ll_complete [of v] by (simp add: elem_str_def elem_ok_def)
qed

lemma not_int_not_in_intset:
  assumes "set_ok env (SET_INTSET is)" "string2ll str = None"
  shows "str \<notin> set_elems env (SET_INTSET is)"
proof -
  have i: "intset_inv is" "is_length is \<le> intsetMaxEntries env" using assms(1) by (simp_all add: set_ok_intset)
  then show ?thesis using set_elems_intset [OF i] string2ll_complete intset_elems_int64 [OF i(1)] assms(2) by force
qed

lemma intset_add:
  assumes "env_ok env" "set_ok env (SET_INTSET is)" "elem_ok e"
  shows "\<exists>s. setTypeAddAux env (SET_INTSET is) e = Some (s, elem_str e \<notin> set_elems env (SET_INTSET is))
    \<and> set_ok env s \<and> set_elems env s = insert (elem_str e) (set_elems env (SET_INTSET is))"
  using assms(3)
proof (cases rule: elem_intset_cases)
  case (1 v)
  obtain is' s where a: "intsetAdd (env_junk env) is v = Some (is', ll_repr v \<notin> set_elems env (SET_INTSET is))"
    "if ll_repr v \<notin> set_elems env (SET_INTSET is) then maybeConvertIntset env (SET_INTSET is') = Some s else s = SET_INTSET is'"
    "set_ok env s" "set_elems env s = insert (ll_repr v) (set_elems env (SET_INTSET is))"
    using intset_add_int [OF assms(1,2) 1(1)] by blast
  have "setTypeAddAux env (SET_INTSET is) e = Some (s, ll_repr v \<notin> set_elems env (SET_INTSET is))"
    using 1 a(1,2) elem_bytes_ok [OF assms(3), of env]
    by (cases "ll_repr v \<in> set_elems env (SET_INTSET is)") (auto simp: setTypeAddAux_def)
  then show ?thesis using a(3,4) 1(2) by simp
next
  case (2 str)
  then show ?thesis using intset_add_string_ok [OF assms(1,2) 2(3)] not_int_not_in_intset [OF assms(2) 2(3)]
    by (auto simp: setTypeAddAux_def elem_bytes_def)
qed

lemma intset_remove:
  assumes "set_ok env (SET_INTSET is)" "elem_ok e"
  shows "\<exists>s. setTypeRemoveAux env (SET_INTSET is) e = Some (s, elem_str e \<in> set_elems env (SET_INTSET is))
    \<and> set_ok env s \<and> set_elems env s = set_elems env (SET_INTSET is) - {elem_str e}"
  using assms(2)
proof (cases rule: elem_intset_cases)
  case (1 v)
  have i: "intset_inv is" "is_length is \<le> intsetMaxEntries env" using assms(1) by (simp_all add: set_ok_intset)
  note el = set_elems_intset [OF i]
  obtain is' where is': "intsetRemove (env_junk env) is v = Some (is', v \<in> set (intset_elems is))" "intset_inv is'"
    "set (intset_elems is') = set (intset_elems is) - {v}" "is_length is' \<le> is_length is"
    using intsetRemove_inv [OF i(1) 1(1), of "env_junk env"] by blast
  have len: "is_length is' \<le> intsetMaxEntries env" using is'(4) i(2) by simp
  have "ll_repr ` (set (intset_elems is) - {v}) = ll_repr ` set (intset_elems is) - {ll_repr v}"
    using ll_repr_inj [OF _ 1(1)] intset_elems_int64 [OF i(1)] by auto
  then have "set_elems env (SET_INTSET is') = set_elems env (SET_INTSET is) - {ll_repr v}"
    using set_elems_intset [OF is'(2) len] el is'(3) by simp
  moreover have "setTypeRemoveAux env (SET_INTSET is) e = Some (SET_INTSET is', ll_repr v \<in> set_elems env (SET_INTSET is))"
    using 1 is'(1) elem_bytes_ok [OF assms(2), of env] ll_repr_mem [OF 1(1) i(1)] el by (auto simp: setTypeRemoveAux_def)
  ultimately show ?thesis using is'(2) len 1(2) by (auto simp: set_ok_intset)
next
  case (2 str)
  then show ?thesis using not_int_not_in_intset [OF assms(1) 2(3)] assms(1) by (auto simp: setTypeRemoveAux_def elem_bytes_def)
qed

lemma intset_member:
  assumes "set_ok env (SET_INTSET is)" "elem_ok e"
  shows "setTypeIsMemberAux env (SET_INTSET is) e = Some (SET_INTSET is, elem_str e \<in> set_elems env (SET_INTSET is))"
  using assms(2)
proof (cases rule: elem_intset_cases)
  case (1 v)
  have i: "intset_inv is" "is_length is \<le> intsetMaxEntries env" using assms(1) by (simp_all add: set_ok_intset)
  have "intsetFind is v = Some (ll_repr v \<in> set_elems env (SET_INTSET is))"
    using intsetFind_rep [of "is" "intset_elems is" v] intset_inv_rep [OF i(1)] 1(1) ll_repr_mem [OF 1(1) i(1)]
      set_elems_intset [OF i] by simp
  then show ?thesis using 1 elem_bytes_ok [OF assms(2), of env] by (auto simp: setTypeIsMemberAux_def)
next
  case (2 str)
  then show ?thesis using not_int_not_in_intset [OF assms(1) 2(3)] by (auto simp: setTypeIsMemberAux_def elem_bytes_def)
qed

section \<open>The set contract\<close>

lemma setTypeAdd_ok:
  assumes "env_ok env" "set_ok env s" "card (set_elems env s) < 2 ^ 60"
  shows "\<exists>s'. setTypeAdd env s v = Some (s', v \<notin> set_elems env s) \<and> set_ok env s'
    \<and> set_elems env s' = insert v (set_elems env s)"
proof -
  have e: "elem_ok (EStr v)" "elem_str (EStr v) = v" by (simp_all add: elem_ok_def elem_str_def)
  show ?thesis
    using intset_add [OF assms(1) _ e(1)] listpack_add [OF assms(1) _ e(1)] ht_add [OF _ _ e(1), of env] assms(2,3) e(2)
    unfolding setTypeAdd_def by (cases s) fastforce+
qed

lemma setTypeRemove_ok:
  assumes "env_ok env" "set_ok env s"
  shows "\<exists>s'. setTypeRemove env s v = Some (s', v \<in> set_elems env s) \<and> set_ok env s'
    \<and> set_elems env s' = set_elems env s - {v}"
proof -
  have e: "elem_ok (EStr v)" "elem_str (EStr v) = v" by (simp_all add: elem_ok_def elem_str_def)
  show ?thesis
    using intset_remove [OF _ e(1), of env] listpack_remove [OF assms(1) _ e(1)] ht_remove [OF _ e(1), of env] assms(2) e(2)
    unfolding setTypeRemove_def by (cases s) fastforce+
qed

lemma setTypeIsMember_ok:
  assumes "set_ok env s"
  shows "\<exists>s'. setTypeIsMember env s v = Some (s', v \<in> set_elems env s) \<and> set_ok env s' \<and> set_elems env s' = set_elems env s"
proof -
  have e: "elem_ok (EStr v)" "elem_str (EStr v) = v" by (simp_all add: elem_ok_def elem_str_def)
  show ?thesis
    using intset_member [OF _ e(1), of env] listpack_member [OF _ e(1), of env] ht_member [OF _ e(1), of env] assms e(2)
    unfolding setTypeIsMember_def by (cases s) fastforce+
qed

lemma finite_set_elems: "set_ok env s \<Longrightarrow> finite (set_elems env s)"
  using set_list_elems unfolding set_ok_def by (metis List.finite_set)

locale set_server =
  fixes env :: server_env
  assumes env_ok: "env_ok env"

sublocale set_server \<subseteq> st: set_adt "set_ok env" "set_elems env" "\<lambda>_. True" "\<lambda>s. card (set_elems env s)" "\<lambda>_. 1" "2 ^ 60"
  "SET_INTSET intsetNew" "setTypeAdd env" "setTypeRemove env" "\<lambda>s v. map_option snd (setTypeIsMember env s v)"
proof unfold_locales
  have "intset_inv intsetNew" using intset_set.emp_ok(1) .
  then show "set_ok env (SET_INTSET intsetNew)" "set_elems env (SET_INTSET intsetNew) = {}"
    using set_elems_intset [of intsetNew env] intset_set.emp_ok(2) by (simp_all add: set_ok_intset intsetNew_def)
next
  fix s v assume "set_ok env s"
  then show "map_option snd (setTypeIsMember env s v) = Some (v \<in> set_elems env s)" using setTypeIsMember_ok [of env s v] by auto
next
  fix s v assume s: "set_ok env s" "card (set_elems env s) + 1 < 2 ^ 60"
  then show "\<exists>s'. setTypeAdd env s v = Some (s', v \<notin> set_elems env s) \<and> set_ok env s'
      \<and> set_elems env s' = insert v (set_elems env s) \<and> card (set_elems env s') \<le> card (set_elems env s) + 1"
    using setTypeAdd_ok [OF env_ok, of s v] finite_set_elems [OF s(1)] by (auto simp: card_insert_if)
next
  fix s v assume s: "set_ok env s"
  then show "\<exists>s'. setTypeRemove env s v = Some (s', v \<in> set_elems env s) \<and> set_ok env s'
      \<and> set_elems env s' = set_elems env s - {v} \<and> card (set_elems env s') \<le> card (set_elems env s)"
    using setTypeRemove_ok [OF env_ok, of s v] finite_set_elems [OF s] by (auto intro!: card_mono)
qed

lemma ops_cost_le: "ops_cost (\<lambda>_. 1) ops \<le> length ops"
proof (induction ops)
  case (Cons op ops)
  then show ?case by (cases op) simp_all
qed simp

context set_server
begin

lemma set_ops_refine:
  assumes "set_ok env s" "card (set_elems env s) + length ops < 2 ^ 60"
  shows "\<exists>s' rs. run_set_ops (setTypeAdd env) (setTypeRemove env) s ops = Some (s', rs) \<and> set_ok env s'
    \<and> spec_set_ops (set_elems env s) ops = (set_elems env s', rs)"
  using st.run_ops_refines [OF assms(1), of ops] assms(2) ops_cost_le [of ops] by (auto simp: list_all_iff)

end

text \<open>The limits of the default configuration in \<open>config.c\<close>, with any hash seed and any allocator.\<close>

interpretation default_set: set_server "default_env seed cr slack j1 j2" for seed cr slack j1 j2
  by unfold_locales (rule default_env_ok)

section \<open>Size, copies, collapsing\<close>

lemma setTypeSize_ok:
  assumes "set_ok env s"
  shows "\<exists>s'. setTypeSize s = Some (s', card (set_elems env s)) \<and> set_ok env s' \<and> set_elems env s' = set_elems env s"
proof -
  obtain L where L: "set_list env s L" using assms by (auto simp: set_ok_def)
  have c: "card (set_elems env s) = length L" using set_list_elems [OF L] distinct_card [OF set_list_distinct [OF L]] by simp
  show ?thesis
  proof (cases s)
    case (SET_INTSET "is")
    then have "is_length is = length L" using L intset_inv_rep by auto
    then show ?thesis using SET_INTSET assms c by (simp add: setTypeSize_def intsetLen_def)
  next
    case (SET_LISTPACK lp)
    obtain ds where ds: "lp_rep lp ds" "lp_size ds \<le> 2 ^ 30 + 64" "L = map (\<lambda>d. val_bytes (entry_val d)) ds"
      using L SET_LISTPACK by auto
    obtain lp' where lp': "lpLength lp = Some (lp', length ds)" "lp_rep lp' ds" using lpLength_rep [OF ds(1)] by blast
    have l': "set_list env (SET_LISTPACK lp') L"
      using set_list_listpack [OF lp'(2) ds(2)] set_list_distinct [OF L] ds(3) by blast
    then have "set_ok env (SET_LISTPACK lp')" unfolding set_ok_def by (rule exI)
    then show ?thesis using lp' ds(3) c SET_LISTPACK set_list_elems [OF L] set_list_elems [OF l'] by (simp add: setTypeSize_def)
  next
    case (SET_HT d)
    then show ?thesis using assms set_ht_elems [of env d] by (simp add: setTypeSize_def set_ok_ht)
  qed
qed

lemma dup_ht_loop:
  assumes "iter_at env (SET_HT d0) s si rest" "set_ok env (SET_HT d)" "card (set_elems env (SET_HT d)) + length rest \<le> 2 ^ 60"
  shows "\<exists>d'. c_loop (dup_ht_step env) (s, si, SET_HT d) = Some (SET_HT d0, SET_HT d') \<and> set_ok env (SET_HT d')
    \<and> set_elems env (SET_HT d') = set rest \<union> set_elems env (SET_HT d)"
  using assms
proof (induction rest arbitrary: s si d)
  case Nil
  then obtain s' si' where "setTypeNext s si = Some (s', si', None)" "setTypeReleaseIterator s' si' = SET_HT d0"
    using setTypeNext_ok [OF Nil.prems(1)] by (auto simp: next_spec_def)
  then have "dup_ht_step env (s, si, SET_HT d) = Some (Inl (SET_HT d0, SET_HT d))" by (simp add: dup_ht_step_def)
  then show ?case using Nil.prems by (simp add: c_loop_step)
next
  case (Cons x xs)
  obtain s' si' where e: "setTypeNext s si = Some (s', si', Some (EStr x))" "iter_at env (SET_HT d0) s' si' xs"
    using setTypeNext_ok [OF Cons.prems(1)] by (auto simp: next_spec_def)
  obtain d' b where d': "setTypeAddAux env (SET_HT d) (EStr x) = Some (SET_HT d', b)"
    "set_ok env (SET_HT d')" "set_elems env (SET_HT d') = insert x (set_elems env (SET_HT d))"
    using ht_add [OF Cons.prems(2), of "EStr x"] Cons.prems(3) by (auto simp: elem_ok_def elem_str_def)
  have "card (set_elems env (SET_HT d')) + length xs \<le> 2 ^ 60"
    using d'(3) Cons.prems(3) finite_set_elems [OF Cons.prems(2)] by (simp add: card_insert_if)
  moreover have "dup_ht_step env (s, si, SET_HT d) = Some (Inr (s', si', SET_HT d'))"
    using e(1) d'(1) by (simp add: dup_ht_step_def setTypeAdd_def)
  ultimately show ?case using Cons.IH [OF e(2) d'(2)] d'(3) by (auto simp: c_loop_step)
qed

fun same_encoding :: "setobj \<Rightarrow> setobj \<Rightarrow> bool" where
  "same_encoding (SET_INTSET _) (SET_INTSET _) = True"
| "same_encoding (SET_LISTPACK _) (SET_LISTPACK _) = True"
| "same_encoding (SET_HT _) (SET_HT _) = True"
| "same_encoding _ _ = False"

lemma setTypeDup_ok:
  assumes "set_ok env s"
  shows "\<exists>s'. setTypeDup env s = Some (s, s') \<and> set_ok env s' \<and> set_elems env s' = set_elems env s \<and> same_encoding s s'"
proof (cases s)
  case (SET_INTSET "is")
  then show ?thesis using assms by (simp add: setTypeDup_def)
next
  case (SET_LISTPACK lp)
  obtain ds where ds: "lp_rep lp ds" "lp_size ds \<le> 2 ^ 30 + 64" "distinct (map (\<lambda>d. val_bytes (entry_val d)) ds)"
    "set_elems env (SET_LISTPACK lp) = (\<lambda>d. val_bytes (entry_val d)) ` set ds"
    by (rule set_ok_listpackE [OF assms [unfolded SET_LISTPACK]])
  note t = lp_rep_take [OF ds(1)]
  show ?thesis using t set_ok_listpackI [OF conjunct2 [OF t] ds(2,3), of env] ds(4) SET_LISTPACK by (simp add: setTypeDup_def)
next
  case (SET_HT d)
  then have d: "dict_ok (setDictType (env_seed env)) d" "dictSize d \<le> 2 ^ 60" using assms by (simp_all add: set_ok_ht)
  have l: "set_list env (SET_HT d) (map fst (dict_entries d))" using d by simp
  note new = dictExpand_new [OF d(2), of env]
  have "length (map fst (dict_entries d)) \<le> 2 ^ 60"
    using dict_struct_dictSize [of "setDictType (env_seed env)" d] d by (simp add: dict_ok_def)
  then show ?thesis
    using dup_ht_loop [OF iter_at_init [OF l] new(1)] new(2) set_list_elems [OF l] SET_HT by (auto simp: setTypeDup_def)
qed

lemma to_intset_loop:
  assumes "iter_at env s0 s si (map ll_repr vs)" "intset_inv is" "\<And>v. v \<in> set vs \<Longrightarrow> is_int64 v"
    "distinct vs" "set vs \<inter> set (intset_elems is) = {}" "is_length is + length vs < 2 ^ 29"
  shows "\<exists>is'. c_loop (to_intset_step env) (s, si, is) = Some is' \<and> intset_inv is'
    \<and> set (intset_elems is') = set vs \<union> set (intset_elems is) \<and> is_length is' \<le> is_length is + length vs"
  using assms
proof (induction vs arbitrary: s si "is")
  case Nil
  then obtain s' si' where "setTypeNext s si = Some (s', si', None)"
    using setTypeNext_ok [OF Nil.prems(1)] by (auto simp: next_spec_def)
  then have "to_intset_step env (s, si, is) = Some (Inl is)" by (simp add: to_intset_step_def)
  then show ?case using Nil.prems by (simp add: c_loop_step)
next
  case (Cons v vs)
  have v: "is_int64 v" using Cons.prems(3) by simp
  obtain s' si' e where e: "setTypeNext s si = Some (s', si', Some e)" "elem_str e = ll_repr v" "elem_ok e"
    "iter_at env s0 s' si' (map ll_repr vs)"
    using setTypeNext_ok [OF Cons.prems(1)] by (auto simp: next_spec_def)
  have val: "(case e of EStr s \<Rightarrow> string2ll s | EInt v \<Rightarrow> Some v) = Some v"
    using e(2,3) string2ll_complete [OF v] ll_repr_inj [OF _ v] by (cases e) (auto simp: elem_str_def elem_ok_def)
  obtain is' where is': "intsetAdd (env_junk env) is v = Some (is', True)" "intset_inv is'"
    "set (intset_elems is') = insert v (set (intset_elems is))" "is_length is' \<le> is_length is + 1"
    using intsetAdd_inv [OF Cons.prems(2) v, of "env_junk env"] Cons.prems(5,6) by auto
  have "to_intset_step env (s, si, is) = Some (Inr (s', si', is'))"
    using e(1) val is'(1) by (simp add: to_intset_step_def c_assert_def)
  moreover have "\<exists>is''. c_loop (to_intset_step env) (s', si', is') = Some is'' \<and> intset_inv is''
    \<and> set (intset_elems is'') = set vs \<union> set (intset_elems is') \<and> is_length is'' \<le> is_length is' + length vs"
    using Cons.IH [OF e(4) is'(2)] Cons.prems(3-6) is'(3,4) by auto
  ultimately show ?case using is'(3,4) by (auto simp: c_loop_step)
qed


lemma maybeConvertToIntset_ok:
  assumes "env_ok env" "set_ok env s" "card (set_elems env s) \<le> intsetMaxEntries env" "\<And>x. x \<in> set_elems env s \<Longrightarrow> string2ll x \<noteq> None"
  shows "\<exists>is. maybeConvertToIntset env s = Some (SET_INTSET is) \<and> set_ok env (SET_INTSET is)
    \<and> set_elems env (SET_INTSET is) = set_elems env s"
proof (cases "\<exists>is. s = SET_INTSET is")
  case True
  then show ?thesis using assms(2) by (auto simp: maybeConvertToIntset_def)
next
  case False
  obtain s' where s': "setTypeSize s = Some (s', card (set_elems env s))" "set_ok env s'" "set_elems env s' = set_elems env s"
    using setTypeSize_ok [OF assms(2)] by blast
  obtain L where L: "set_list env s' L" using s'(2) by (auto simp: set_ok_def)
  note el = set_list_elems [OF L]
  define vs where "vs = map (\<lambda>x. the (string2ll x)) L"
  have rt: "ll_repr (the (string2ll x)) = x \<and> is_int64 (the (string2ll x))" if "x \<in> set L" for x
    using assms(4) [of x] string2ll_sound [of x] that el s'(3) by auto
  have L2: "map ll_repr vs = L" unfolding vs_def using rt by (simp add: map_idI)
  have d: "distinct vs" using set_list_distinct [OF L] unfolding L2 [symmetric] by (simp add: distinct_map)
  have len: "length vs \<le> intsetMaxEntries env"
    using assms(3) distinct_card [OF set_list_distinct [OF L]] el s'(3) by (simp add: vs_def)
  have e: "intset_inv intsetNew" "set (intset_elems intsetNew) = {}" "is_length intsetNew = 0"
    using intset_set.emp_ok by (simp_all add: intsetNew_def)
  have v64: "is_int64 v" if "v \<in> set vs" for v using that rt by (auto simp: vs_def)
  obtain ns where ns: "c_loop (to_intset_step env) (s', setTypeInitIterator s', intsetNew) = Some ns" "intset_inv ns"
    "set (intset_elems ns) = set vs" "is_length ns \<le> length vs"
    using to_intset_loop [OF iter_at_init [OF L, folded L2] e(1) v64 d] e(2,3) len intset_limit [OF assms(1)] by auto
  have "set_elems env (SET_INTSET ns) = ll_repr ` set vs" using set_elems_intset [OF ns(2), of env] ns(3,4) len by simp
  also have "\<dots> = set L" using L2 by (metis set_map)
  finally have "set_elems env (SET_INTSET ns) = set_elems env s" using el s'(3) by simp
  moreover have "maybeConvertToIntset env s = Some (SET_INTSET ns)"
    using False s'(1) ns(1) assms(3) by (cases s) (simp_all add: maybeConvertToIntset_def)
  ultimately show ?thesis using ns(2,4) len by (simp add: set_ok_intset)
qed

section \<open>Properties\<close>



text \<open>
  \<^bold>\<open>C35\<close> (equivalence). The size of a set is the number of its elements in every encoding, and no conversion changes
  what a set holds: converting to a hash table, copying with \<open>setTypeDup\<close> (which keeps the encoding and
  restores the iterated source), and collapsing a small set of integers into an intset.
\<close>

theorem set_type_conversions:
  assumes "env_ok env" "set_ok env s" "card (set_elems env s) < 2 ^ 60"
  shows "(\<exists>s'. setTypeSize s = Some (s', card (set_elems env s)) \<and> set_elems env s' = set_elems env s)
    \<and> (\<exists>s'. setTypeDup env s = Some (s, s') \<and> set_ok env s' \<and> set_elems env s' = set_elems env s \<and> same_encoding s s')
    \<and> ((\<forall>d. s \<noteq> SET_HT d) \<longrightarrow>
         (\<exists>d. setTypeConvert env s ENC_HT = Some (SET_HT d) \<and> set_ok env (SET_HT d) \<and> set_elems env (SET_HT d) = set_elems env s))
    \<and> (card (set_elems env s) \<le> intsetMaxEntries env \<longrightarrow> (\<forall>x\<in>set_elems env s. string2ll x \<noteq> None) \<longrightarrow>
         (\<exists>is. maybeConvertToIntset env s = Some (SET_INTSET is) \<and> set_ok env (SET_INTSET is)
            \<and> set_elems env (SET_INTSET is) = set_elems env s))"
proof (intro conjI impI)
  obtain s' where s': "setTypeSize s = Some (s', card (set_elems env s))" "set_ok env s'" "set_elems env s' = set_elems env s"
    using setTypeSize_ok [OF assms(2)] by blast
  then show "\<exists>s'. setTypeSize s = Some (s', card (set_elems env s)) \<and> set_elems env s' = set_elems env s" by blast
  show "\<exists>s'. setTypeDup env s = Some (s, s') \<and> set_ok env s' \<and> set_elems env s' = set_elems env s \<and> same_encoding s s'"
    by (rule setTypeDup_ok [OF assms(2)])
  obtain L where L: "set_list env s' L" using s'(2) by (auto simp: set_ok_def)
  have len: "length L \<le> 2 ^ 60" "card (set_elems env s) \<le> 2 ^ 60"
    using assms(3) distinct_card [OF set_list_distinct [OF L]] set_list_elems [OF L] s'(3) by simp_all
  assume n: "\<forall>d. s \<noteq> SET_HT d"
  then have n': "s' \<noteq> SET_HT d" for d using s'(1) by (cases s) (auto simp: setTypeSize_def)
  then show "\<exists>d. setTypeConvert env s ENC_HT = Some (SET_HT d) \<and> set_ok env (SET_HT d) \<and> set_elems env (SET_HT d) = set_elems env s"
    using convert_ht [OF iter_at_init [OF L] set_list_distinct [OF L] n' len] s' set_list_elems [OF L] by (simp add: setTypeConvert_def)
qed (use maybeConvertToIntset_ok [OF assms(1,2)] in auto)

theorem set_type_conversions_witness:
  "\<exists>is. maybeConvertToIntset ex_env (SET_LISTPACK [9, 0, 0, 0, 1, 0, 5, 1, 255]) = Some (SET_INTSET is)
     \<and> set_elems ex_env (SET_INTSET is) = {[53]}"
proof -
  have v: "val_bytes (entry_val [5]) = [53]"
    using lp_encode_wf [of "[53]"] by (simp add: lp_encode_def lpStringToInt64_eq string2ll_def lpEncodeIntegerGetType_def)
  note ok = set_ok_listpackI [OF lp_rep_example, of ex_env]
  have "set_ok ex_env (SET_LISTPACK [9, 0, 0, 0, 1, 0, 5, 1, 255])"
    "set_elems ex_env (SET_LISTPACK [9, 0, 0, 0, 1, 0, 5, 1, 255]) = {[53]}"
    using ok v by (simp_all add: lp_size_def lp_entry_def lpEncodeBacklen_def)
  moreover have "string2ll [53] \<noteq> None" by (simp add: string2ll_def)
  moreover have "card {[53 :: byte]} \<le> intsetMaxEntries ex_env" by (simp add: intsetMaxEntries_def default_env_def)
  ultimately show ?thesis
    using set_type_conversions [OF default_set.env_ok, of "replicate 16 0" DICT_RESIZE_ENABLE "\<lambda>_. 0" "\<lambda>_. 0" "\<lambda>_. 0"
        "SET_LISTPACK [9, 0, 0, 0, 1, 0, 5, 1, 255]"] by auto
qed

end
