(* ===== verification/Hash_Type.thy ===== *)
theory Hash_Type
  imports Server_Env
begin

text \<open>
  The hash type of \<open>t_hash.c\<close>: a listpack of alternating fields and values, or a hash table. Ownership flags
  of the strings passed in (\<open>HASH_SET_TAKE_FIELD\<close>, \<open>HASH_SET_TAKE_VALUE\<close>) only concern their memory.
\<close>

section \<open>Objects, lookup\<close>

datatype hashobj = HASH_LISTPACK bytes | HASH_HT "(bytes, bytes) dict"

definition createHashObject :: "server_env \<Rightarrow> hashobj" where
  "createHashObject env = HASH_LISTPACK (lpNew (env_alloc env) 0)"

definition hash_lp_find :: "bytes \<Rightarrow> bytes \<Rightarrow> nat option option" where
  "hash_lp_find zl field =
     do { fptr \<leftarrow> lpFirst zl;
          (case fptr of None \<Rightarrow> Some None | Some fptr \<Rightarrow> lpFind zl fptr field 1) }"

definition hashTypeGetFromListpack :: "bytes \<Rightarrow> bytes \<Rightarrow> elem option option" where
  "hashTypeGetFromListpack zl field =
     do { fptr \<leftarrow> hash_lp_find zl field;
          (case fptr of
             None \<Rightarrow> Some None
           | Some fptr \<Rightarrow>
               do { vptr \<leftarrow> lpNext zl fptr;
                    vptr \<leftarrow> vptr;
                    v \<leftarrow> lpGetValue zl vptr;
                    e \<leftarrow> lp_value_elem zl v;
                    Some (Some e) }) }"

definition hashTypeGetFromHashTable :: "server_env \<Rightarrow> (bytes, bytes) dict \<Rightarrow> bytes
    \<Rightarrow> ((bytes, bytes) dict \<times> bytes option) option" where
  "hashTypeGetFromHashTable env d field =
     do { (d, de) \<leftarrow> dictFind (hashDictType (env_seed env)) (env_can_resize env) d field;
          (case de of
             None \<Rightarrow> Some (d, None)
           | Some r \<Rightarrow> do { e \<leftarrow> get_entry d r; Some (d, Some (snd e)) }) }"

definition hashTypeGetValue :: "server_env \<Rightarrow> hashobj \<Rightarrow> bytes \<Rightarrow> (hashobj \<times> elem option) option" where
  "hashTypeGetValue env ob field =
     (case ob of
        HASH_LISTPACK zl \<Rightarrow> map_option (Pair ob) (hashTypeGetFromListpack zl field)
      | HASH_HT d \<Rightarrow>
          do { (d, v) \<leftarrow> hashTypeGetFromHashTable env d field;
               Some (HASH_HT d, map_option EStr v) })"

text \<open>\<open>createStringObjectFromLongLong\<close> gives an integer-encoded object: every \<open>long long\<close> is a \<open>long\<close>.\<close>

definition hashTypeGetValueObject :: "server_env \<Rightarrow> hashobj \<Rightarrow> bytes \<Rightarrow> (hashobj \<times> strobj option) option" where
  "hashTypeGetValueObject env ob field =
     do { (ob, v) \<leftarrow> hashTypeGetValue env ob field;
          Some (ob, map_option (\<lambda>e. case e of EStr s \<Rightarrow> OBJ_SDS s | EInt v \<Rightarrow> OBJ_INT (word_of_int v)) v) }"

definition hashTypeGetValueLength :: "server_env \<Rightarrow> hashobj \<Rightarrow> bytes \<Rightarrow> (hashobj \<times> nat) option" where
  "hashTypeGetValueLength env ob field =
     do { (ob, v) \<leftarrow> hashTypeGetValue env ob field;
          Some (ob, case v of None \<Rightarrow> 0 | Some (EStr s) \<Rightarrow> length s | Some (EInt v) \<Rightarrow> sdigits10 v) }"

definition hashTypeExists :: "server_env \<Rightarrow> hashobj \<Rightarrow> bytes \<Rightarrow> (hashobj \<times> bool) option" where
  "hashTypeExists env ob field =
     do { (ob, v) \<leftarrow> hashTypeGetValue env ob field; Some (ob, v \<noteq> None) }"

definition hashTypeLength :: "hashobj \<Rightarrow> (hashobj \<times> nat) option" where
  "hashTypeLength ob =
     (case ob of
        HASH_LISTPACK zl \<Rightarrow> map_option (\<lambda>(zl, n). (HASH_LISTPACK zl, n div 2)) (lpLength zl)
      | HASH_HT d \<Rightarrow> Some (ob, dictSize d))"

section \<open>Iterators\<close>

datatype hash_iter =
  HITER_LISTPACK "(nat \<times> nat) option"
| HITER_HT "(bytes, bytes) dictIterator" "(bytes \<times> bytes) option"

datatype hash_what = OBJ_HASH_KEY | OBJ_HASH_VALUE

definition hashTypeInitIterator :: "hashobj \<Rightarrow> hash_iter" where
  "hashTypeInitIterator subject =
     (case subject of
        HASH_LISTPACK _ \<Rightarrow> HITER_LISTPACK None
      | HASH_HT _ \<Rightarrow> HITER_HT dictInitIterator None)"

definition hashTypeReleaseIterator :: "hashobj \<Rightarrow> hash_iter \<Rightarrow> hashobj" where
  "hashTypeReleaseIterator subject hi =
     (case (subject, hi) of
        (HASH_HT d, HITER_HT di _) \<Rightarrow> HASH_HT (dictResetIterator d di)
      | _ \<Rightarrow> subject)"

text \<open>The flag is \<open>C_OK\<close>; \<open>fptr\<close> and \<open>vptr\<close> are both set or both \<open>NULL\<close>.\<close>

definition hashTypeNext :: "hashobj \<Rightarrow> hash_iter \<Rightarrow> (hashobj \<times> hash_iter \<times> bool) option" where
  "hashTypeNext subject hi =
     (case (subject, hi) of
        (HASH_LISTPACK zl, HITER_LISTPACK ptrs) \<Rightarrow>
          do { fptr \<leftarrow> (case ptrs of None \<Rightarrow> lpFirst zl | Some (_, vptr) \<Rightarrow> lpNext zl vptr);
               (case fptr of
                  None \<Rightarrow> Some (subject, hi, False)
                | Some fptr \<Rightarrow>
                    do { vptr \<leftarrow> lpNext zl fptr;
                         vptr \<leftarrow> vptr;
                         Some (subject, HITER_LISTPACK (Some (fptr, vptr)), True) }) }
      | (HASH_HT d, HITER_HT di _) \<Rightarrow>
          do { (d, di, de) \<leftarrow> dictNext d di;
               Some (HASH_HT d, HITER_HT di de, de \<noteq> None) }
      | _ \<Rightarrow> None)"

definition hashTypeCurrentFromListpack :: "bytes \<Rightarrow> nat \<times> nat \<Rightarrow> hash_what \<Rightarrow> elem option" where
  "hashTypeCurrentFromListpack zl ptrs what =
     do { v \<leftarrow> lpGetValue zl (case what of OBJ_HASH_KEY \<Rightarrow> fst ptrs | OBJ_HASH_VALUE \<Rightarrow> snd ptrs);
          lp_value_elem zl v }"

definition hashTypeCurrentFromHashTable :: "bytes \<times> bytes \<Rightarrow> hash_what \<Rightarrow> bytes" where
  "hashTypeCurrentFromHashTable de what =
     (case what of OBJ_HASH_KEY \<Rightarrow> fst de | OBJ_HASH_VALUE \<Rightarrow> snd de)"

definition hashTypeCurrentObject :: "hashobj \<Rightarrow> hash_iter \<Rightarrow> hash_what \<Rightarrow> elem option" where
  "hashTypeCurrentObject subject hi what =
     (case (subject, hi) of
        (HASH_LISTPACK zl, HITER_LISTPACK (Some ptrs)) \<Rightarrow> hashTypeCurrentFromListpack zl ptrs what
      | (HASH_HT _, HITER_HT _ (Some de)) \<Rightarrow> Some (EStr (hashTypeCurrentFromHashTable de what))
      | _ \<Rightarrow> None)"

definition hashTypeCurrentObjectNewSds :: "server_env \<Rightarrow> hashobj \<Rightarrow> hash_iter \<Rightarrow> hash_what \<Rightarrow> bytes option" where
  "hashTypeCurrentObjectNewSds env subject hi what =
     do { e \<leftarrow> hashTypeCurrentObject subject hi what; elem_bytes env e }"

section \<open>Conversion\<close>

definition hash_convert_step :: "server_env \<Rightarrow> hashobj \<times> hash_iter \<times> (bytes, bytes) dict
    \<Rightarrow> ((bytes, bytes) dict + (hashobj \<times> hash_iter \<times> (bytes, bytes) dict)) option" where
  "hash_convert_step env = (\<lambda>(ob, hi, d).
     do { (ob, hi, more) \<leftarrow> hashTypeNext ob hi;
          (if \<not> more then Some (Inl d)
           else
             do { key \<leftarrow> hashTypeCurrentObjectNewSds env ob hi OBJ_HASH_KEY;
                  value \<leftarrow> hashTypeCurrentObjectNewSds env ob hi OBJ_HASH_VALUE;
                  (d, ret) \<leftarrow> dictAdd (hashDictType (env_seed env)) (env_can_resize env) [] d key value;
                  c_assert ret;
                  Some (Inr (ob, hi, d)) }) })"

text \<open>Converting a listpack to a hash table; the other direction panics.\<close>

definition hashTypeConvertListpack :: "server_env \<Rightarrow> bytes \<Rightarrow> hashobj option" where
  "hashTypeConvertListpack env zl =
     do { (ob, n) \<leftarrow> hashTypeLength (HASH_LISTPACK zl);
          d \<leftarrow> c_loop (hash_convert_step env) (ob, hashTypeInitIterator ob, fst (dictExpand dictCreate n));
          Some (HASH_HT d) }"

definition hashTypeConvert :: "server_env \<Rightarrow> hashobj \<Rightarrow> hashobj option" where
  "hashTypeConvert env ob =
     (case ob of HASH_LISTPACK zl \<Rightarrow> hashTypeConvertListpack env zl | HASH_HT _ \<Rightarrow> None)"

text \<open>The sum of the lengths of the string arguments, or \<open>None\<close> when one is too long.\<close>

fun try_conversion_sum :: "server_env \<Rightarrow> nat \<Rightarrow> strobj list \<Rightarrow> nat option" where
  "try_conversion_sum env tot [] = Some tot"
| "try_conversion_sum env tot (OBJ_INT _ # argv) = try_conversion_sum env tot argv"
| "try_conversion_sum env tot (OBJ_SDS s # argv) =
     (if length s > hash_max_listpack_value env then None
      else try_conversion_sum env (tot + length s) argv)"

text \<open>The arguments are \<open>argv[start..end]\<close>.\<close>

definition hashTypeTryConversion :: "server_env \<Rightarrow> hashobj \<Rightarrow> strobj list \<Rightarrow> hashobj option" where
  "hashTypeTryConversion env ob argv =
     (case ob of
        HASH_HT _ \<Rightarrow> Some ob
      | HASH_LISTPACK zl \<Rightarrow>
          let new_fields = length argv div 2 in
          if new_fields > hash_max_listpack_entries env then
            do { ob \<leftarrow> hashTypeConvert env ob;
                 (case ob of HASH_HT d \<Rightarrow> Some (HASH_HT (fst (dictExpand d new_fields))) | _ \<Rightarrow> None) }
          else
            (case try_conversion_sum env 0 argv of
               None \<Rightarrow> hashTypeConvert env ob
             | Some tot \<Rightarrow> if \<not> lpSafeToAdd (Some zl) tot then hashTypeConvert env ob else Some ob))"

section \<open>Setting and deleting\<close>

definition hash_lp_set :: "server_env \<Rightarrow> bytes \<Rightarrow> bytes \<Rightarrow> bytes \<Rightarrow> (bytes \<times> bool) option" where
  "hash_lp_set env zl field value =
     do { fptr \<leftarrow> hash_lp_find zl field;
          (case fptr of
             Some fptr \<Rightarrow>
               do { vptr \<leftarrow> lpNext zl fptr;
                    vptr \<leftarrow> vptr;
                    r \<leftarrow> lpReplace (env_alloc env) zl vptr value;
                    (zl, _) \<leftarrow> r;
                    Some (zl, True) }
           | None \<Rightarrow>
               do { r \<leftarrow> lpAppend (env_alloc env) zl field;
                    zl \<leftarrow> r;
                    r \<leftarrow> lpAppend (env_alloc env) zl value;
                    zl \<leftarrow> r;
                    Some (zl, False) }) }"

definition hash_ht_set :: "server_env \<Rightarrow> (bytes, bytes) dict \<Rightarrow> bytes \<Rightarrow> bytes \<Rightarrow> ((bytes, bytes) dict \<times> bool) option" where
  "hash_ht_set env ht field v =
     do { (ht, r) \<leftarrow> dictAddRaw (hashDictType (env_seed env)) (env_can_resize env) ht field [];
          (case r of
             Inr de \<Rightarrow> do { ht \<leftarrow> dictSetVal ht de v; Some (ht, False) }
           | Inl (Some existing) \<Rightarrow> do { ht \<leftarrow> dictSetVal ht existing v; Some (ht, True) }
           | Inl None \<Rightarrow> None) }"

text \<open>The flag is \<open>update\<close>.\<close>

definition hashTypeSet :: "server_env \<Rightarrow> hashobj \<Rightarrow> bytes \<Rightarrow> bytes \<Rightarrow> (hashobj \<times> bool) option" where
  "hashTypeSet env ob field value =
     do { ob \<leftarrow> (case ob of
                   HASH_LISTPACK _ \<Rightarrow>
                     if length field > hash_max_listpack_value env \<or> length value > hash_max_listpack_value env
                     then hashTypeConvert env ob else Some ob
                 | HASH_HT _ \<Rightarrow> Some ob);
          (case ob of
             HASH_LISTPACK zl \<Rightarrow>
               do { (zl, update) \<leftarrow> hash_lp_set env zl field value;
                    (ob, n) \<leftarrow> hashTypeLength (HASH_LISTPACK zl);
                    ob \<leftarrow> (if n > hash_max_listpack_entries env then hashTypeConvert env ob else Some ob);
                    Some (ob, update) }
           | HASH_HT ht \<Rightarrow>
               do { (ht, update) \<leftarrow> hash_ht_set env ht field value; Some (HASH_HT ht, update) }) }"

definition hashTypeDelete :: "server_env \<Rightarrow> hashobj \<Rightarrow> bytes \<Rightarrow> (hashobj \<times> bool) option" where
  "hashTypeDelete env ob field =
     (case ob of
        HASH_LISTPACK zl \<Rightarrow>
          do { fptr \<leftarrow> hash_lp_find zl field;
               (case fptr of
                  None \<Rightarrow> Some (ob, False)
                | Some fptr \<Rightarrow>
                    do { (zl, _) \<leftarrow> lpDeleteRangeWithEntry (env_alloc env) zl fptr 2;
                         Some (HASH_LISTPACK zl, True) }) }
      | HASH_HT d \<Rightarrow>
          do { (d, deleted) \<leftarrow> dictDelete (hashDictType (env_seed env)) (env_can_resize env) d field;
               Some (HASH_HT (if deleted \<and> htNeedsResize d then fst (dictResize (env_can_resize env) d) else d),
                     deleted) })"

section \<open>Duplication\<close>

definition hash_dup_step :: "server_env \<Rightarrow> hashobj \<times> hash_iter \<times> (bytes, bytes) dict
    \<Rightarrow> ((hashobj \<times> hashobj) + (hashobj \<times> hash_iter \<times> (bytes, bytes) dict)) option" where
  "hash_dup_step env = (\<lambda>(ob, hi, d).
     do { (ob, hi, more) \<leftarrow> hashTypeNext ob hi;
          (if \<not> more then Some (Inl (hashTypeReleaseIterator ob hi, HASH_HT d))
           else
             (case hi of
                HITER_HT _ (Some de) \<Rightarrow>
                  do { (d, _) \<leftarrow> dictAdd (hashDictType (env_seed env)) (env_can_resize env) [] d
                         (hashTypeCurrentFromHashTable de OBJ_HASH_KEY)
                         (hashTypeCurrentFromHashTable de OBJ_HASH_VALUE);
                       Some (Inr (ob, hi, d)) }
              | _ \<Rightarrow> None)) })"

definition hashTypeDup :: "server_env \<Rightarrow> hashobj \<Rightarrow> (hashobj \<times> hashobj) option" where
  "hashTypeDup env ob =
     (case ob of
        HASH_LISTPACK zl \<Rightarrow> do { bs \<leftarrow> mem_read zl 0 (lpBytes zl); Some (ob, HASH_LISTPACK bs) }
      | HASH_HT d \<Rightarrow>
          c_loop (hash_dup_step env) (ob, hashTypeInitIterator ob, fst (dictExpand dictCreate (dictSize d))))"

end
