(* ===== verification/Hash_Type_Props.thy ===== *)
theory Hash_Type_Props
  imports Hash_Type Map_Interface
begin

text \<open>
  Correctness of the hash type: both encodings represent a finite map from fields to values, iterators return its
  pairs, conversion and copying keep it, and the operations implement the map contract of \<open>Map_Interface\<close>.
\<close>

section \<open>Lists of pairs\<close>

fun flat :: "('a \<times> 'a) list \<Rightarrow> 'a list" where
  "flat [] = []"
| "flat ((a, b) # ps) = a # b # flat ps"

fun unflat :: "'a list \<Rightarrow> ('a \<times> 'a) list" where
  "unflat (a # b # xs) = (a, b) # unflat xs"
| "unflat _ = []"

lemma unflat_flat [simp]: "unflat (flat ps) = ps"
  by (induction ps rule: flat.induct) auto

lemma length_flat [simp]: "length (flat ps) = 2 * length ps"
  by (induction ps rule: flat.induct) auto

lemma flat_append [simp]: "flat (ps @ qs) = flat ps @ flat qs"
  by (induction ps rule: flat.induct) auto

lemma flat_take: "flat (take i ps) = take (2 * i) (flat ps)"
proof (induction ps arbitrary: i rule: flat.induct)
  case (2 a b ps)
  then show ?case by (cases i) auto
qed simp

lemma flat_drop: "flat (drop i ps) = drop (2 * i) (flat ps)"
proof (induction ps arbitrary: i rule: flat.induct)
  case (2 a b ps)
  then show ?case by (cases i) auto
qed simp

lemma flat_nth: "i < length ps \<Longrightarrow> flat ps ! (2 * i) = fst (ps ! i) \<and> flat ps ! Suc (2 * i) = snd (ps ! i)"
proof (induction ps arbitrary: i rule: flat.induct)
  case (2 a b ps)
  then show ?case by (cases i) auto
qed simp

lemma flat_update: "i < length ps \<Longrightarrow> flat (ps[i := (fst (ps ! i), v)]) = (flat ps)[Suc (2 * i) := v]"
proof (induction ps arbitrary: i rule: flat.induct)
  case (2 a b ps)
  then show ?case by (cases i) auto
qed simp

text \<open>Association lists with distinct keys.\<close>

lemma map_of_append_new: "k \<notin> fst ` set ps \<Longrightarrow> map_of (ps @ [(k, v)]) = (map_of ps)(k \<mapsto> v)"
proof -
  assume "k \<notin> fst ` set ps"
  then have "map_of ps k = None" by (simp add: map_of_eq_None_iff)
  then show ?thesis by (auto simp: map_add_def fun_eq_iff split: option.split)
qed

lemma split_at_key:
  assumes "distinct (map fst ps)" "i < length ps"
  obtains as bs where "ps = as @ ps ! i # bs" "length as = i" "as = take i ps" "bs = drop (Suc i) ps"
    "fst (ps ! i) \<notin> fst ` set as" "fst (ps ! i) \<notin> fst ` set bs"
proof
  show eq: "ps = take i ps @ ps ! i # drop (Suc i) ps" by (rule id_take_nth_drop [OF assms(2)])
  show "length (take i ps) = i" using assms(2) by simp
  have "distinct (map fst (take i ps @ ps ! i # drop (Suc i) ps))" 
    using arg_cong [OF eq, of "\<lambda>xs. distinct (map fst xs)"] assms(1) by (rule iffD1)
  then show "fst (ps ! i) \<notin> fst ` set (take i ps)" "fst (ps ! i) \<notin> fst ` set (drop (Suc i) ps)" by (auto simp: image_iff)
qed simp_all

lemma map_of_update_key:
  assumes "distinct (map fst ps)" "i < length ps"
  shows "map_of (ps[i := (fst (ps ! i), v)]) = (map_of ps)(fst (ps ! i) \<mapsto> v)" "map fst (ps[i := (fst (ps ! i), v)]) = map fst ps"
    "map_of ps (fst (ps ! i)) = Some (snd (ps ! i))"
proof -
  obtain as bs where s: "ps = as @ ps ! i # bs" "length as = i" "fst (ps ! i) \<notin> fst ` set as"
    by (rule split_at_key [OF assms])
  obtain k w where kw: "ps ! i = (k, w)" by fastforce
  have ps: "ps = as @ (k, w) # bs" using s(1) kw by simp
  have u: "ps[i := (k, v)] = as @ (k, v) # bs" unfolding s(2) [symmetric] ps by (rule list_update_length)
  have n: "map_of as k = None" using s(3) kw by (simp add: map_of_eq_None_iff)
  show "map_of (ps[i := (fst (ps ! i), v)]) = (map_of ps)(fst (ps ! i) \<mapsto> v)"
    unfolding kw fst_conv u using n by (auto simp: ps map_add_def fun_eq_iff split: option.split)
  show "map fst (ps[i := (fst (ps ! i), v)]) = map fst ps" unfolding kw fst_conv u by (simp add: ps)
  show "map_of ps (fst (ps ! i)) = Some (snd (ps ! i))" unfolding kw fst_conv snd_conv
    using n by (simp add: ps map_add_def)
qed

lemma map_of_delete_key:
  assumes "distinct (map fst ps)" "i < length ps"
  shows "map_of (take i ps @ drop (Suc i) ps) = (map_of ps)(fst (ps ! i) := None)"
    "distinct (map fst (take i ps @ drop (Suc i) ps))"
proof -
  obtain as bs where s: "ps = as @ ps ! i # bs" "as = take i ps" "bs = drop (Suc i) ps"
    "fst (ps ! i) \<notin> fst ` set as" "fst (ps ! i) \<notin> fst ` set bs"
    by (rule split_at_key [OF assms])
  obtain k w where kw: "ps ! i = (k, w)" by fastforce
  have ps: "ps = as @ (k, w) # bs" using s(1) kw by simp
  have n: "map_of as k = None" "map_of bs k = None" using s(4,5) kw by (simp_all add: map_of_eq_None_iff)
  have "map_of (as @ bs) = (map_of ps)(k := None)"
    using n by (auto simp: ps map_add_def fun_eq_iff split: option.split)
  then show "map_of (take i ps @ drop (Suc i) ps) = (map_of ps)(fst (ps ! i) := None)" using s(2,3) kw by simp
  show "distinct (map fst (take i ps @ drop (Suc i) ps))" 
    using assms(1) unfolding s(2,3) [symmetric] by (subst (asm) ps) auto
qed

section \<open>The invariant and the map of a hash\<close>

definition hash_pairs :: "hashobj \<Rightarrow> (bytes \<times> bytes) list" where
  "hash_pairs ob = (case ob of HASH_LISTPACK lp \<Rightarrow> unflat (lp_strs lp) | HASH_HT d \<Rightarrow> dict_entries d)"

definition hash_map :: "hashobj \<Rightarrow> bytes \<Rightarrow> bytes option" where
  "hash_map ob = map_of (hash_pairs ob)"

text \<open>A listpack of field-value pairs.\<close>

definition hash_lp :: "server_env \<Rightarrow> bytes \<Rightarrow> bytes list \<Rightarrow> (bytes \<times> bytes) list \<Rightarrow> bool" where
  "hash_lp env lp ds ps \<longleftrightarrow> lp_rep lp ds \<and> map lp_str ds = flat ps \<and> distinct (map fst ps)
     \<and> (\<forall>d\<in>set ds. length (lp_entry d) \<le> hash_max_listpack_value env + 14)"

fun hash_ok :: "server_env \<Rightarrow> hashobj \<Rightarrow> bool" where
  "hash_ok env (HASH_LISTPACK lp) \<longleftrightarrow> (\<exists>ds ps. hash_lp env lp ds ps \<and> length ps \<le> hash_max_listpack_entries env)"
| "hash_ok env (HASH_HT d) \<longleftrightarrow> dict_ok (hashDictType (env_seed env)) d \<and> dictSize d \<le> 2 ^ 60"

lemma hash_lp_pairs: "hash_lp env lp ds ps \<Longrightarrow> hash_pairs (HASH_LISTPACK lp) = ps"
  using lp_strs_rep [of lp ds] by (simp add: hash_lp_def hash_pairs_def)

lemma hash_lp_length: "hash_lp env lp ds ps \<Longrightarrow> length ds = 2 * length ps"
  unfolding hash_lp_def by (metis length_flat length_map)

lemma hash_lp_nth:
  assumes "hash_lp env lp ds ps" "i < length ps"
  shows "lp_str (ds ! (2 * i)) = fst (ps ! i)" "lp_str (ds ! Suc (2 * i)) = snd (ps ! i)"
proof -
  have m: "map lp_str ds = flat ps" "length ds = 2 * length ps"
    using assms(1) hash_lp_length by (auto simp: hash_lp_def)
  have "lp_str (ds ! (2 * i)) = flat ps ! (2 * i)" "lp_str (ds ! Suc (2 * i)) = flat ps ! Suc (2 * i)"
    unfolding m(1) [symmetric] using m(2) assms(2) by simp_all
  then show "lp_str (ds ! (2 * i)) = fst (ps ! i)" "lp_str (ds ! Suc (2 * i)) = snd (ps ! i)"
    using flat_nth [OF assms(2)] by simp_all
qed

lemma hash_compare [simp]: "keyCompare (hashDictType seed) a b \<longleftrightarrow> a = b"
  by (simp add: hashDictType_def)

lemma hash_dict_lookup: "dict_lookup (hashDictType seed) es k = map_of es k"
  by (induction es) (auto simp: dict_lookup_def)

lemma hash_dict_map: "dict_map (hashDictType seed) d = map_of (dict_entries d)"
  by (simp add: dict_map_def fun_eq_iff hash_dict_lookup)

lemma hash_ht_map: "hash_map (HASH_HT d) = dict_map (hashDictType seed) d"
  by (simp add: hash_map_def hash_pairs_def hash_dict_map)

lemma hash_keys_upd: "upd_by (keyCompare (hashDictType seed)) m k v = m(k \<mapsto> v)"
  by (auto simp: upd_by_def fun_eq_iff)

lemma hash_keys_del: "del_by (keyCompare (hashDictType seed)) m k = m(k := None)"
  by (auto simp: del_by_def fun_eq_iff)

text \<open>The number of fields.\<close>

definition hash_size :: "hashobj \<Rightarrow> nat" where
  "hash_size ob = length (hash_pairs ob)"

lemma hash_ht_size: "dict_ok (hashDictType seed) d \<Longrightarrow> hash_size (HASH_HT d) = dictSize d"
  using dict_struct_dictSize [of "hashDictType seed" d] by (simp add: hash_size_def hash_pairs_def dict_ok_def)

section \<open>Finding a field\<close>

lemma find_from_pairs:
  "map f ds = flat ps \<Longrightarrow>
   (case find_from (\<lambda>d. f d = s) 1 0 k ds of
      None \<Rightarrow> s \<notin> fst ` set ps
    | Some j \<Rightarrow> \<exists>i < length ps. j = k + 2 * i \<and> fst (ps ! i) = s)"
proof (induction ps arbitrary: k ds rule: flat.induct)
  case (2 a b ps)
  then obtain x y ds' where ds: "ds = x # y # ds'" "f x = a" "f y = b" "map f ds' = flat ps"
    by (auto simp: map_eq_Cons_conv)
  show ?case
  proof (cases "a = s")
    case True
    then show ?thesis using ds by (simp add: exI [of _ 0])
  next
    case False
    have e: "find_from (\<lambda>d. f d = s) 1 0 k ds = find_from (\<lambda>d. f d = s) 1 0 (Suc (Suc k)) ds'"
      using ds(1,2) False by simp
    show ?thesis
    proof (cases "find_from (\<lambda>d. f d = s) 1 0 (Suc (Suc k)) ds'")
      case None
      then show ?thesis using 2(1) [OF ds(4), of "Suc (Suc k)"] False e by simp
    next
      case (Some j)
      then obtain i where "i < length ps" "j = Suc (Suc k) + 2 * i" "fst (ps ! i) = s"
        using 2(1) [OF ds(4), of "Suc (Suc k)"] by auto
      then show ?thesis using e Some by (auto intro!: exI [of _ "Suc i"])
    qed
  qed
qed simp

lemma hash_lp_find_ok:
  assumes "hash_lp env lp ds ps"
  shows "\<exists>r. hash_lp_find lp s = Some (map_option (\<lambda>i. lp_off ds (2 * i)) r) \<and>
    (case r of None \<Rightarrow> s \<notin> fst ` set ps | Some i \<Rightarrow> i < length ps \<and> fst (ps ! i) = s)"
proof -
  have rep: "lp_rep lp ds" "map lp_str ds = flat ps" using assms by (auto simp: hash_lp_def)
  show ?thesis
  proof (cases "ds = []")
    case True
    then have "ps = []" using hash_lp_length [OF assms] by simp
    then show ?thesis using True lpFirst_rep [OF rep(1)] by (auto simp: hash_lp_find_def lp_ptr_def)
  next
    case False
    then have f: "hash_lp_find lp s = Some (map_option (lp_off ds) (find_from (entry_matches s) 1 0 0 ds))"
      using lpFirst_rep [OF rep(1)] lpFind_rep [OF rep(1), of 0 s 1] by (simp add: hash_lp_find_def lp_ptr_def)
    have e: "entry_matches s = (\<lambda>d. lp_str d = s)" by (simp add: entry_matches_def fun_eq_iff)
    show ?thesis
    proof (cases "find_from (entry_matches s) 1 0 0 ds")
      case None
      then show ?thesis using f find_from_pairs [OF rep(2), of s 0] by (simp add: e exI [of _ None])
    next
      case (Some j)
      then obtain i where "i < length ps" "j = 2 * i" "fst (ps ! i) = s"
        using find_from_pairs [OF rep(2), of s 0] by (auto simp: e)
      then show ?thesis using f Some by (intro exI [of _ "Some i"]) simp
    qed
  qed
qed

text \<open>Reading an entry.\<close>

lemma lp_value_at:
  assumes "lp_rep lp ds" "i < length ds"
  shows "\<exists>v e. lpGetValue lp (lp_off ds i) = Some v \<and> lp_value_elem lp v = Some e \<and> elem_str e = lp_str (ds ! i) \<and> elem_ok e"
proof -
  obtain v where v: "lpGetWithSize lp (lp_off ds i) = Some (v, Some (length (lp_entry (ds ! i))))"
    "case v of LP_Str q n \<Rightarrow> q + n \<le> lp_off ds (Suc i) \<and> (\<exists>s. mem_read lp q n = Some s \<and> length s = n \<and> entry_val (ds ! i) = VStr s)
     | LP_Int x \<Rightarrow> entry_val (ds ! i) = VInt x"
    using getWithSize_off [OF assms] by blast
  then show ?thesis
    using entry_val_int64 [of "ds ! i"] lp_rep_header(5) [OF assms(1)] assms(2)
    by (cases v) (auto simp: lp_value_elem_def elem_str_def elem_ok_def val_bytes_def lpGetValue_def)
qed

text \<open>The value after a field.\<close>

lemma hash_lp_value_ptr:
  assumes "hash_lp env lp ds ps" "i < length ps"
  shows "lpNext lp (lp_off ds (2 * i)) = Some (Some (lp_off ds (Suc (2 * i))))"
  using lpNext_off [of lp ds "2 * i"] hash_lp_length [OF assms(1)] assms by (simp add: hash_lp_def lp_ptr_def)

lemma hashTypeGetValue_ok:
  assumes "hash_ok env ob"
  shows "\<exists>ob' e. hashTypeGetValue env ob k = Some (ob', e) \<and> map_option elem_str e = hash_map ob k
    \<and> (\<forall>x. e = Some x \<longrightarrow> elem_ok x) \<and> hash_ok env ob' \<and> hash_map ob' = hash_map ob \<and> hash_size ob' = hash_size ob"
proof (cases ob)
  case (HASH_LISTPACK lp)
  then obtain ds ps where h: "hash_lp env lp ds ps" using assms by auto
  have m: "hash_map ob = map_of ps" using hash_lp_pairs [OF h] HASH_LISTPACK by (simp add: hash_map_def)
  obtain r where r: "hash_lp_find lp k = Some (map_option (\<lambda>i. lp_off ds (2 * i)) r)"
    "case r of None \<Rightarrow> k \<notin> fst ` set ps | Some i \<Rightarrow> i < length ps \<and> fst (ps ! i) = k"
    using hash_lp_find_ok [OF h, of k] by (elim exE conjE)
  show ?thesis
  proof (cases r)
    case None
    then have "hashTypeGetValue env ob k = Some (ob, None)" "hash_map ob k = None"
      using r m HASH_LISTPACK by (simp_all add: hashTypeGetValue_def hashTypeGetFromListpack_def map_of_eq_None_iff)
    then show ?thesis using assms by auto
  next
    case (Some i)
    then have i: "i < length ps" "fst (ps ! i) = k" using r(2) by simp_all
    have ln: "Suc (2 * i) < length ds" using hash_lp_length [OF h] i(1) by simp
    obtain v e where e: "lpGetValue lp (lp_off ds (Suc (2 * i))) = Some v" "lp_value_elem lp v = Some e"
      "elem_str e = lp_str (ds ! Suc (2 * i))" "elem_ok e"
      using lp_value_at [OF _ ln, of lp] h by (auto simp: hash_lp_def)
    have "hash_map ob k = Some (snd (ps ! i))"
      using map_of_update_key(3) [of ps i] h i m by (simp add: hash_lp_def)
    moreover have "hashTypeGetValue env ob k = Some (ob, Some e)"
      using r(1) Some e(1,2) hash_lp_value_ptr [OF h i(1)] HASH_LISTPACK
      by (simp add: hashTypeGetValue_def hashTypeGetFromListpack_def)
    ultimately show ?thesis using assms e(3,4) hash_lp_nth(2) [OF h i(1)] by auto
  qed
next
  case (HASH_HT d)
  let ?T = "hashDictType (env_seed env)"
  have ok: "dict_ok ?T d" "dictSize d \<le> 2 ^ 60" using assms HASH_HT by auto
  obtain d1 r where d1: "dictFind ?T (env_can_resize env) d k = Some (d1, r)" "rehash_keeps ?T d d1"
    "case r of None \<Rightarrow> dict_map ?T d k = None
      | Some r \<Rightarrow> ref_ok d1 r \<and> keyCompare ?T k (fst (ref_entry d1 r)) \<and> dict_map ?T d k = Some (snd (ref_entry d1 r))"
    using sds_hash.dictFind_ok [OF ok(1), of "env_can_resize env" k] by blast
  note ok1 = sds_hash.keeps_ok [OF ok(1) d1(2)]
  have "hashTypeGetFromHashTable env d k = Some (d1, dict_map ?T d k)"
    using d1(1,3) get_entry_ok [of d1] by (cases r) (auto simp: hashTypeGetFromHashTable_def)
  then have "hashTypeGetValue env ob k = Some (HASH_HT d1, map_option EStr (dict_map ?T d k))"
    using HASH_HT by (simp add: hashTypeGetValue_def)
  moreover have "map_option elem_str (map_option EStr (dict_map ?T d k)) = hash_map ob k"
    using HASH_HT hash_ht_map [of d "env_seed env"] by (simp add: option.map_comp elem_str_def comp_def option.map_ident)
  ultimately show ?thesis using ok ok1 HASH_HT hash_ht_map [of d "env_seed env"] hash_ht_map [of d1 "env_seed env"]
      hash_ht_size [OF ok(1)] hash_ht_size [OF ok1(1)]
    by (auto simp: elem_ok_def)
qed

section \<open>Iterators\<close>

text \<open>An iterator over the hash \<open>ob0\<close>, now in the state \<open>ob\<close>, that still has to return \<open>rest\<close>.\<close>

fun hiter_at :: "server_env \<Rightarrow> hashobj \<Rightarrow> hashobj \<Rightarrow> hash_iter \<Rightarrow> (bytes \<times> bytes) list \<Rightarrow> bool" where
  "hiter_at env (HASH_LISTPACK lp) ob (HITER_LISTPACK ptrs) rest \<longleftrightarrow>
     ob = HASH_LISTPACK lp \<and>
     (\<exists>ds ps i. hash_lp env lp ds ps \<and> i \<le> length ps \<and> rest = drop i ps
        \<and> ptrs = (if i = 0 then None else Some (lp_off ds (2 * (i - 1)), lp_off ds (Suc (2 * (i - 1))))))"
| "hiter_at env (HASH_HT d) ob (HITER_HT it de) rest \<longleftrightarrow>
     ob = HASH_HT (iter_paused d it) \<and> dict_ok (hashDictType (env_seed env)) d \<and> iter_ok d it
     \<and> (iter_started it \<or> iter_chain it = []) \<and> rest = iter_rest d it"
| "hiter_at env _ ob _ rest = False"

definition hnext_spec :: "server_env \<Rightarrow> hashobj \<Rightarrow> (bytes \<times> bytes) list \<Rightarrow> (hashobj \<times> hash_iter \<times> bool) option \<Rightarrow> bool" where
  "hnext_spec env ob0 rest r \<longleftrightarrow>
     (case rest of
        [] \<Rightarrow> \<exists>ob hi. r = Some (ob, hi, False) \<and> hashTypeReleaseIterator ob hi = ob0
      | x # xs \<Rightarrow> \<exists>ob hi. r = Some (ob, hi, True) \<and> hashTypeCurrentObjectNewSds env ob hi OBJ_HASH_KEY = Some (fst x)
          \<and> hashTypeCurrentObjectNewSds env ob hi OBJ_HASH_VALUE = Some (snd x) \<and> hiter_at env ob0 ob hi xs
          \<and> (\<forall>d. ob0 = HASH_HT d \<longrightarrow> (\<exists>it. hi = HITER_HT it (Some x))))"

lemma hiter_at_init:
  assumes "hash_ok env ob"
  shows "hiter_at env ob ob (hashTypeInitIterator ob) (hash_pairs ob)"
proof (cases ob)
  case (HASH_LISTPACK lp)
  then show ?thesis using assms by (auto simp: hashTypeInitIterator_def hash_lp_pairs intro!: exI [of _ 0])
next
  case (HASH_HT d)
  then have ok: "dict_ok (hashDictType (env_seed env)) d" using assms by simp
  have "iter_rest d dictInitIterator = dict_entries d"
    using ok by (auto simp: iter_rest_def dictInitIterator_def dict_entries_def dict_ok_def dict_struct_def dictIsRehashing_def)
  then show ?thesis using HASH_HT ok
    by (auto simp: hashTypeInitIterator_def hash_pairs_def iter_ok_def dictInitIterator_def iter_paused_def iter_started_def)
qed

lemma hash_current_sds:
  assumes "lp_rep lp ds" "j < length ds"
    "p = (case what of OBJ_HASH_KEY \<Rightarrow> fst ptrs | OBJ_HASH_VALUE \<Rightarrow> snd ptrs)" "p = lp_off ds j"
  shows "hashTypeCurrentObjectNewSds env (HASH_LISTPACK lp) (HITER_LISTPACK (Some ptrs)) what = Some (lp_str (ds ! j))"
proof -
  obtain v e where "lpGetValue lp (lp_off ds j) = Some v" "lp_value_elem lp v = Some e" "elem_str e = lp_str (ds ! j)" "elem_ok e"
    using lp_value_at [OF assms(1,2)] by blast
  then show ?thesis using assms(3,4) elem_bytes_ok [of e env]
    by (simp add: hashTypeCurrentObjectNewSds_def hashTypeCurrentObject_def hashTypeCurrentFromListpack_def)
qed

lemma hnext_listpack:
  assumes "hiter_at env (HASH_LISTPACK lp) ob (HITER_LISTPACK ptrs) rest"
  shows "hnext_spec env (HASH_LISTPACK lp) rest (hashTypeNext ob (HITER_LISTPACK ptrs))"
proof -
  obtain ds ps i where h: "ob = HASH_LISTPACK lp" "hash_lp env lp ds ps" "i \<le> length ps" "rest = drop i ps"
    "ptrs = (if i = 0 then None else Some (lp_off ds (2 * (i - 1)), lp_off ds (Suc (2 * (i - 1)))))"
    using assms by auto
  have rep: "lp_rep lp ds" using h(2) by (simp add: hash_lp_def)
  note len = hash_lp_length [OF h(2)]
  have nx: "(case ptrs of None \<Rightarrow> lpFirst lp | Some (_, vptr) \<Rightarrow> lpNext lp vptr) = Some (lp_ptr ds (2 * i))"
  proof (cases i)
    case 0
    then show ?thesis using h(5) lpFirst_rep [OF rep] by simp
  next
    case (Suc j)
    then show ?thesis using h(3,5) lpNext_off [OF rep, of "Suc (2 * j)"] len by simp
  qed
  show ?thesis
  proof (cases "i < length ps")
    case True
    have p: "lp_ptr ds (2 * i) = Some (lp_off ds (2 * i))" using True len by (simp add: lp_ptr_def)
    have "hashTypeNext ob (HITER_LISTPACK ptrs) = Some (ob, HITER_LISTPACK (Some (lp_off ds (2 * i), lp_off ds (Suc (2 * i)))), True)"
      using nx p hash_lp_value_ptr [OF h(2) True] h(1) by (simp add: hashTypeNext_def)
    moreover have "rest = ps ! i # drop (Suc i) ps" using h(4) True by (simp add: Cons_nth_drop_Suc)
    moreover have "hashTypeCurrentObjectNewSds env ob (HITER_LISTPACK (Some (lp_off ds (2 * i), lp_off ds (Suc (2 * i))))) OBJ_HASH_KEY
        = Some (fst (ps ! i))"
      unfolding h(1) hash_lp_nth(1) [OF h(2) True, symmetric] by (rule hash_current_sds [OF rep]) (use True len in simp_all)
    moreover have "hashTypeCurrentObjectNewSds env ob (HITER_LISTPACK (Some (lp_off ds (2 * i), lp_off ds (Suc (2 * i))))) OBJ_HASH_VALUE
        = Some (snd (ps ! i))"
      unfolding h(1) hash_lp_nth(2) [OF h(2) True, symmetric] by (rule hash_current_sds [OF rep]) (use True len in simp_all)
    ultimately show ?thesis using h(1,2) True
      by (auto simp: hnext_spec_def intro!: exI [of _ ds] exI [of _ ps] exI [of _ "Suc i"])
  next
    case False
    then have "lp_ptr ds (2 * i) = None" using len by (simp add: lp_ptr_def)
    then show ?thesis using nx h(1,4) False by (simp add: hnext_spec_def hashTypeNext_def hashTypeReleaseIterator_def)
  qed
qed

lemma hnext_ht:
  assumes "hiter_at env (HASH_HT d) ob (HITER_HT it de) rest"
  shows "hnext_spec env (HASH_HT d) rest (hashTypeNext ob (HITER_HT it de))"
proof -
  have h: "ob = HASH_HT (iter_paused d it)" "dict_ok (hashDictType (env_seed env)) d" "iter_ok d it"
    "iter_started it \<or> iter_chain it = []" "rest = iter_rest d it" using assms by auto
  obtain it' where it': "iter_started it'"
    "if iter_rest d it = [] then dictNext (iter_paused d it) it = Some (iter_paused d it', it', None)
     else dictNext (iter_paused d it) it = Some (iter_paused d it', it', Some (hd (iter_rest d it)))
            \<and> iter_ok d it' \<and> iter_rest d it' = tl (iter_rest d it)"
    using dictNext_ok [of "hashDictType (env_seed env)" d it] h by (auto simp: dict_ok_def)
  show ?thesis
  proof (cases "iter_rest d it")
    case Nil
    then show ?thesis using h it'
      by (auto simp: hnext_spec_def hashTypeNext_def hashTypeReleaseIterator_def dictResetIterator_def iter_paused_def iter_started_def)
  next
    case (Cons x xs)
    then show ?thesis using h it'
      by (auto simp: hnext_spec_def hashTypeNext_def hashTypeCurrentObjectNewSds_def hashTypeCurrentObject_def
          hashTypeCurrentFromHashTable_def elem_bytes_def)
  qed
qed

lemma hashTypeNext_ok: "hiter_at env ob0 ob hi rest \<Longrightarrow> hnext_spec env ob0 rest (hashTypeNext ob hi)"
  using hnext_listpack hnext_ht by (cases ob0; cases hi) auto

section \<open>Conversion\<close>

lemma hash_convert_loop:
  assumes "hiter_at env ob0 ob hi rest" "dict_ok (hashDictType (env_seed env)) d" "distinct (map fst rest)"
    "fst ` set rest \<inter> dom (hash_map (HASH_HT d)) = {}" "dictSize d + length rest \<le> 2 ^ 60"
  shows "\<exists>d'. c_loop (hash_convert_step env) (ob, hi, d) = Some d' \<and> dict_ok (hashDictType (env_seed env)) d'
    \<and> hash_map (HASH_HT d') = hash_map (HASH_HT d) ++ map_of rest \<and> dictSize d' \<le> dictSize d + length rest"
  using assms
proof (induction rest arbitrary: ob hi d)
  case Nil
  then obtain ob' hi' where "hashTypeNext ob hi = Some (ob', hi', False)"
    using hashTypeNext_ok [OF Nil.prems(1)] by (auto simp: hnext_spec_def)
  then have "hash_convert_step env (ob, hi, d) = Some (Inl d)" by (simp add: hash_convert_step_def)
  then show ?case using Nil.prems by (simp add: c_loop_step)
next
  case (Cons x xs)
  let ?T = "hashDictType (env_seed env)"
  obtain ob' hi' where nx: "hashTypeNext ob hi = Some (ob', hi', True)" "hiter_at env ob0 ob' hi' xs"
    "hashTypeCurrentObjectNewSds env ob' hi' OBJ_HASH_KEY = Some (fst x)"
    "hashTypeCurrentObjectNewSds env ob' hi' OBJ_HASH_VALUE = Some (snd x)"
    using hashTypeNext_ok [OF Cons.prems(1)] by (auto simp: hnext_spec_def)
  have new: "dict_map ?T d (fst x) = None" using Cons.prems(4) by (auto simp: hash_ht_map [of d "env_seed env"])
  obtain d' where d': "dictAdd ?T (env_can_resize env) [] d (fst x) (snd x) = Some (d', True)" "dict_ok ?T d'"
    "dict_map ?T d' = (dict_map ?T d)(fst x \<mapsto> snd x)" "dictSize d' \<le> dictSize d + 1"
    using sds_hash.dictAdd_ok [OF Cons.prems(2), of "env_can_resize env" "[]" "fst x" "snd x"] Cons.prems(5) new
    by (auto simp: hash_keys_upd)
  have step: "hash_convert_step env (ob, hi, d) = Some (Inr (ob', hi', d'))"
    using nx d'(1) by (simp add: hash_convert_step_def c_assert_def)
  have m: "hash_map (HASH_HT d') = (hash_map (HASH_HT d))(fst x \<mapsto> snd x)"
    using d'(3) by (simp add: hash_ht_map [of _ "env_seed env"])
  have x: "fst x \<notin> fst ` set xs" using Cons.prems(3) by auto
  have dis: "fst ` set xs \<inter> dom (hash_map (HASH_HT d')) = {}"
    unfolding m using Cons.prems(4) x by auto
  obtain d2 where d2: "c_loop (hash_convert_step env) (ob', hi', d') = Some d2" "dict_ok ?T d2"
    "hash_map (HASH_HT d2) = hash_map (HASH_HT d') ++ map_of xs" "dictSize d2 \<le> dictSize d' + length xs"
    using Cons.IH [OF nx(2) d'(2) _ dis] Cons.prems(3,5) d'(4) by auto
  have n: "map_of xs (fst x) = None" using x by (simp add: map_of_eq_None_iff)
  have eq: "hash_map (HASH_HT d2) = hash_map (HASH_HT d) ++ map_of (x # xs)"
    unfolding d2(3) m using n by (cases x) (auto simp: map_add_def fun_eq_iff split: option.split)
  have "c_loop (hash_convert_step env) (ob, hi, d) = Some d2" using d2(1) step by (simp add: c_loop_step)
  moreover have "dictSize d2 \<le> dictSize d + length (x # xs)" using d2(4) d'(4) by simp
  ultimately show ?case using d2(2) eq by blast
qed

lemma hash_dict_new:
  assumes "n \<le> 2 ^ 60"
  shows "dict_ok (hashDictType seed) (fst (dictExpand dictCreate n) :: (bytes, bytes) dict)"
    "hash_map (HASH_HT (fst (dictExpand dictCreate n))) = Map.empty" "dictSize (fst (dictExpand dictCreate n) :: (bytes, bytes) dict) = 0"
proof -
  have ok: "dict_ok (hashDictType seed) (dictCreate :: (bytes, bytes) dict)" by simp
  then have "rehash_keeps (hashDictType seed) dictCreate (fst (dictExpand dictCreate n) :: (bytes, bytes) dict)"
    unfolding dictExpand_def using assms by (intro i_dictExpand_ok(1)) (simp_all add: dict_ok_def)
  note k = sds_hash.keeps_ok [OF ok this]
  show "dict_ok (hashDictType seed) (fst (dictExpand dictCreate n) :: (bytes, bytes) dict)" by (rule k(1))
  show "hash_map (HASH_HT (fst (dictExpand dictCreate n))) = Map.empty"
    using k(2) by (simp add: hash_ht_map [of _ seed])
  show "dictSize (fst (dictExpand dictCreate n) :: (bytes, bytes) dict) = 0" using k(3) by simp
qed

lemma hashTypeLength_lp:
  assumes "hash_lp env lp ds ps"
  shows "\<exists>lp'. hashTypeLength (HASH_LISTPACK lp) = Some (HASH_LISTPACK lp', length ps) \<and> hash_lp env lp' ds ps"
  using lpLength_rep [of lp ds] assms hash_lp_length [OF assms] by (auto simp: hashTypeLength_def hash_lp_def)

lemma hash_lp_bound: "hash_lp env lp ds ps \<Longrightarrow> length ps < 2 ^ 31"
  using lp_rep_length [of lp ds] hash_lp_length [of env lp ds ps] by (auto simp: hash_lp_def)

lemma hashTypeConvert_ok:
  assumes "hash_lp env lp ds ps"
  shows "\<exists>d. hashTypeConvert env (HASH_LISTPACK lp) = Some (HASH_HT d) \<and> hash_ok env (HASH_HT d)
    \<and> hash_map (HASH_HT d) = map_of ps \<and> dictSize d \<le> length ps"
proof -
  obtain lp' where lp': "hashTypeLength (HASH_LISTPACK lp) = Some (HASH_LISTPACK lp', length ps)" "hash_lp env lp' ds ps"
    using hashTypeLength_lp [OF assms] by blast
  have n: "length ps \<le> 2 ^ 60" using hash_lp_bound [OF assms] by simp
  have it: "hiter_at env (HASH_LISTPACK lp') (HASH_LISTPACK lp') (hashTypeInitIterator (HASH_LISTPACK lp')) ps"
    using lp'(2) by (auto simp: hashTypeInitIterator_def intro!: exI [of _ 0])
  note new = hash_dict_new [OF n]
  have dp: "distinct (map fst ps)" using assms by (simp add: hash_lp_def)
  obtain d where "c_loop (hash_convert_step env)
      (HASH_LISTPACK lp', hashTypeInitIterator (HASH_LISTPACK lp'), fst (dictExpand dictCreate (length ps))) = Some d"
    "dict_ok (hashDictType (env_seed env)) d" "hash_map (HASH_HT d) = map_of ps" "dictSize d \<le> length ps"
    using hash_convert_loop [OF it new(1) dp] new(2,3) n by auto
  then show ?thesis using lp'(1) n by (simp add: hashTypeConvert_def hashTypeConvertListpack_def)
qed

section \<open>Setting and deleting\<close>

lemma hash_lp_fits:
  assumes "env_ok env" "\<And>d. d \<in> set ds \<Longrightarrow> length (lp_entry d) \<le> hash_max_listpack_value env + 14"
    "length ds \<le> 2 * hash_max_listpack_entries env + 2"
  shows "lp_size ds < 2 ^ 32"
proof -
  have "lp_size ds \<le> 7 + (hash_max_listpack_value env + 14) * length ds" by (rule lp_size_bound [OF assms(2)])
  also have "\<dots> \<le> 7 + (hash_max_listpack_value env + 14) * (2 * hash_max_listpack_entries env + 2)"
    using assms(3) by (intro add_left_mono mult_le_mono2)
  also have "\<dots> < 2 ^ 32" using assms(1) by (simp add: env_ok_def mult.commute add.commute)
  finally show ?thesis .
qed

lemma hash_lp_append:
  assumes "env_ok env" "lp_rep lp ds" "\<forall>d\<in>set ds. length (lp_entry d) \<le> hash_max_listpack_value env + 14"
    "length ds \<le> 2 * hash_max_listpack_entries env + 1" "length s \<le> hash_max_listpack_value env"
  shows "\<exists>lp'. lpAppend (env_alloc env) lp s = Some (Some lp') \<and> lp_rep lp' (ds @ [lp_encode s]) \<and> lp_str (lp_encode s) = s
    \<and> length (lp_entry (lp_encode s)) \<le> hash_max_listpack_value env + 14"
proof -
  have e: "length (lp_entry (lp_encode s)) \<le> hash_max_listpack_value env + 14" using length_lp_encode [of s] assms(5) by simp
  have "hash_max_listpack_value env + 14 \<le> (2 * hash_max_listpack_entries env + 2) * (hash_max_listpack_value env + 14)"
    by simp
  then have l: "length s + 5 < 2 ^ 32" using assms(1,5) unfolding env_ok_def by linarith
  have sz: "lp_size (ds @ [lp_encode s]) < 2 ^ 32" by (rule hash_lp_fits [OF assms(1)]) (use assms(3,4) e in auto)
  show ?thesis
    using lp_append_elem_ok [OF assms(1,2), of "EStr s"] l sz lp_encode_wf [OF l] e
    by (auto simp: elem_ok_def elem_str_def lp_append_elem_def)
qed

lemma hash_lp_set_ok:
  assumes env: "env_ok env" and h: "hash_lp env lp ds ps" and n: "length ps \<le> hash_max_listpack_entries env"
    and f: "length f \<le> hash_max_listpack_value env" and v: "length v \<le> hash_max_listpack_value env"
  shows "\<exists>lp' ds' ps'. hash_lp_set env lp f v = Some (lp', map_of ps f \<noteq> None) \<and> hash_lp env lp' ds' ps'
    \<and> map_of ps' = (map_of ps)(f \<mapsto> v) \<and> length ps' = length ps + (if map_of ps f = None then 1 else 0)"
proof -
  have rep: "lp_rep lp ds" "map lp_str ds = flat ps" "distinct (map fst ps)"
    "\<forall>d\<in>set ds. length (lp_entry d) \<le> hash_max_listpack_value env + 14" using h by (auto simp: hash_lp_def)
  note len = hash_lp_length [OF h]
  obtain r where r: "hash_lp_find lp f = Some (map_option (\<lambda>i. lp_off ds (2 * i)) r)"
    "case r of None \<Rightarrow> f \<notin> fst ` set ps | Some i \<Rightarrow> i < length ps \<and> fst (ps ! i) = f"
    using hash_lp_find_ok [OF h, of f] by (elim exE conjE)
  show ?thesis
  proof (cases r)
    case None
    then have new: "f \<notin> fst ` set ps" "map_of ps f = None" using r(2) by (simp_all add: map_of_eq_None_iff)
    obtain lp1 where lp1: "lpAppend (env_alloc env) lp f = Some (Some lp1)" "lp_rep lp1 (ds @ [lp_encode f])" "lp_str (lp_encode f) = f"
      "length (lp_entry (lp_encode f)) \<le> hash_max_listpack_value env + 14"
      using hash_lp_append [OF env rep(1,4) _ f] len n by auto
    obtain lp2 where lp2: "lpAppend (env_alloc env) lp1 v = Some (Some lp2)" "lp_rep lp2 ((ds @ [lp_encode f]) @ [lp_encode v])"
      "lp_str (lp_encode v) = v" "length (lp_entry (lp_encode v)) \<le> hash_max_listpack_value env + 14"
      using hash_lp_append [OF env lp1(2) _ _ v] rep(4) lp1(4) len n by auto
    have "hash_lp env lp2 ((ds @ [lp_encode f]) @ [lp_encode v]) (ps @ [(f, v)])"
      using lp1(3,4) lp2 rep new(1) by (auto simp: hash_lp_def)
    moreover have "hash_lp_set env lp f v = Some (lp2, False)" using r(1) None lp1(1) lp2(1) by (simp add: hash_lp_set_def)
    ultimately show ?thesis using new(2) map_of_append_new [OF new(1), of v]
      by (intro exI [of _ lp2] exI [of _ "(ds @ [lp_encode f]) @ [lp_encode v]"] exI [of _ "ps @ [(f, v)]"]) simp
  next
    case (Some i)
    then have i: "i < length ps" "fst (ps ! i) = f" using r(2) by simp_all
    have ln: "Suc (2 * i) < length ds" using i(1) len by simp
    have e: "length (lp_entry (lp_encode v)) \<le> hash_max_listpack_value env + 14" using length_lp_encode [of v] v by simp
    have all: "\<forall>d\<in>set (ds[Suc (2 * i) := lp_encode v]). length (lp_entry d) \<le> hash_max_listpack_value env + 14"
      using rep(4) e set_update_subset_insert [of ds "Suc (2 * i)" "lp_encode v"] by blast
    have sz: "lp_size (ds[Suc (2 * i) := lp_encode v]) < 2 ^ 32" by (rule hash_lp_fits [OF env]) (use all len n in auto)
    have "hash_max_listpack_value env + 14 \<le> (2 * hash_max_listpack_entries env + 2) * (hash_max_listpack_value env + 14)"
      by simp
    then have l: "length v + 5 < 2 ^ 32" using env v unfolding env_ok_def by linarith
    obtain lp' where lp': "lpReplace (env_alloc env) lp (lp_off ds (Suc (2 * i))) v = Some (Some (lp', Some (lp_off ds (Suc (2 * i)))))"
      "lp_rep lp' (ds[Suc (2 * i) := lp_encode v])"
      using lpInsert_replace [OF _ rep(1) ln, of "env_alloc env" "EleStr v"] sz env lp_encode_wf [OF l]
      by (auto simp: env_ok_def lpReplace_def ele_data_def)
    note u = map_of_update_key(1,2) [OF rep(3) i(1), of v] map_of_update_key(3) [OF rep(3) i(1)]
    have "map lp_str (ds[Suc (2 * i) := lp_encode v]) = flat (ps[i := (f, v)])"
      using flat_update [OF i(1), of v] rep(2) lp_encode_wf [OF l] i(2) by (simp add: map_update)
    then have "hash_lp env lp' (ds[Suc (2 * i) := lp_encode v]) (ps[i := (f, v)])"
      using lp'(2) all u(2) rep(3) i(2) by (simp add: hash_lp_def)
    moreover have "hash_lp_set env lp f v = Some (lp', True)"
      using r(1) Some lp'(1) hash_lp_value_ptr [OF h i(1)] by (simp add: hash_lp_set_def)
    ultimately show ?thesis using u i(2)
      by (intro exI [of _ lp'] exI [of _ "ds[Suc (2 * i) := lp_encode v]"] exI [of _ "ps[i := (f, v)]"]) simp
  qed
qed

lemma hash_ht_set_ok:
  assumes "dict_ok (hashDictType (env_seed env)) d" "dictSize d < 2 ^ 60"
  shows "\<exists>d'. hash_ht_set env d f v = Some (d', hash_map (HASH_HT d) f \<noteq> None) \<and> hash_ok env (HASH_HT d')
    \<and> hash_map (HASH_HT d') = (hash_map (HASH_HT d))(f \<mapsto> v) \<and> dictSize d' \<le> dictSize d + 1"
proof -
  let ?T = "hashDictType (env_seed env)"
  note m = hash_ht_map [of _ "env_seed env"]
  obtain d1 p where d1: "dictAddRaw ?T (env_can_resize env) d f [] = Some (d1, p)" "dict_ok ?T d1"
    "case dict_map ?T d f of
        Some v \<Rightarrow> \<exists>r. p = Inl (Some r) \<and> ref_ok d1 r \<and> keyCompare ?T f (fst (ref_entry d1 r))
                   \<and> dict_map ?T d1 = dict_map ?T d \<and> dictSize d1 = dictSize d
      | None \<Rightarrow> \<exists>r. p = Inr r \<and> ref_ok d1 r \<and> fst (ref_entry d1 r) = f
                   \<and> dict_map ?T d1 = key_upd ?T (dict_map ?T d) f [] \<and> dictSize d1 = dictSize d + 1"
    using sds_hash.dictAddRaw_ok [OF assms, of "env_can_resize env" f "[]"] by blast
  show ?thesis
  proof (cases "dict_map ?T d f")
    case None
    then obtain r where r: "p = Inr r" "ref_ok d1 r" "fst (ref_entry d1 r) = f"
      "dict_map ?T d1 = (dict_map ?T d)(f \<mapsto> [])" "dictSize d1 = dictSize d + 1"
      using d1(3) by (auto simp: hash_keys_upd)
    obtain d2 where d2: "dictSetVal d1 r v = Some d2" "dict_ok ?T d2" "dict_map ?T d2 = (dict_map ?T d1)(f \<mapsto> v)" "dictSize d2 = dictSize d1"
      using sds_hash.setVal_ok [OF d1(2) r(2), of f v] r(3) by (auto simp: hash_keys_upd)
    then show ?thesis using d1(1) r None assms(2) by (auto simp: hash_ht_set_def m)
  next
    case (Some w)
    then obtain r where r: "p = Inl (Some r)" "ref_ok d1 r" "fst (ref_entry d1 r) = f"
      "dict_map ?T d1 = dict_map ?T d" "dictSize d1 = dictSize d" using d1(3) by auto
    obtain d2 where d2: "dictSetVal d1 r v = Some d2" "dict_ok ?T d2" "dict_map ?T d2 = (dict_map ?T d1)(f \<mapsto> v)" "dictSize d2 = dictSize d1"
      using sds_hash.setVal_ok [OF d1(2) r(2), of f v] r(3) by (auto simp: hash_keys_upd)
    then show ?thesis using d1(1) r Some assms(2) by (auto simp: hash_ht_set_def m)
  qed
qed

lemma hashTypeSet_ht:
  assumes "hash_ok env (HASH_HT d)" "hash_size (HASH_HT d) < 2 ^ 60"
  shows "\<exists>ob'. hashTypeSet env (HASH_HT d) f v = Some (ob', hash_map (HASH_HT d) f \<noteq> None) \<and> hash_ok env ob'
    \<and> hash_map ob' = (hash_map (HASH_HT d))(f \<mapsto> v) \<and> hash_size ob' \<le> hash_size (HASH_HT d) + 1"
proof -
  have ok: "dict_ok (hashDictType (env_seed env)) d" "dictSize d < 2 ^ 60" using assms hash_ht_size by auto
  obtain d' where d': "hash_ht_set env d f v = Some (d', hash_map (HASH_HT d) f \<noteq> None)" "hash_ok env (HASH_HT d')"
    "hash_map (HASH_HT d') = (hash_map (HASH_HT d))(f \<mapsto> v)" "dictSize d' \<le> dictSize d + 1"
    using hash_ht_set_ok [OF ok] by blast
  have "hash_size (HASH_HT d') \<le> hash_size (HASH_HT d) + 1"
    using d'(2,4) hash_ht_size [OF ok(1)] hash_ht_size [of "env_seed env" d'] by simp
  then show ?thesis using d' by (simp add: hashTypeSet_def)
qed

lemma hashTypeSet_ok:
  assumes env: "env_ok env" and ok: "hash_ok env ob" and sz: "hash_size ob < 2 ^ 60"
  shows "\<exists>ob'. hashTypeSet env ob f v = Some (ob', hash_map ob f \<noteq> None) \<and> hash_ok env ob'
    \<and> hash_map ob' = (hash_map ob)(f \<mapsto> v) \<and> hash_size ob' \<le> hash_size ob + 1"
proof (cases ob)
  case (HASH_HT d)
  then show ?thesis using hashTypeSet_ht ok sz by blast
next
  case (HASH_LISTPACK lp)
  then obtain ds ps where h: "hash_lp env lp ds ps" and n: "length ps \<le> hash_max_listpack_entries env" using ok by auto
  have m: "hash_map ob = map_of ps" "hash_size ob = length ps"
    using hash_lp_pairs [OF h] HASH_LISTPACK by (simp_all add: hash_map_def hash_size_def)
  show ?thesis
  proof (cases "length f > hash_max_listpack_value env \<or> length v > hash_max_listpack_value env")
    case True
    obtain d where d: "hashTypeConvert env ob = Some (HASH_HT d)" "hash_ok env (HASH_HT d)" "hash_map (HASH_HT d) = hash_map ob"
      "dictSize d \<le> length ps"
      using hashTypeConvert_ok [OF h] HASH_LISTPACK m(1) by auto
    have s: "hash_size (HASH_HT d) \<le> hash_size ob" using d(2,4) hash_ht_size [of "env_seed env" d] m(2) by simp
    then have "hash_size (HASH_HT d) < 2 ^ 60" using sz by simp
    moreover have "hashTypeSet env ob f v = hashTypeSet env (HASH_HT d) f v"
      using True d(1) HASH_LISTPACK by (simp add: hashTypeSet_def)
    ultimately show ?thesis using hashTypeSet_ht [OF d(2), of f v] d(3) s by auto
  next
    case False
    obtain lp1 ds1 ps1 where s1: "hash_lp_set env lp f v = Some (lp1, map_of ps f \<noteq> None)" "hash_lp env lp1 ds1 ps1"
      "map_of ps1 = (map_of ps)(f \<mapsto> v)" "length ps1 \<le> length ps + 1"
      using hash_lp_set_ok [OF env h n, of f v] False by (auto split: if_splits)
    obtain lp2 where lp2: "hashTypeLength (HASH_LISTPACK lp1) = Some (HASH_LISTPACK lp2, length ps1)" "hash_lp env lp2 ds1 ps1"
      using hashTypeLength_lp [OF s1(2)] by blast
    note m2 = hash_lp_pairs [OF lp2(2)]
    show ?thesis
    proof (cases "length ps1 > hash_max_listpack_entries env")
      case True
      obtain d where d: "hashTypeConvert env (HASH_LISTPACK lp2) = Some (HASH_HT d)" "hash_ok env (HASH_HT d)"
        "hash_map (HASH_HT d) = map_of ps1" "dictSize d \<le> length ps1"
        using hashTypeConvert_ok [OF lp2(2)] by blast
      have "hashTypeSet env ob f v = Some (HASH_HT d, hash_map ob f \<noteq> None)"
        using False True s1(1) lp2(1) d(1) m(1) HASH_LISTPACK by (auto simp: hashTypeSet_def)
      moreover have "hash_size (HASH_HT d) \<le> hash_size ob + 1" using d(2,4) s1(4) hash_ht_size [of "env_seed env" d] m(2) by simp
      ultimately show ?thesis using d(2,3) s1(3) m(1) by auto
    next
      case small: False
      have "hashTypeSet env ob f v = Some (HASH_LISTPACK lp2, hash_map ob f \<noteq> None)"
        using False small s1(1) lp2(1) m(1) HASH_LISTPACK by (auto simp: hashTypeSet_def)
      moreover have "hash_ok env (HASH_LISTPACK lp2)" using lp2(2) small by (auto simp: not_less)
      moreover have "hash_map (HASH_LISTPACK lp2) = (hash_map ob)(f \<mapsto> v)" "hash_size (HASH_LISTPACK lp2) \<le> hash_size ob + 1"
        using m2 s1(3,4) m by (simp_all add: hash_map_def hash_size_def)
      ultimately show ?thesis by auto
    qed
  qed
qed

lemma hash_dictResize_keeps:
  assumes "dict_ok (hashDictType seed) d" "dictSize d \<le> 2 ^ 60"
  shows "rehash_keeps (hashDictType seed) d (fst (dictResize cr d))"
proof -
  have s: "dict_struct (hashDictType seed) d" using assms(1) by (simp add: dict_ok_def)
  have "ht_used0 d \<le> dictSize d" by (simp add: dictSize_def)
  then show ?thesis using i_dictExpand_ok(1) [OF s] assms(2) s
    by (auto simp: dictResize_def dictExpand_def Let_def rehash_keeps_def)
qed

lemma hashTypeDelete_ht:
  assumes "hash_ok env (HASH_HT d)"
  shows "\<exists>ob'. hashTypeDelete env (HASH_HT d) f = Some (ob', hash_map (HASH_HT d) f \<noteq> None) \<and> hash_ok env ob'
    \<and> hash_map ob' = (hash_map (HASH_HT d))(f := None) \<and> hash_size ob' \<le> hash_size (HASH_HT d)"
proof -
  let ?T = "hashDictType (env_seed env)"
  have ok: "dict_ok ?T d" "dictSize d \<le> 2 ^ 60" using assms by auto
  obtain d1 where d1: "dictDelete ?T (env_can_resize env) d f = Some (d1, dict_map ?T d f \<noteq> None)" "dict_ok ?T d1"
    "dict_map ?T d1 = (dict_map ?T d)(f := None)" "dictSize d1 \<le> dictSize d"
    using sds_hash.dictDelete_ok [OF ok(1), of "env_can_resize env" f] by (auto simp: hash_keys_del)
  have sz1: "dictSize d1 \<le> 2 ^ 60" using d1(4) ok(2) by simp
  define d2 where "d2 = (if dict_map ?T d f \<noteq> None \<and> htNeedsResize d1 then fst (dictResize (env_can_resize env) d1) else d1)"
  have "rehash_keeps ?T d1 d2"
    using hash_dictResize_keeps [OF d1(2) sz1, of "env_can_resize env"] d1(2) by (simp add: d2_def rehash_keeps_def dict_ok_def)
  note ok2 = sds_hash.keeps_ok [OF d1(2) this]
  have "hashTypeDelete env (HASH_HT d) f = Some (HASH_HT d2, hash_map (HASH_HT d) f \<noteq> None)"
    using d1(1) by (simp add: hashTypeDelete_def d2_def hash_ht_map [of d "env_seed env"])
  moreover have "hash_map (HASH_HT d2) = (hash_map (HASH_HT d))(f := None)"
    using ok2(2) d1(3) by (simp add: hash_ht_map [of _ "env_seed env"])
  moreover have "hash_size (HASH_HT d2) \<le> hash_size (HASH_HT d)"
    using ok2(1,3) d1(4) hash_ht_size [OF ok(1)] hash_ht_size [OF ok2(1)] by simp
  ultimately show ?thesis using ok2(1,3) sz1 by auto
qed

lemma hashTypeDelete_ok:
  assumes env: "env_ok env" and ok: "hash_ok env ob"
  shows "\<exists>ob'. hashTypeDelete env ob f = Some (ob', hash_map ob f \<noteq> None) \<and> hash_ok env ob'
    \<and> hash_map ob' = (hash_map ob)(f := None) \<and> hash_size ob' \<le> hash_size ob"
proof (cases ob)
  case (HASH_HT d)
  then show ?thesis using hashTypeDelete_ht ok by blast
next
  case (HASH_LISTPACK lp)
  then obtain ds ps where h: "hash_lp env lp ds ps" and n: "length ps \<le> hash_max_listpack_entries env" using ok by auto
  have rep: "lp_rep lp ds" "map lp_str ds = flat ps" "distinct (map fst ps)"
    "\<forall>d\<in>set ds. length (lp_entry d) \<le> hash_max_listpack_value env + 14" using h by (auto simp: hash_lp_def)
  have m: "hash_map ob = map_of ps" "hash_size ob = length ps"
    using hash_lp_pairs [OF h] HASH_LISTPACK by (simp_all add: hash_map_def hash_size_def)
  obtain r where r: "hash_lp_find lp f = Some (map_option (\<lambda>i. lp_off ds (2 * i)) r)"
    "case r of None \<Rightarrow> f \<notin> fst ` set ps | Some i \<Rightarrow> i < length ps \<and> fst (ps ! i) = f"
    using hash_lp_find_ok [OF h, of f] by (elim exE conjE)
  show ?thesis
  proof (cases r)
    case None
    then have "map_of ps f = None" using r(2) by (simp add: map_of_eq_None_iff)
    then show ?thesis using None r(1) HASH_LISTPACK ok m by (auto simp: hashTypeDelete_def)
  next
    case (Some i)
    then have i: "i < length ps" "fst (ps ! i) = f" using r(2) by simp_all
    have ln: "2 * i < length ds" using i(1) hash_lp_length [OF h] by simp
    obtain lp' p where lp': "lpDeleteRangeWithEntry (env_alloc env) lp (lp_off ds (2 * i)) 2 = Some (lp', p)"
      "lp_rep lp' (del_range ds (2 * i) 2)"
      using lpDeleteRangeWithEntry_rep [OF _ rep(1) ln, of "env_alloc env" 2] env by (auto simp: env_ok_def)
    let ?qs = "take i ps @ drop (Suc i) ps"
    note dk = map_of_delete_key [OF rep(3) i(1)]
    have "map lp_str (del_range ds (2 * i) 2) = flat ?qs"
      using rep(2) by (simp add: del_range_def flat_take flat_drop take_map [symmetric] drop_map [symmetric])
    moreover have "set (del_range ds (2 * i) 2) \<subseteq> set ds"
      unfolding del_range_def by (auto dest: in_set_takeD in_set_dropD)
    ultimately have h': "hash_lp env lp' (del_range ds (2 * i) 2) ?qs" using lp'(2) rep(4) dk(2) by (auto simp: hash_lp_def)
    have "hashTypeDelete env ob f = Some (HASH_LISTPACK lp', hash_map ob f \<noteq> None)"
      using r(1) Some lp'(1) HASH_LISTPACK m(1) map_of_update_key(3) [OF rep(3) i(1)] i(2) by (simp add: hashTypeDelete_def)
    moreover have "hash_ok env (HASH_LISTPACK lp')" using h' n i(1) by (auto intro!: exI [of _ ?qs])
    moreover have "hash_map (HASH_LISTPACK lp') = (hash_map ob)(f := None)" "hash_size (HASH_LISTPACK lp') \<le> hash_size ob"
      using hash_lp_pairs [OF h'] dk(1) i m by (simp_all add: hash_map_def hash_size_def)
    ultimately show ?thesis by auto
  qed
qed

lemma hashTypeTryConversion_ok:
  assumes "hash_ok env ob" "length argv \<le> 2 ^ 60"
  shows "\<exists>ob'. hashTypeTryConversion env ob argv = Some ob' \<and> hash_ok env ob' \<and> hash_map ob' = hash_map ob \<and> hash_size ob' \<le> hash_size ob"
proof (cases ob)
  case (HASH_HT d)
  then show ?thesis using assms by (auto simp: hashTypeTryConversion_def)
next
  case (HASH_LISTPACK lp)
  then obtain ds ps where h: "hash_lp env lp ds ps" using assms by auto
  let ?T = "hashDictType (env_seed env)"
  obtain d where d: "hashTypeConvert env ob = Some (HASH_HT d)" "hash_ok env (HASH_HT d)" "hash_map (HASH_HT d) = hash_map ob"
    "dictSize d \<le> hash_size ob"
    using hashTypeConvert_ok [OF h] hash_lp_pairs [OF h] HASH_LISTPACK by (auto simp: hash_map_def hash_size_def)
  have ok: "dict_ok ?T d" "dictSize d \<le> 2 ^ 60" using d(2) by auto
  have "rehash_keeps ?T d (fst (dictExpand d (length argv div 2)))"
    unfolding dictExpand_def using ok assms(2) by (intro i_dictExpand_ok(1)) (simp_all add: dict_ok_def)
  note k = sds_hash.keeps_ok [OF ok(1) this]
  have e: "hash_ok env (HASH_HT (fst (dictExpand d (length argv div 2))))"
    "hash_map (HASH_HT (fst (dictExpand d (length argv div 2)))) = hash_map ob"
    "hash_size (HASH_HT (fst (dictExpand d (length argv div 2)))) \<le> hash_size ob"
    "hash_size (HASH_HT d) \<le> hash_size ob"
    using k ok d(3,4) hash_ht_size [OF k(1)] hash_ht_size [OF ok(1)] by (simp_all add: hash_ht_map [of _ "env_seed env"])
  show ?thesis
  proof (cases "length argv div 2 > hash_max_listpack_entries env")
    case True
    then show ?thesis using e d(1) HASH_LISTPACK by (simp add: hashTypeTryConversion_def)
  next
    case False
    then show ?thesis using e(4) d(1-3) HASH_LISTPACK assms(1)
      by (cases "try_conversion_sum env 0 argv") (auto simp: hashTypeTryConversion_def)
  qed
qed

section \<open>The map contract\<close>

text \<open>The operations on hashes as the commands \<open>HSETNX\<close>, \<open>HSET\<close>, \<open>HDEL\<close> and \<open>HGET\<close> use them.\<close>

definition hash_step :: "server_env \<Rightarrow> hashobj \<Rightarrow> (bytes, bytes) map_op \<Rightarrow> (hashobj \<times> bytes map_res) option" where
  "hash_step env ob op =
     (case op of
        MAdd f v \<Rightarrow>
          do { (ob, ex) \<leftarrow> hashTypeExists env ob f;
               (if ex then Some (ob, RFlag False)
                else
                  do { ob \<leftarrow> hashTypeTryConversion env ob [OBJ_SDS f, OBJ_SDS v];
                       (ob, update) \<leftarrow> hashTypeSet env ob f v;
                       Some (ob, RFlag True) }) }
      | MReplace f v \<Rightarrow>
          do { ob \<leftarrow> hashTypeTryConversion env ob [OBJ_SDS f, OBJ_SDS v];
               (ob, update) \<leftarrow> hashTypeSet env ob f v;
               Some (ob, RFlag (\<not> update)) }
      | MDel f \<Rightarrow> do { (ob, deleted) \<leftarrow> hashTypeDelete env ob f; Some (ob, RFlag deleted) }
      | MGet f \<Rightarrow>
          do { (ob, e) \<leftarrow> hashTypeGetValue env ob f;
               (case e of
                  None \<Rightarrow> Some (ob, RVal None)
                | Some e \<Rightarrow> do { s \<leftarrow> elem_bytes env e; Some (ob, RVal (Some s)) }) })"

lemma hash_try_set_ok:
  assumes "env_ok env" "hash_ok env ob" "hash_size ob < 2 ^ 60"
  shows "\<exists>ob1 ob2. hashTypeTryConversion env ob [OBJ_SDS f, OBJ_SDS v] = Some ob1
    \<and> hashTypeSet env ob1 f v = Some (ob2, hash_map ob f \<noteq> None) \<and> hash_ok env ob2
    \<and> hash_map ob2 = (hash_map ob)(f \<mapsto> v) \<and> hash_size ob2 \<le> hash_size ob + 1"
proof -
  obtain ob1 where "hashTypeTryConversion env ob [OBJ_SDS f, OBJ_SDS v] = Some ob1" "hash_ok env ob1"
    "hash_map ob1 = hash_map ob" "hash_size ob1 \<le> hash_size ob"
    using hashTypeTryConversion_ok [OF assms(2), of "[OBJ_SDS f, OBJ_SDS v]"] by auto
  then show ?thesis using hashTypeSet_ok [OF assms(1), of ob1 f v] assms(3) by fastforce
qed

lemma hash_step_ok:
  assumes "env_ok env" "hash_ok env ob" "hash_size ob < 2 ^ 60"
  shows "\<exists>ob' r. hash_step env ob op = Some (ob', r) \<and> hash_ok env ob'
    \<and> spec_map_op (=) (hash_map ob) op = (hash_map ob', r) \<and> hash_size ob' \<le> hash_size ob + 1"
proof -
  have upd: "upd_by (=) m k v = m(k \<mapsto> v)" "del_by (=) m k = m(k := None)" for m :: "bytes \<Rightarrow> bytes option" and k v
    by (auto simp: upd_by_def del_by_def fun_eq_iff)
  show ?thesis
  proof (cases op)
    case (MAdd f v)
    obtain ob' e where g: "hashTypeGetValue env ob f = Some (ob', e)" "map_option elem_str e = hash_map ob f"
      "hash_ok env ob'" "hash_map ob' = hash_map ob" "hash_size ob' = hash_size ob"
      using hashTypeGetValue_ok [OF assms(2), of f] by blast
    show ?thesis
    proof (cases e)
      case None
      then have "hash_map ob f = None" using g(2) by simp
      then show ?thesis using hash_try_set_ok [OF assms(1) g(3), of f v] assms(3) MAdd g None
        by (auto simp: hash_step_def hashTypeExists_def upd)
    next
      case (Some x)
      then have "hash_map ob f = Some (elem_str x)" using g(2) by simp
      then show ?thesis using MAdd g Some by (auto simp: hash_step_def hashTypeExists_def)
    qed
  next
    case (MReplace f v)
    then show ?thesis using hash_try_set_ok [OF assms, of f v] by (auto simp: hash_step_def upd)
  next
    case (MDel f)
    then show ?thesis using hashTypeDelete_ok [OF assms(1,2), of f] by (auto simp: hash_step_def upd)
  next
    case (MGet f)
    obtain ob' e where g: "hashTypeGetValue env ob f = Some (ob', e)" "map_option elem_str e = hash_map ob f"
      "\<forall>x. e = Some x \<longrightarrow> elem_ok x" "hash_ok env ob'" "hash_map ob' = hash_map ob" "hash_size ob' = hash_size ob"
      using hashTypeGetValue_ok [OF assms(2), of f] by blast
    then show ?thesis using MGet elem_bytes_ok [of "the e" env] g(2) [symmetric] by (cases e) (auto simp: hash_step_def)
  qed
qed

locale hash_server =
  fixes henv :: server_env
  assumes henv_ok: "env_ok henv"

sublocale hash_server \<subseteq> hm: map_adt "hash_ok henv" hash_map "(=)" hash_size "2 ^ 60" "hash_step henv"
  by unfold_locales (rule hash_step_ok [OF henv_ok])

context hash_server
begin

lemma hash_ops_refine:
  assumes "hash_ok henv ob" "hash_size ob + length ops \<le> 2 ^ 60"
  shows "\<exists>ob' rs. run_map_ops (hash_step henv) ob ops = Some (ob', rs) \<and> hash_ok henv ob'
    \<and> spec_map_ops (=) (hash_map ob) ops = (hash_map ob', rs)"
  using hm.run_map_ops_refines [OF assms] by auto

end

interpretation default_hash: hash_server "default_env seed cr slack j1 j2" for seed cr slack j1 j2
  by unfold_locales (rule default_env_ok)

lemma createHashObject_ok:
  assumes "env_ok env"
  shows "hash_ok env (createHashObject env)" "hash_map (createHashObject env) = Map.empty" "hash_size (createHashObject env) = 0"
proof -
  have h: "hash_lp env (lpNew (env_alloc env) 0) [] []" using lpNew_rep assms by (auto simp: hash_lp_def env_ok_def)
  then show "hash_ok env (createHashObject env)" by (auto simp: createHashObject_def intro!: exI)
  show "hash_map (createHashObject env) = Map.empty" "hash_size (createHashObject env) = 0"
    using hash_lp_pairs [OF h] by (simp_all add: createHashObject_def hash_map_def hash_size_def)
qed

section \<open>Copies\<close>

lemma hash_dup_loop:
  assumes "hiter_at env (HASH_HT d0) ob hi rest" "dict_ok (hashDictType (env_seed env)) d" "distinct (map fst rest)"
    "fst ` set rest \<inter> dom (hash_map (HASH_HT d)) = {}" "dictSize d + length rest \<le> 2 ^ 60"
  shows "\<exists>d'. c_loop (hash_dup_step env) (ob, hi, d) = Some (HASH_HT d0, HASH_HT d') \<and> dict_ok (hashDictType (env_seed env)) d'
    \<and> hash_map (HASH_HT d') = hash_map (HASH_HT d) ++ map_of rest \<and> dictSize d' \<le> dictSize d + length rest"
  using assms
proof (induction rest arbitrary: ob hi d)
  case Nil
  then obtain ob' hi' where "hashTypeNext ob hi = Some (ob', hi', False)" "hashTypeReleaseIterator ob' hi' = HASH_HT d0"
    using hashTypeNext_ok [OF Nil.prems(1)] by (auto simp: hnext_spec_def)
  then have "hash_dup_step env (ob, hi, d) = Some (Inl (HASH_HT d0, HASH_HT d))" by (simp add: hash_dup_step_def)
  then show ?case using Nil.prems by (simp add: c_loop_step)
next
  case (Cons x xs)
  let ?T = "hashDictType (env_seed env)"
  obtain ob' it where nx: "hashTypeNext ob hi = Some (ob', HITER_HT it (Some x), True)"
    "hiter_at env (HASH_HT d0) ob' (HITER_HT it (Some x)) xs"
    using hashTypeNext_ok [OF Cons.prems(1)] by (auto simp: hnext_spec_def)
  have new: "dict_map ?T d (fst x) = None" using Cons.prems(4) by (auto simp: hash_ht_map [of d "env_seed env"])
  obtain d' where d': "dictAdd ?T (env_can_resize env) [] d (fst x) (snd x) = Some (d', True)" "dict_ok ?T d'"
    "dict_map ?T d' = (dict_map ?T d)(fst x \<mapsto> snd x)" "dictSize d' \<le> dictSize d + 1"
    using sds_hash.dictAdd_ok [OF Cons.prems(2), of "env_can_resize env" "[]" "fst x" "snd x"] Cons.prems(5) new
    by (auto simp: hash_keys_upd)
  have step: "hash_dup_step env (ob, hi, d) = Some (Inr (ob', HITER_HT it (Some x), d'))"
    using nx(1) d'(1) by (simp add: hash_dup_step_def hashTypeCurrentFromHashTable_def)
  have m: "hash_map (HASH_HT d') = (hash_map (HASH_HT d))(fst x \<mapsto> snd x)"
    using d'(3) by (simp add: hash_ht_map [of _ "env_seed env"])
  have x: "fst x \<notin> fst ` set xs" using Cons.prems(3) by auto
  have dis: "fst ` set xs \<inter> dom (hash_map (HASH_HT d')) = {}" unfolding m using Cons.prems(4) x by auto
  obtain d2 where d2: "c_loop (hash_dup_step env) (ob', HITER_HT it (Some x), d') = Some (HASH_HT d0, HASH_HT d2)" "dict_ok ?T d2"
    "hash_map (HASH_HT d2) = hash_map (HASH_HT d') ++ map_of xs" "dictSize d2 \<le> dictSize d' + length xs"
    using Cons.IH [OF nx(2) d'(2) _ dis] Cons.prems(3,5) d'(4) by auto
  have n: "map_of xs (fst x) = None" using x by (simp add: map_of_eq_None_iff)
  have eq: "hash_map (HASH_HT d2) = hash_map (HASH_HT d) ++ map_of (x # xs)"
    unfolding d2(3) m using n by (cases x) (auto simp: map_add_def fun_eq_iff split: option.split)
  have "c_loop (hash_dup_step env) (ob, hi, d) = Some (HASH_HT d0, HASH_HT d2)" using d2(1) step by (simp add: c_loop_step)
  moreover have "dictSize d2 \<le> dictSize d + length (x # xs)" using d2(4) d'(4) by simp
  ultimately show ?case using d2(2) eq by blast
qed

lemma hash_distinct_keys: "distinct_keys (hashDictType seed) es \<longleftrightarrow> distinct (map fst es)"
  by (induction es) (auto simp: distinct_keys_def)

lemma hash_pairs_distinct:
  assumes "hash_ok env ob"
  shows "distinct (map fst (hash_pairs ob))"
proof (cases ob)
  case (HASH_LISTPACK lp)
  then show ?thesis using assms by (auto simp: hash_lp_pairs hash_lp_def dest: hash_lp_pairs)
next
  case (HASH_HT d)
  then show ?thesis using assms by (simp add: hash_pairs_def dict_ok_def hash_distinct_keys)
qed

lemma hashTypeDup_ok:
  assumes "hash_ok env ob"
  shows "\<exists>ob'. hashTypeDup env ob = Some (ob, ob') \<and> hash_ok env ob' \<and> hash_map ob' = hash_map ob"
proof (cases ob)
  case (HASH_LISTPACK lp)
  then obtain ds ps where h: "hash_lp env lp ds ps" and n: "length ps \<le> hash_max_listpack_entries env" using assms by auto
  note t = lp_rep_take [of lp ds]
  have h': "hash_lp env (take (lp_size ds) lp) ds ps" using h t by (simp add: hash_lp_def)
  have "hashTypeDup env ob = Some (ob, HASH_LISTPACK (take (lp_size ds) lp))"
    using t h HASH_LISTPACK by (simp add: hashTypeDup_def hash_lp_def)
  moreover have "hash_ok env (HASH_LISTPACK (take (lp_size ds) lp))" using h' n by auto
  moreover have "hash_map (HASH_LISTPACK (take (lp_size ds) lp)) = hash_map ob"
    using hash_lp_pairs [OF h] hash_lp_pairs [OF h'] HASH_LISTPACK by (simp add: hash_map_def)
  ultimately show ?thesis by blast
next
  case (HASH_HT d)
  have ok: "dict_ok (hashDictType (env_seed env)) d" "dictSize d \<le> 2 ^ 60" using assms HASH_HT by auto
  note new = hash_dict_new [OF ok(2)]
  have len: "length (hash_pairs ob) = dictSize d" using hash_ht_size [OF ok(1)] HASH_HT by (simp add: hash_size_def)
  obtain d' where "c_loop (hash_dup_step env) (ob, hashTypeInitIterator ob, fst (dictExpand dictCreate (dictSize d)))
      = Some (HASH_HT d, HASH_HT d')" "dict_ok (hashDictType (env_seed env)) d'" "hash_map (HASH_HT d') = map_of (hash_pairs ob)"
    "dictSize d' \<le> length (hash_pairs ob)"
    using hash_dup_loop [OF hiter_at_init [OF assms, unfolded HASH_HT] new(1) hash_pairs_distinct [OF assms, unfolded HASH_HT]]
      new(2,3) len ok(2) HASH_HT by auto
  then show ?thesis using HASH_HT len ok(2) by (auto simp: hashTypeDup_def hash_map_def)
qed

section \<open>Properties\<close>



text \<open>
  \<^bold>\<open>C36\<close> (equivalence). Converting a hash from a listpack to a hash table and copying a hash keep the map; copying returns
  the source unchanged, so its iterator has released the table it paused. A hash read back pair by pair has distinct fields.
\<close>

theorem hash_type_conversions:
  assumes "hash_ok env ob"
  shows "(\<forall>lp. ob = HASH_LISTPACK lp \<longrightarrow>
        (\<exists>d. hashTypeConvert env ob = Some (HASH_HT d) \<and> hash_ok env (HASH_HT d) \<and> hash_map (HASH_HT d) = hash_map ob))
    \<and> (\<exists>ob'. hashTypeDup env ob = Some (ob, ob') \<and> hash_ok env ob' \<and> hash_map ob' = hash_map ob)
    \<and> distinct (map fst (hash_pairs ob))"
proof (intro conjI allI impI)
  fix lp assume "ob = HASH_LISTPACK lp"
  then show "\<exists>d. hashTypeConvert env ob = Some (HASH_HT d) \<and> hash_ok env (HASH_HT d) \<and> hash_map (HASH_HT d) = hash_map ob"
    using hashTypeConvert_ok assms by (fastforce simp: hash_map_def hash_lp_pairs)
qed (use hashTypeDup_ok [OF assms] hash_pairs_distinct [OF assms] in auto)

theorem hash_type_conversions_witness:
  "\<exists>d. hashTypeConvert ex_env (createHashObject ex_env) = Some (HASH_HT d) \<and> hash_map (HASH_HT d) = Map.empty"
proof -
  note new = createHashObject_ok [OF default_hash.henv_ok, of "replicate 16 0" DICT_RESIZE_ENABLE "\<lambda>_. 0" "\<lambda>_. 0" "\<lambda>_. 0"]
  show ?thesis using hash_type_conversions [OF new(1)] new(2) by (auto simp: createHashObject_def)
qed

end
