(* ===== verification/Libc.thy ===== *)
theory Libc
  imports Dict_Types
begin

text \<open>
  The functions of the C library that the text formats rely on: character classes of the C locale, \<open>strtoll\<close>
  and its relatives, \<open>strchr\<close> and \<open>fgets\<close>. A C string is a byte list; reading at or after its end gives the
  terminating NUL.
\<close>

section \<open>Characters and C strings\<close>

definition c_hd :: "bytes \<Rightarrow> byte" where
  "c_hd s = (case s of [] \<Rightarrow> 0 | b # _ \<Rightarrow> b)"

definition isspace :: "byte \<Rightarrow> bool" where
  "isspace b \<longleftrightarrow> b = 32 \<or> 9 \<le> b \<and> b \<le> 13"

definition isprint :: "byte \<Rightarrow> bool" where
  "isprint b \<longleftrightarrow> 32 \<le> b \<and> b \<le> 126"

text \<open>\<open>strchr\<close>: the offset of the first \<open>c\<close> of the C string; \<open>None\<close> is \<open>NULL\<close>.\<close>

definition strchr :: "bytes \<Rightarrow> byte \<Rightarrow> nat option" where
  "strchr s c =
     (let n = length (takeWhile (\<lambda>b. b \<noteq> c) (c_str s)) in
      if n < length (c_str s) \<or> c = 0 then Some n else None)"

lemma c_hd_Cons [simp]: "c_hd (b # p) = b"
  by (simp add: c_hd_def)

lemma c_hd_nonzero: "c_hd p \<noteq> 0 \<Longrightarrow> p \<noteq> []"
  by (auto simp: c_hd_def)

lemma c_str_no_nul: "0 \<notin> set s \<Longrightarrow> c_str s = s"
  by (auto simp: c_str_def takeWhile_eq_all_conv)

lemma takeWhile_neq_less: "length (takeWhile (\<lambda>b. b \<noteq> c) s) < length s \<longleftrightarrow> c \<in> set s"
  by (induction s) auto

lemma strchr_None_iff: "c \<noteq> 0 \<Longrightarrow> 0 \<notin> set s \<Longrightarrow> strchr s c = None \<longleftrightarrow> c \<notin> set s"
  by (simp add: strchr_def c_str_no_nul Let_def takeWhile_neq_less)

section \<open>Numbers\<close>

text \<open>
  \<open>strtoll(s, NULL, 10)\<close>: leading white space, a sign, digits, anything after them ignored; a value out of range
  becomes the nearest bound. \<open>long\<close> has 64 bits, so \<open>strtol\<close> and \<open>atoll\<close> give the same value, and \<open>atoi\<close> its
  low 32 bits.
\<close>

definition strtoll :: "bytes \<Rightarrow> int" where
  "strtoll s =
     (let s = dropWhile isspace s;
          neg = (c_hd s = 45);
          s = (if c_hd s = 45 \<or> c_hd s = 43 then drop 1 s else s);
          v = digits_val 0 (takeWhile is_digit s);
          v = (if neg then - v else v)
      in max INT64_MIN (min INT64_MAX v))"

definition atoi :: "bytes \<Rightarrow> int" where
  "atoi s = to_signed 32 (strtoll s mod 2 ^ 32)"

lemma dec_is_digits:
  "list_all is_digit (dec n) \<and> digits_val 0 (dec n) = int n"
proof (cases "n = 0")
  case True
  then show ?thesis by (simp add: is_digit_def)
next
  case False
  then obtain c ds where "dec n = c # ds" "49 \<le> uint c" "uint c \<le> 57" "list_all is_digit ds"
      "digits_val (uint c - 48) ds = int n"
    using dec_parts [of n] by auto
  then show ?thesis by (simp add: is_digit_uint)
qed

lemma digit_not_space: "is_digit c \<Longrightarrow> \<not> isspace c \<and> c \<noteq> 45 \<and> c \<noteq> 43"
  by (auto simp: is_digit_uint isspace_def word_le_def)

lemma takeWhile_digits:
  "list_all is_digit ds \<Longrightarrow> \<not> is_digit (c_hd rest) \<Longrightarrow> takeWhile is_digit (ds @ rest) = ds"
  by (cases rest) (simp_all add: takeWhile_append list_all_iff)

lemma strtoll_ll_repr:
  assumes "is_int64 v" "\<not> is_digit (c_hd rest)"
  shows "strtoll (ll_repr v @ rest) = v"
proof (cases "v < 0")
  case True
  have tw: "takeWhile is_digit (dec (nat (- v)) @ rest) = dec (nat (- v))"
    using takeWhile_digits assms(2) dec_is_digits by blast
  show ?thesis
    using True tw assms(1) dec_is_digits [of "nat (- v)"]
    by (simp add: strtoll_def ll_repr_def isspace_def is_int64_def Let_def)
next
  case False
  have ds: "list_all is_digit (dec (nat v))" using dec_is_digits by blast
  have tw: "takeWhile is_digit (dec (nat v) @ rest) = dec (nat v)"
    using takeWhile_digits assms(2) ds by blast
  obtain c cs where c: "dec (nat v) = c # cs" by (cases "dec (nat v)") simp_all
  then have "is_digit c" using ds by simp
  then show ?thesis
    using False tw assms(1) dec_is_digits [of "nat v"] c digit_not_space [of c]
    by (simp add: strtoll_def ll_repr_def is_int64_def Let_def)
qed

lemma ll_repr_chars: "c \<in> set (ll_repr v) \<Longrightarrow> is_digit c \<or> c = 45"
  using dec_is_digits [of "nat v"] dec_is_digits [of "nat (- v)"]
  by (auto simp: ll_repr_def list_all_iff split: if_splits)

section \<open>Streams\<close>

text \<open>
  A file open for reading: the bytes not read yet, and whether reading past them is a read error rather than
  the end of the file. \<open>fgets(buf, n, fp)\<close> reads up to a newline, at most \<open>n - 1\<close> bytes; \<open>None\<close> is \<open>NULL\<close>, and then
  \<open>feof(fp)\<close> holds unless there was an error.
\<close>

record cfile =
  f_rest :: bytes
  f_err :: bool

definition fgets :: "nat \<Rightarrow> cfile \<Rightarrow> (bytes \<times> cfile) option" where
  "fgets n f =
     (let s = take (n - 1) (f_rest f);
          k = length (takeWhile (\<lambda>b. b \<noteq> 10) s);
          line = take (k + 1) s
      in if k = length s \<and> length s < n - 1 \<and> (f_err f \<or> s = []) then None
         else Some (line, f\<lparr>f_rest := drop (length line) (f_rest f)\<rparr>))"

lemma fgets_shrinks: "1 < n \<Longrightarrow> fgets n f = Some (line, f') \<Longrightarrow> length (f_rest f') < length (f_rest f)"
  by (cases "f_rest f"; cases "n - 1") (auto simp: fgets_def Let_def split: if_splits)

lemma fgets_line:
  assumes "10 \<notin> set l" "length l + 1 < n"
  shows "fgets n (f\<lparr>f_rest := l @ 10 # rest\<rparr>) = Some (l @ [10], f\<lparr>f_rest := rest\<rparr>)"
proof -
  have "take (n - 1) (l @ 10 # rest) = l @ 10 # take (n - 2 - length l) rest"
    using assms(2) by (simp add: take_Cons' )
  moreover have "takeWhile (\<lambda>b. b \<noteq> 10) (l @ 10 # xs) = l" for xs
    using assms(1) by (induction l) auto
  ultimately show ?thesis by (simp add: fgets_def Let_def)
qed

lemma fgets_end: "fgets n (f\<lparr>f_rest := []\<rparr>) = None \<or> n \<le> 1"
  by (auto simp: fgets_def)

end
