(* ===== verification/Sds_Args.thy ===== *)
theory Sds_Args
  imports Libc
begin

text \<open>
  Quoting of strings from \<open>sds.c\<close>: \<open>sdscatrepr\<close> prints a string in quotes with escapes, \<open>sdssplitargs\<close> splits a
  line into arguments the way the inline protocol, the configuration file and the command line client read them.
\<close>

section \<open>Hexadecimal digits\<close>

definition is_hex_digit :: "byte \<Rightarrow> bool" where
  "is_hex_digit c \<longleftrightarrow> (c \<ge> 48 \<and> c \<le> 57) \<or> (c \<ge> 97 \<and> c \<le> 102) \<or> (c \<ge> 65 \<and> c \<le> 70)"

definition hex_digit_to_int :: "byte \<Rightarrow> nat" where
  "hex_digit_to_int c =
     (if c \<ge> 48 \<and> c \<le> 57 then unat c - 48
      else if c \<ge> 97 \<and> c \<le> 102 then unat c - 87
      else if c \<ge> 65 \<and> c \<le> 70 then unat c - 55
      else 0)"

section \<open>Printing\<close>

text \<open>The digit \<open>%x\<close> prints.\<close>

definition hex_char :: "nat \<Rightarrow> byte" where
  "hex_char n = (if n < 10 then of_nat (48 + n) else of_nat (87 + n))"

definition repr_char :: "byte \<Rightarrow> bytes" where
  "repr_char p =
     (if p = 92 \<or> p = 34 then [92, p]
      else if p = 10 then [92, 110]
      else if p = 13 then [92, 114]
      else if p = 9 then [92, 116]
      else if p = 7 then [92, 97]
      else if p = 8 then [92, 98]
      else if isprint p then [p]
      else [92, 120, hex_char (unat p div 16), hex_char (unat p mod 16)])"

definition sdscatrepr :: "bytes \<Rightarrow> bytes \<Rightarrow> bytes" where
  "sdscatrepr s p = s @ [34] @ concat (map repr_char p) @ [34]"

definition sdsneedsrepr :: "bytes \<Rightarrow> bool" where
  "sdsneedsrepr s \<longleftrightarrow>
     list_ex (\<lambda>p. p = 92 \<or> p = 34 \<or> p = 10 \<or> p = 13 \<or> p = 9 \<or> p = 7 \<or> p = 8 \<or> \<not> isprint p \<or> isspace p) s"

section \<open>Splitting\<close>

datatype quote_mode = Q_NONE | Q_DOUBLE | Q_SINGLE

definition unescape :: "byte \<Rightarrow> byte" where
  "unescape p =
     (if p = 110 then 10 else if p = 114 then 13 else if p = 116 then 9
      else if p = 98 then 8 else if p = 97 then 7 else p)"

text \<open>A closing quote must be followed by a space or nothing at all.\<close>

definition quote_end_ok :: "bytes \<Rightarrow> bool" where
  "quote_end_ok p \<longleftrightarrow> c_hd p = 0 \<or> isspace (c_hd p)"

text \<open>
  Reading one token: \<open>current\<close> so far, and the unread rest. \<open>None\<close> is \<open>goto err\<close>; otherwise the token and the
  rest of the line after it.
\<close>

function sds_token :: "quote_mode \<Rightarrow> bytes \<Rightarrow> bytes \<Rightarrow> (bytes \<times> bytes) option" where
  "sds_token Q_DOUBLE p current =
     (if c_hd p = 92 \<and> c_hd (drop 1 p) = 120 \<and> is_hex_digit (c_hd (drop 2 p)) \<and> is_hex_digit (c_hd (drop 3 p)) then
        sds_token Q_DOUBLE (drop 4 p)
          (current @ [of_nat (hex_digit_to_int (c_hd (drop 2 p)) * 16 + hex_digit_to_int (c_hd (drop 3 p)))])
      else if c_hd p = 92 \<and> c_hd (drop 1 p) \<noteq> 0 then
        sds_token Q_DOUBLE (drop 2 p) (current @ [unescape (c_hd (drop 1 p))])
      else if c_hd p = 34 then
        (if quote_end_ok (drop 1 p) then Some (current, drop 1 p) else None)
      else if c_hd p = 0 then None
      else sds_token Q_DOUBLE (drop 1 p) (current @ [c_hd p]))"
| "sds_token Q_SINGLE p current =
     (if c_hd p = 92 \<and> c_hd (drop 1 p) = 39 then sds_token Q_SINGLE (drop 2 p) (current @ [39])
      else if c_hd p = 39 then
        (if quote_end_ok (drop 1 p) then Some (current, drop 1 p) else None)
      else if c_hd p = 0 then None
      else sds_token Q_SINGLE (drop 1 p) (current @ [c_hd p]))"
| "sds_token Q_NONE p current =
     (if c_hd p = 32 \<or> c_hd p = 10 \<or> c_hd p = 13 \<or> c_hd p = 9 then Some (current, drop 1 p)
      else if c_hd p = 0 then Some (current, p)
      else if c_hd p = 34 then sds_token Q_DOUBLE (drop 1 p) current
      else if c_hd p = 39 then sds_token Q_SINGLE (drop 1 p) current
      else sds_token Q_NONE (drop 1 p) (current @ [c_hd p]))"
  by pat_completeness auto

termination sds_token
  by (relation "measure (\<lambda>(_, p, _). length p)") (auto simp: c_hd_def split: list.splits)

declare sds_token.simps [simp del]

definition skip_blanks :: "bytes \<Rightarrow> bytes" where
  "skip_blanks p = dropWhile (\<lambda>b. b \<noteq> 0 \<and> isspace b) p"

lemma sds_token_rest: "sds_token m p cur = Some (cur', p') \<Longrightarrow> length p' \<le> length p"
proof (induction m p cur rule: sds_token.induct)
  case (1 p current)
  then show ?case by (force simp: sds_token.simps(1) [of p current] split: if_splits)
next
  case (2 p current)
  then show ?case by (force simp: sds_token.simps(2) [of p current] split: if_splits)
next
  case (3 p current)
  then show ?case by (force simp: sds_token.simps(3) [of p current] split: if_splits)
qed

lemma sds_token_progress:
  assumes "sds_token Q_NONE p cur = Some (cur', p')" "c_hd p \<noteq> 0"
  shows "length p' < length p"
proof -
  have "p \<noteq> []" using assms(2) by (rule c_hd_nonzero)
  then have "length (drop 1 p) < length p" by simp
  then show ?thesis
    using assms sds_token_rest [of _ "drop 1 p" _ cur' p']
    by (auto simp: sds_token.simps(3) [of p cur] split: if_splits dest!: sds_token_rest)
qed

lemma skip_blanks_length: "length (skip_blanks p) \<le> length p"
  by (simp add: skip_blanks_def length_dropWhile_le)

text \<open>\<open>None\<close> is the result \<open>NULL\<close> for unbalanced quotes; the arguments so far are in \<open>vector\<close>.\<close>

function splitargs_loop :: "bytes \<Rightarrow> bytes list \<Rightarrow> bytes list option" where
  "splitargs_loop p vector =
     (let p = skip_blanks p in
      if c_hd p \<noteq> 0 then
        (case sds_token Q_NONE p [] of
           None \<Rightarrow> None
         | Some (current, p) \<Rightarrow> splitargs_loop p (vector @ [current]))
      else Some vector)"
  by pat_completeness auto

termination splitargs_loop
proof (relation "measure (\<lambda>(p, _). length p)", goal_cases)
  case (2 p vector x cp current rest)
  then show ?case using sds_token_progress [of x "[]" current rest] skip_blanks_length [of p] by simp
qed simp

declare splitargs_loop.simps [simp del]

definition sdssplitargs :: "bytes \<Rightarrow> bytes list option" where
  "sdssplitargs line = splitargs_loop line []"

section \<open>Printed strings are read back\<close>

lemma hex_char_ok:
  assumes "n < 16"
  shows "is_hex_digit (hex_char n)" "hex_digit_to_int (hex_char n) = n" "hex_char n \<noteq> 0"
proof -
  have "list_all (\<lambda>n. is_hex_digit (hex_char n) \<and> hex_digit_to_int (hex_char n) = n \<and> hex_char n \<noteq> 0) [0..<16]"
    by code_simp
  then show "is_hex_digit (hex_char n)" "hex_digit_to_int (hex_char n) = n" "hex_char n \<noteq> 0"
    using assms by (auto simp: list_all_iff)
qed

lemma token_escape:
  "e \<noteq> 120 \<Longrightarrow> e \<noteq> 0 \<Longrightarrow>
    sds_token Q_DOUBLE (92 # e # p) cur = sds_token Q_DOUBLE p (cur @ [unescape e])"
  by (simp add: sds_token.simps(1) [of "92 # e # p"])

lemma token_plain:
  "b \<noteq> 92 \<Longrightarrow> b \<noteq> 34 \<Longrightarrow> b \<noteq> 0 \<Longrightarrow>
    sds_token Q_DOUBLE (b # p) cur = sds_token Q_DOUBLE p (cur @ [b])"
  by (simp add: sds_token.simps(1) [of "b # p"])

lemma token_hex:
  "sds_token Q_DOUBLE (92 # 120 # hex_char (unat b div 16) # hex_char (unat b mod 16) # p) cur =
    sds_token Q_DOUBLE p (cur @ [b])"
proof -
  have "unat b < 256" using unsigned_less [of b, where 'a = nat] by simp
  then have "unat b div 16 < 16" "unat b mod 16 < 16" by auto
  note hex = hex_char_ok [OF this(1)] hex_char_ok [OF this(2)]
  have "of_nat (unat b div 16 * 16 + unat b mod 16) = b" by simp
  then show ?thesis
    using hex
    by (simp add: sds_token.simps(1) [of "92 # 120 # hex_char (unat b div 16) # hex_char (unat b mod 16) # p"]
        del: of_nat_add of_nat_mult)
qed

lemma token_repr_char: "sds_token Q_DOUBLE (repr_char b @ p) cur = sds_token Q_DOUBLE p (cur @ [b])"
proof (cases "b \<in> {92, 34, 10, 13, 9, 7, 8}")
  case True
  then show ?thesis by (auto simp: repr_char_def token_escape unescape_def)
next
  case False
  moreover have "isprint b \<Longrightarrow> b \<noteq> 0" by (auto simp: isprint_def)
  ultimately show ?thesis by (auto simp: repr_char_def token_plain token_hex)
qed

lemma token_repr:
  assumes "quote_end_ok rest"
  shows "sds_token Q_DOUBLE (concat (map repr_char s) @ 34 # rest) cur = Some (cur @ s, rest)"
proof (induction s arbitrary: cur)
  case Nil
  then show ?case using assms by (simp add: sds_token.simps(1) [of "34 # rest"])
next
  case (Cons b s)
  then show ?case by (simp add: token_repr_char)
qed

lemma token_sdscatrepr:
  assumes "quote_end_ok rest"
  shows "sds_token Q_NONE (sdscatrepr [] s @ rest) [] = Some (s, rest)"
  using token_repr [OF assms, of s "[]"] by (simp add: sdscatrepr_def sds_token.simps(3) [of "34 # _"])

text \<open>The part of the line of \<open>replicationFeedMonitors\<close> that prints the arguments of a command.\<close>

definition monitor_arg :: "strobj \<Rightarrow> bytes" where
  "monitor_arg a = (case a of OBJ_INT v \<Rightarrow> [34] @ ll_repr (sint v) @ [34] | OBJ_SDS s \<Rightarrow> sdscatrepr [] s)"

fun monitor_args :: "strobj list \<Rightarrow> bytes" where
  "monitor_args [] = []"
| "monitor_args (a # as) = monitor_arg a @ (if as \<noteq> [] then [32] else []) @ monitor_args as"

definition strobj_val :: "strobj \<Rightarrow> bytes" where
  "strobj_val a = (case a of OBJ_INT v \<Rightarrow> ll_repr (sint v) | OBJ_SDS s \<Rightarrow> s)"

lemma digit_printable: "is_digit c \<Longrightarrow> isprint c"
  unfolding is_digit_def isprint_def using order_trans [of 32 48 c] order_trans [of c 57 126] by simp

lemma repr_char_number: "is_digit c \<or> c = 45 \<Longrightarrow> repr_char c = [c]"
  using digit_printable [of c] by (auto simp: repr_char_def isprint_def is_digit_def)

lemma repr_chars_number: "list_all (\<lambda>c. is_digit c \<or> c = 45) s \<Longrightarrow> concat (map repr_char s) = s"
  by (induction s) (simp_all add: repr_char_number)

lemma monitor_arg_eq: "monitor_arg a = sdscatrepr [] (strobj_val a)"
proof (cases a)
  case (OBJ_INT v)
  have "list_all (\<lambda>c. is_digit c \<or> c = 45) (ll_repr (sint v))"
    using ll_repr_chars by (auto simp: list_all_iff)
  then show ?thesis using OBJ_INT by (simp add: monitor_arg_def strobj_val_def sdscatrepr_def repr_chars_number)
qed (simp add: monitor_arg_def strobj_val_def)

lemma c_hd_sdscatrepr [simp]: "c_hd (sdscatrepr [] a @ rest) = 34"
  by (simp add: sdscatrepr_def)

lemma skip_blanks_stop: "c_hd p = 0 \<or> \<not> isspace (c_hd p) \<Longrightarrow> skip_blanks p = p"
  by (cases p) (auto simp: skip_blanks_def)

lemma splitargs_repr:
  assumes "quote_end_ok rest"
  shows "splitargs_loop (sdscatrepr [] a @ rest) v = splitargs_loop rest (v @ [a])"
proof -
  have "skip_blanks (sdscatrepr [] a @ rest) = sdscatrepr [] a @ rest"
    by (rule skip_blanks_stop) (simp add: isspace_def)
  then show ?thesis
    by (simp add: splitargs_loop.simps [of "sdscatrepr [] a @ rest"] token_sdscatrepr [OF assms])
qed

lemma splitargs_nil: "splitargs_loop [] v = Some v"
  by (simp add: splitargs_loop.simps [of "[]"] skip_blanks_def c_hd_def)

lemma splitargs_space: "splitargs_loop (32 # p) v = splitargs_loop p v"
proof -
  have "skip_blanks (32 # p) = skip_blanks p" by (simp add: skip_blanks_def isspace_def)
  then show ?thesis by (simp add: splitargs_loop.simps [of "32 # p"] splitargs_loop.simps [of p])
qed

lemma splitargs_monitor_args: "splitargs_loop (monitor_args as) v = Some (v @ map strobj_val as)"
proof (induction as arbitrary: v)
  case Nil
  then show ?case by (simp add: splitargs_nil)
next
  case (Cons a as)
  have "quote_end_ok ((if as \<noteq> [] then [32] else []) @ monitor_args as)"
    by (cases as) (simp_all add: quote_end_ok_def isspace_def c_hd_def)
  from splitargs_repr [OF this, of "strobj_val a" v] show ?case
    by (cases "as = []") (simp_all add: monitor_arg_eq splitargs_space splitargs_nil Cons.IH)
qed

text \<open>A token without quotes, blanks and NUL bytes stands for itself.\<close>

definition plain_char :: "byte \<Rightarrow> bool" where
  "plain_char b \<longleftrightarrow> b \<noteq> 0 \<and> b \<noteq> 34 \<and> b \<noteq> 39 \<and> \<not> isspace b"

lemma plain_char_neq: "plain_char b \<Longrightarrow> b \<noteq> 0 \<and> b \<noteq> 34 \<and> b \<noteq> 39 \<and> b \<noteq> 32 \<and> b \<noteq> 10 \<and> b \<noteq> 13 \<and> b \<noteq> 9"
  by (auto simp: plain_char_def isspace_def)

lemma token_plain_chars:
  assumes "c_hd rest = 32 \<or> rest = []"
  shows "list_all plain_char w \<Longrightarrow> sds_token Q_NONE (w @ rest) cur = Some (cur @ w, drop 1 rest)"
proof (induction w arbitrary: cur)
  case Nil
  then show ?case using assms by (auto simp: sds_token.simps(3) [of rest] c_hd_def)
next
  case (Cons b w)
  then show ?case
    by (simp add: sds_token.simps(3) [of "b # w @ rest"] plain_char_neq)
qed

lemma splitargs_plain:
  assumes "c_hd rest = 32 \<or> rest = []" "w \<noteq> []" "list_all plain_char w"
  shows "splitargs_loop (w @ rest) v = splitargs_loop (drop 1 rest) (v @ [w])"
proof -
  from assms obtain b u where w: "w = b # u" "plain_char b" by (cases w) auto
  have "skip_blanks (w @ rest) = w @ rest"
    by (rule skip_blanks_stop) (use w in \<open>simp add: plain_char_def\<close>)
  then show ?thesis
    using token_plain_chars [OF assms(1,3), of "[]"] splitargs_loop.simps [of "w @ rest" v] w
    by (simp add: plain_char_neq)
qed

lemma not_needsrepr_plain:
  assumes "\<not> sdsneedsrepr s" "39 \<notin> set s"
  shows "list_all plain_char s"
  unfolding list_all_iff
proof
  fix b assume b: "b \<in> set s"
  then have "isprint b" "b \<noteq> 34" "\<not> isspace b" "b \<noteq> 39"
    using assms unfolding sdsneedsrepr_def list_ex_iff by blast+
  then show "plain_char b" by (auto simp: plain_char_def isprint_def)
qed

lemma number_plain: "list_all plain_char (ll_repr v)"
proof -
  have "is_digit c \<Longrightarrow> c \<noteq> 0 \<and> c \<noteq> 34 \<and> c \<noteq> 39" for c by (auto simp: is_digit_def)
  then have "is_digit c \<Longrightarrow> plain_char c" for c using digit_not_space [of c] by (simp add: plain_char_def)
  moreover have "plain_char 45" by (simp add: plain_char_def isspace_def)
  ultimately show ?thesis using ll_repr_chars [of _ v] by (auto simp: list_all_iff)
qed

lemma sdscatrepr_chars: "c \<in> set (sdscatrepr [] s) \<Longrightarrow> c \<noteq> 0 \<and> c \<noteq> 10"
proof -
  have hex: "hex_char n \<noteq> 10" "hex_char n \<noteq> 0" if "n < 16" for n
    using hex_char_ok [OF that] by (auto simp: is_hex_digit_def)
  have "unat b div 16 < 16" for b :: byte using unsigned_less [of b, where 'a = nat] by simp
  then have "c \<noteq> 0 \<and> c \<noteq> 10" if "c \<in> set (repr_char b)" for b
    using that hex [of "unat b div 16"] hex [of "unat b mod 16"]
    by (auto simp: repr_char_def isprint_def split: if_splits)
  then show "c \<in> set (sdscatrepr [] s) \<Longrightarrow> c \<noteq> 0 \<and> c \<noteq> 10"
    by (auto simp: sdscatrepr_def)
qed

section \<open>Trimming\<close>

text \<open>\<open>strchr(cset, c)\<close> also finds the terminator of \<open>cset\<close>.\<close>

definition sdstrim :: "bytes \<Rightarrow> bytes \<Rightarrow> bytes" where
  "sdstrim s cset =
     (let trim = (\<lambda>c. strchr cset c \<noteq> None);
          sp = dropWhile trim s
      in rev (dropWhile trim (rev sp)))"

lemma sdstrim_end:
  assumes "strchr cset (hd s) = None" "strchr cset b = None" "strchr cset c \<noteq> None" "s \<noteq> []"
  shows "sdstrim (s @ [b, c]) cset = s @ [b]"
  using assms by (cases s) (simp_all add: sdstrim_def)

text \<open>
  \<^bold>\<open>C13\<close> Whatever bytes the arguments of a command hold, the text that \<open>replicationFeedMonitors\<close> prints for them with
  \<open>sdscatrepr\<close> is split by \<open>sdssplitargs\<close> into exactly these arguments, integer encoded ones in decimal.
\<close>

theorem sdssplitargs_monitor_args: "sdssplitargs (monitor_args as) = Some (map strobj_val as)"
  by (simp add: sdssplitargs_def splitargs_monitor_args)

end
