(* ===== verification/Aof_Manifest.thy ===== *)
theory Aof_Manifest
  imports Sds_Args
begin

text \<open>
  The manifest of the multi part append only file (\<open>aof.c\<close>): the records of the base, incremental and history
  files, their names and sequence numbers, printing the manifest and loading it again. A NULL-terminated
  \<open>server.aof_filename\<close> is a byte list without NUL; an exit of the process while loading is the left summand.
\<close>

section \<open>Data\<close>

abbreviation (input) AOF_FILE_TYPE_BASE :: byte where "AOF_FILE_TYPE_BASE \<equiv> 98"
abbreviation (input) AOF_FILE_TYPE_HIST :: byte where "AOF_FILE_TYPE_HIST \<equiv> 104"
abbreviation (input) AOF_FILE_TYPE_INCR :: byte where "AOF_FILE_TYPE_INCR \<equiv> 105"

record aofInfo =
  file_name :: bytes
  file_seq :: int
  file_type :: byte

record aofManifest =
  base_aof_info :: "aofInfo option"
  incr_aof_list :: "aofInfo list"
  history_aof_list :: "aofInfo list"
  curr_base_file_seq :: int
  curr_incr_file_seq :: int
  dirty :: bool

definition aofManifestCreate :: aofManifest where
  "aofManifestCreate = \<lparr>base_aof_info = None, incr_aof_list = [], history_aof_list = [],
     curr_base_file_seq = 0, curr_incr_file_seq = 0, dirty = False\<rparr>"

text \<open>The settings the file names depend on.\<close>

record aof_config =
  aof_filename :: bytes
  aof_use_rdb_preamble :: bool

text \<open>\<open>.base\<close>, \<open>.incr\<close>, \<open>.rdb\<close>, \<open>.aof\<close>, \<open>.manifest\<close>, \<open>temp-\<close>; the keys \<open>file\<close>, \<open>seq\<close>, \<open>type\<close>.\<close>

definition BASE_FILE_SUFFIX :: bytes where "BASE_FILE_SUFFIX = [46, 98, 97, 115, 101]"
definition INCR_FILE_SUFFIX :: bytes where "INCR_FILE_SUFFIX = [46, 105, 110, 99, 114]"
definition RDB_FORMAT_SUFFIX :: bytes where "RDB_FORMAT_SUFFIX = [46, 114, 100, 98]"
definition AOF_FORMAT_SUFFIX :: bytes where "AOF_FORMAT_SUFFIX = [46, 97, 111, 102]"
definition MANIFEST_NAME_SUFFIX :: bytes where "MANIFEST_NAME_SUFFIX = [46, 109, 97, 110, 105, 102, 101, 115, 116]"
definition TEMP_FILE_NAME_PREFIX :: bytes where "TEMP_FILE_NAME_PREFIX = [116, 101, 109, 112, 45]"

definition AOF_MANIFEST_KEY_FILE_NAME :: bytes where "AOF_MANIFEST_KEY_FILE_NAME = [102, 105, 108, 101]"
definition AOF_MANIFEST_KEY_FILE_SEQ :: bytes where "AOF_MANIFEST_KEY_FILE_SEQ = [115, 101, 113]"
definition AOF_MANIFEST_KEY_FILE_TYPE :: bytes where "AOF_MANIFEST_KEY_FILE_TYPE = [116, 121, 112, 101]"

section \<open>Printing\<close>

definition aofInfoFormat :: "bytes \<Rightarrow> aofInfo \<Rightarrow> bytes" where
  "aofInfoFormat buf ai =
     (let filename_repr = (if sdsneedsrepr (file_name ai) then sdscatrepr [] (file_name ai) else file_name ai)
      in buf @ AOF_MANIFEST_KEY_FILE_NAME @ [32] @ c_str filename_repr @ [32] @
         AOF_MANIFEST_KEY_FILE_SEQ @ [32] @ ll_repr (file_seq ai) @ [32] @
         AOF_MANIFEST_KEY_FILE_TYPE @ [32, file_type ai, 10])"

definition getAofManifestAsString :: "aofManifest \<Rightarrow> bytes" where
  "getAofManifestAsString am =
     (let buf = [];
          buf = (case base_aof_info am of None \<Rightarrow> buf | Some ai \<Rightarrow> aofInfoFormat buf ai);
          buf = foldl aofInfoFormat buf (history_aof_list am)
      in foldl aofInfoFormat buf (incr_aof_list am))"

definition getAofManifestFileName :: "aof_config \<Rightarrow> bytes" where
  "getAofManifestFileName cfg = aof_filename cfg @ MANIFEST_NAME_SUFFIX"

definition getTempAofManifestFileName :: "aof_config \<Rightarrow> bytes" where
  "getTempAofManifestFileName cfg = TEMP_FILE_NAME_PREFIX @ aof_filename cfg @ MANIFEST_NAME_SUFFIX"

definition getTempIncrAofName :: "aof_config \<Rightarrow> bytes" where
  "getTempIncrAofName cfg = TEMP_FILE_NAME_PREFIX @ aof_filename cfg @ INCR_FILE_SUFFIX"

section \<open>Loading\<close>

datatype manifest_error =
  MF_OPEN | MF_EMPTY | MF_READ | MF_LONG_LINE | MF_FORMAT | MF_PATH | MF_DUP_BASE | MF_NON_MONOTONIC | MF_TYPE

abbreviation (input) MANIFEST_MAX_LINE :: nat where "MANIFEST_MAX_LINE \<equiv> 1024"

definition pathIsBaseName :: "bytes \<Rightarrow> bool" where
  "pathIsBaseName path \<longleftrightarrow> strchr path 47 = None \<and> strchr path 92 = None"

text \<open>The fields of the zeroed \<open>aofInfo\<close> while they are filled in: a missing name is \<open>None\<close>.\<close>

type_synonym info_fields = "bytes option \<times> int \<times> byte"

fun manifest_fields :: "bytes list \<Rightarrow> info_fields \<Rightarrow> manifest_error + info_fields" where
  "manifest_fields (k # v # argv) (name, seq, ty) =
     (if strcaseeq k AOF_MANIFEST_KEY_FILE_NAME then
        (if \<not> pathIsBaseName (c_str v) then Inl MF_PATH else manifest_fields argv (Some (c_str v), seq, ty))
      else if strcaseeq k AOF_MANIFEST_KEY_FILE_SEQ then manifest_fields argv (name, strtoll v, ty)
      else if strcaseeq k AOF_MANIFEST_KEY_FILE_TYPE then manifest_fields argv (name, seq, c_hd v)
      else manifest_fields argv (name, seq, ty))"
| "manifest_fields _ ai = Inr ai"

definition manifest_add :: "aofInfo \<Rightarrow> aofManifest \<times> int \<Rightarrow> manifest_error + aofManifest \<times> int" where
  "manifest_add ai st =
     (case st of (am, maxseq) \<Rightarrow>
        if file_type ai = AOF_FILE_TYPE_BASE then
          (if base_aof_info am \<noteq> None then Inl MF_DUP_BASE
           else Inr (am\<lparr>base_aof_info := Some ai, curr_base_file_seq := file_seq ai\<rparr>, maxseq))
        else if file_type ai = AOF_FILE_TYPE_HIST then
          Inr (am\<lparr>history_aof_list := history_aof_list am @ [ai]\<rparr>, maxseq)
        else if file_type ai = AOF_FILE_TYPE_INCR then
          (if file_seq ai \<le> maxseq then Inl MF_NON_MONOTONIC
           else Inr (am\<lparr>incr_aof_list := incr_aof_list am @ [ai], curr_incr_file_seq := file_seq ai\<rparr>, file_seq ai))
        else Inl MF_TYPE)"

definition manifest_line :: "bytes \<Rightarrow> aofManifest \<times> int \<Rightarrow> manifest_error + aofManifest \<times> int" where
  "manifest_line buf st =
     (if c_hd buf = 35 then Inr st
      else if strchr buf 10 = None then Inl MF_LONG_LINE
      else
        let line = sdstrim (c_str buf) [32, 9, 13, 10] in
        if length line = 0 then Inl MF_FORMAT
        else
          (case sdssplitargs line of
             None \<Rightarrow> Inl MF_FORMAT
           | Some argv \<Rightarrow>
               if length argv < 6 \<or> length argv mod 2 \<noteq> 0 then Inl MF_FORMAT
               else
                 (case manifest_fields argv (None, 0, 0) of
                    Inl e \<Rightarrow> Inl e
                  | Inr (None, _, _) \<Rightarrow> Inl MF_FORMAT
                  | Inr (Some name, seq, ty) \<Rightarrow>
                      if seq = 0 \<or> ty = 0 then Inl MF_FORMAT
                      else manifest_add \<lparr>file_name = name, file_seq = seq, file_type = ty\<rparr> st)))"

function manifest_lines :: "cfile \<Rightarrow> nat \<Rightarrow> aofManifest \<times> int \<Rightarrow> manifest_error + aofManifest" where
  "manifest_lines fp linenum st =
     (case fgets (MANIFEST_MAX_LINE + 1) fp of
        None \<Rightarrow> if f_err fp then Inl MF_READ else if linenum = 0 then Inl MF_EMPTY else Inr (fst st)
      | Some (buf, fp') \<Rightarrow>
          (case manifest_line buf st of
             Inl e \<Rightarrow> Inl e
           | Inr st' \<Rightarrow> manifest_lines fp' (linenum + 1) st'))"
  by pat_completeness auto
termination manifest_lines
  by (relation "measure (\<lambda>(fp, _). length (f_rest fp))") (auto dest: fgets_shrinks [rotated])

declare manifest_lines.simps [simp del]

text \<open>The file is \<open>None\<close> when it cannot be opened.\<close>

definition aofLoadManifestFromFile :: "cfile option \<Rightarrow> manifest_error + aofManifest" where
  "aofLoadManifestFromFile fp =
     (case fp of None \<Rightarrow> Inl MF_OPEN | Some fp \<Rightarrow> manifest_lines fp 0 (aofManifestCreate, 0))"

section \<open>Operations\<close>

definition base_file_name :: "aof_config \<Rightarrow> int \<Rightarrow> bytes" where
  "base_file_name cfg seq = aof_filename cfg @ [46] @ ll_repr seq @ BASE_FILE_SUFFIX @
     (if aof_use_rdb_preamble cfg then RDB_FORMAT_SUFFIX else AOF_FORMAT_SUFFIX)"

definition incr_file_name :: "aof_config \<Rightarrow> int \<Rightarrow> bytes" where
  "incr_file_name cfg seq = aof_filename cfg @ [46] @ ll_repr seq @ INCR_FILE_SUFFIX @ AOF_FORMAT_SUFFIX"

definition getNewBaseFileNameAndMarkPreAsHistory ::
  "aof_config \<Rightarrow> aofManifest \<Rightarrow> (aofManifest \<times> bytes) option" where
  "getNewBaseFileNameAndMarkPreAsHistory cfg am =
     do { am \<leftarrow> (case base_aof_info am of
            None \<Rightarrow> Some am
          | Some ai \<Rightarrow>
              if file_type ai = AOF_FILE_TYPE_BASE
              then Some (am\<lparr>history_aof_list := ai\<lparr>file_type := AOF_FILE_TYPE_HIST\<rparr> # history_aof_list am\<rparr>)
              else None);
          let seq = curr_base_file_seq am + 1;
          let name = base_file_name cfg seq;
          let ai = \<lparr>file_name = name, file_seq = seq, file_type = AOF_FILE_TYPE_BASE\<rparr>;
          Some (am\<lparr>base_aof_info := Some ai, curr_base_file_seq := seq, dirty := True\<rparr>, name) }"

definition getNewIncrAofName :: "aof_config \<Rightarrow> aofManifest \<Rightarrow> aofManifest \<times> bytes" where
  "getNewIncrAofName cfg am =
     (let seq = curr_incr_file_seq am + 1;
          name = incr_file_name cfg seq;
          ai = \<lparr>file_name = name, file_seq = seq, file_type = AOF_FILE_TYPE_INCR\<rparr>
      in (am\<lparr>incr_aof_list := incr_aof_list am @ [ai], curr_incr_file_seq := seq, dirty := True\<rparr>, name))"

definition getLastIncrAofName :: "aof_config \<Rightarrow> aofManifest \<Rightarrow> aofManifest \<times> bytes" where
  "getLastIncrAofName cfg am =
     (if length (incr_aof_list am) = 0 then getNewIncrAofName cfg am
      else (am, file_name (List.last (incr_aof_list am))))"

text \<open>
  The loop over the incremental files from the tail: each one becomes a history file at the head of the history.
  The argument is the reversed list of the files that are moved.
\<close>

fun mark_history :: "aofInfo list \<Rightarrow> aofInfo list \<Rightarrow> aofInfo list option" where
  "mark_history [] hist = Some hist"
| "mark_history (ai # incrs) hist =
     (if file_type ai = AOF_FILE_TYPE_INCR
      then mark_history incrs (ai\<lparr>file_type := AOF_FILE_TYPE_HIST\<rparr> # hist) else None)"

text \<open>\<open>fd_open\<close> is \<open>server.aof_fd != -1\<close>.\<close>

definition markRewrittenIncrAofAsHistory :: "bool \<Rightarrow> aofManifest \<Rightarrow> aofManifest option" where
  "markRewrittenIncrAofAsHistory fd_open am =
     (if incr_aof_list am = [] then Some am
      else
        let li = List.rev (incr_aof_list am);
            kept = (if fd_open then [hd li] else []);
            moved = (if fd_open then tl li else li)
        in do { hist \<leftarrow> mark_history moved (history_aof_list am);
                Some (am\<lparr>incr_aof_list := kept, history_aof_list := hist, dirty := True\<rparr>) })"

section \<open>A printed manifest is loaded back\<close>

definition name_ok :: "bytes \<Rightarrow> bool" where
  "name_ok name \<longleftrightarrow> name \<noteq> [] \<and> set name \<inter> {0, 39, 47, 92} = {}"

definition info_ok :: "byte \<Rightarrow> aofInfo \<Rightarrow> bool" where
  "info_ok ty ai \<longleftrightarrow> name_ok (file_name ai) \<and> file_type ai = ty \<and> 0 < file_seq ai \<and> is_int64 (file_seq ai)
     \<and> length (aofInfoFormat [] ai) \<le> MANIFEST_MAX_LINE"

definition name_repr :: "bytes \<Rightarrow> bytes" where
  "name_repr name = (if sdsneedsrepr name then sdscatrepr [] name else name)"

definition info_body :: "aofInfo \<Rightarrow> bytes" where
  "info_body ai = AOF_MANIFEST_KEY_FILE_NAME @ 32 # name_repr (file_name ai) @ 32 #
     AOF_MANIFEST_KEY_FILE_SEQ @ 32 # ll_repr (file_seq ai) @ 32 # AOF_MANIFEST_KEY_FILE_TYPE @ [32, file_type ai]"

lemmas manifest_keys = AOF_MANIFEST_KEY_FILE_NAME_def AOF_MANIFEST_KEY_FILE_SEQ_def AOF_MANIFEST_KEY_FILE_TYPE_def

lemma name_repr_chars: "name_ok name \<Longrightarrow> c \<in> set (name_repr name) \<Longrightarrow> c \<noteq> 0 \<and> c \<noteq> 10"
  using sdscatrepr_chars [of c name] not_needsrepr_plain [of name] plain_char_neq [of c]
  by (auto simp: name_repr_def name_ok_def list_all_iff split: if_splits)

lemma aofInfoFormat_append: "aofInfoFormat buf ai = buf @ aofInfoFormat [] ai"
  by (simp add: aofInfoFormat_def Let_def)

lemma aofInfoFormat_body: "name_ok (file_name ai) \<Longrightarrow> aofInfoFormat [] ai = info_body ai @ [10]"
proof -
  assume "name_ok (file_name ai)"
  then have "c_str (name_repr (file_name ai)) = name_repr (file_name ai)"
    using name_repr_chars by (intro c_str_no_nul) blast
  then show ?thesis by (simp add: aofInfoFormat_def info_body_def name_repr_def Let_def)
qed

lemma splitargs_name_repr:
  assumes "name_ok name"
  shows "splitargs_loop (name_repr name @ 32 # rest) v = splitargs_loop rest (v @ [name])"
proof (cases "sdsneedsrepr name")
  case True
  then show ?thesis
    using splitargs_repr [of "32 # rest" name v]
    by (simp add: name_repr_def quote_end_ok_def isspace_def splitargs_space)
next
  case False
  then show ?thesis
    using assms splitargs_plain [of "32 # rest" name v] not_needsrepr_plain [of name]
    by (auto simp: name_repr_def name_ok_def)
qed

lemma sdssplitargs_info_body:
  assumes "name_ok (file_name ai)" "plain_char (file_type ai)"
  shows "sdssplitargs (info_body ai) =
    Some [AOF_MANIFEST_KEY_FILE_NAME, file_name ai, AOF_MANIFEST_KEY_FILE_SEQ, ll_repr (file_seq ai),
          AOF_MANIFEST_KEY_FILE_TYPE, [file_type ai]]"
proof -
  have keys: "list_all plain_char AOF_MANIFEST_KEY_FILE_NAME" "list_all plain_char AOF_MANIFEST_KEY_FILE_SEQ"
      "list_all plain_char AOF_MANIFEST_KEY_FILE_TYPE"
      "AOF_MANIFEST_KEY_FILE_NAME \<noteq> []" "AOF_MANIFEST_KEY_FILE_SEQ \<noteq> []" "AOF_MANIFEST_KEY_FILE_TYPE \<noteq> []"
    by (simp_all add: manifest_keys plain_char_def isspace_def)
  note plain = splitargs_plain [OF _ _ keys(1), where rest = "32 # _"]
    splitargs_plain [OF _ _ keys(2), where rest = "32 # _"]
    splitargs_plain [OF _ _ keys(3), where rest = "32 # _"]
    splitargs_plain [OF _ _ number_plain, where rest = "32 # _"]
  have ne: "ll_repr (file_seq ai) \<noteq> []" by (simp add: ll_repr_def)
  have last: "splitargs_loop [file_type ai] v = Some (v @ [[file_type ai]])" for v
    using splitargs_plain [of "[]" "[file_type ai]" v] assms(2) by (simp add: splitargs_nil)
  show ?thesis
    unfolding sdssplitargs_def info_body_def
    by (simp add: plain splitargs_name_repr assms(1) ne last keys)
qed

lemma manifest_keys_eq:
  "strcaseeq AOF_MANIFEST_KEY_FILE_NAME AOF_MANIFEST_KEY_FILE_NAME"
  "\<not> strcaseeq AOF_MANIFEST_KEY_FILE_SEQ AOF_MANIFEST_KEY_FILE_NAME"
  "strcaseeq AOF_MANIFEST_KEY_FILE_SEQ AOF_MANIFEST_KEY_FILE_SEQ"
  "\<not> strcaseeq AOF_MANIFEST_KEY_FILE_TYPE AOF_MANIFEST_KEY_FILE_NAME"
  "\<not> strcaseeq AOF_MANIFEST_KEY_FILE_TYPE AOF_MANIFEST_KEY_FILE_SEQ"
  "strcaseeq AOF_MANIFEST_KEY_FILE_TYPE AOF_MANIFEST_KEY_FILE_TYPE"
  by (simp_all add: strcaseeq_def c_str_def manifest_keys siptlw_def)

lemma manifest_fields_info:
  assumes "name_ok name" "is_int64 seq"
  shows "manifest_fields [AOF_MANIFEST_KEY_FILE_NAME, name, AOF_MANIFEST_KEY_FILE_SEQ, ll_repr seq,
      AOF_MANIFEST_KEY_FILE_TYPE, [ty]] (None, 0, 0) = Inr (Some name, seq, ty)"
proof -
  have "c_str name = name" using assms(1) by (intro c_str_no_nul) (simp add: name_ok_def)
  moreover have "pathIsBaseName name" using assms(1) by (auto simp: pathIsBaseName_def name_ok_def strchr_None_iff)
  moreover have "strtoll (ll_repr seq) = seq" using strtoll_ll_repr [OF assms(2), of "[]"]
    by (simp add: c_hd_def is_digit_def)
  ultimately show ?thesis by (simp add: manifest_keys_eq)
qed

lemma info_body_chars:
  assumes "name_ok (file_name ai)" "plain_char (file_type ai)"
  shows "0 \<notin> set (info_body ai)" "10 \<notin> set (info_body ai)"
  using name_repr_chars [OF assms(1)] plain_char_neq [OF assms(2)] number_plain [of "file_seq ai"] plain_char_neq
  by (fastforce simp: info_body_def manifest_keys list_all_iff)+

text \<open>One printed line is read as one call of \<open>manifest_add\<close>.\<close>

lemma manifest_line_info:
  assumes "info_ok ty ai" "ty \<in> {98, 104, 105}"
  shows "manifest_line (aofInfoFormat [] ai) st = manifest_add ai st"
proof -
  have ok: "name_ok (file_name ai)" "is_int64 (file_seq ai)" "file_seq ai \<noteq> 0" "file_type ai = ty"
    using assms(1) by (auto simp: info_ok_def)
  have ty: "plain_char (file_type ai)" "file_type ai \<noteq> 0" "strchr [32, 9, 13, 10] (file_type ai) = None"
    using assms(2) ok(4) by (auto simp: plain_char_def isspace_def strchr_def c_str_def)
  note fmt = aofInfoFormat_body [OF ok(1)]
  note chars = info_body_chars [OF ok(1) ty(1)]
  have "strchr (info_body ai @ [10]) 10 \<noteq> None" using chars by (simp add: strchr_None_iff)
  then obtain nl where "strchr (info_body ai @ [10]) 10 = Some nl" by blast
  moreover have "c_str (info_body ai @ [10]) = info_body ai @ [10]" using chars by (intro c_str_no_nul) simp
  moreover have "sdstrim (info_body ai @ [10]) [32, 9, 13, 10] = info_body ai"
    using sdstrim_end [of "[32, 9, 13, 10]" "butlast (info_body ai)" "file_type ai" 10] ty(3)
    by (simp add: info_body_def manifest_keys strchr_def c_str_def butlast_append)
  moreover have "c_hd (info_body ai @ [10]) = 102" "info_body ai \<noteq> []" by (simp_all add: info_body_def manifest_keys)
  ultimately have "manifest_line (aofInfoFormat [] ai) st =
      manifest_add \<lparr>file_name = file_name ai, file_seq = file_seq ai, file_type = file_type ai\<rparr> st"
    using ok(1-3) ty fmt
    by (simp add: manifest_line_def sdssplitargs_info_body manifest_fields_info Let_def del: manifest_fields.simps)
  moreover have "\<lparr>file_name = file_name ai, file_seq = file_seq ai, file_type = file_type ai\<rparr> = ai" by simp
  ultimately show ?thesis by (simp only:)
qed

lemma manifest_lines_info:
  assumes "info_ok ty ai" "ty \<in> {98, 104, 105}"
  shows "manifest_lines (f\<lparr>f_rest := aofInfoFormat [] ai @ rest\<rparr>) n st =
    (case manifest_add ai st of Inl e \<Rightarrow> Inl e | Inr st' \<Rightarrow> manifest_lines (f\<lparr>f_rest := rest\<rparr>) (n + 1) st')"
proof -
  have ok: "name_ok (file_name ai)" "plain_char (file_type ai)"
    using assms by (auto simp: info_ok_def plain_char_def isspace_def)
  have "length (info_body ai) + 1 < MANIFEST_MAX_LINE + 1"
    using assms(1) aofInfoFormat_body [OF ok(1)] by (simp add: info_ok_def)
  from fgets_line [OF info_body_chars(2) [OF ok] this, where f = f and rest = rest]
  show ?thesis
    using manifest_line_info [OF assms] aofInfoFormat_body [OF ok(1)]
    by (simp add: manifest_lines.simps [of "f\<lparr>f_rest := info_body ai @ 10 # rest\<rparr>"])
qed

lemma manifest_lines_hist:
  assumes "list_all (info_ok 104) ais"
  shows "manifest_lines (f\<lparr>f_rest := concat (map (aofInfoFormat []) ais) @ rest\<rparr>) n (am, mx) =
    manifest_lines (f\<lparr>f_rest := rest\<rparr>) (n + length ais) (am\<lparr>history_aof_list := history_aof_list am @ ais\<rparr>, mx)"
  using assms
proof (induction ais arbitrary: n am)
  case (Cons ai ais)
  then have "file_type ai = 104" by (simp add: info_ok_def)
  then show ?case
    using Cons manifest_lines_info [of 104 ai, where f = f and rest = "concat (map (aofInfoFormat []) ais) @ rest" and n = n and st = "(am, mx)"]
    by (simp add: manifest_add_def)
qed simp

lemma manifest_lines_incr:
  assumes "list_all (info_ok 105) ais" "sorted_wrt (<) (mx # map file_seq ais)"
  shows "manifest_lines (f\<lparr>f_rest := concat (map (aofInfoFormat []) ais) @ rest\<rparr>) n (am, mx) =
    manifest_lines (f\<lparr>f_rest := rest\<rparr>) (n + length ais)
      (am\<lparr>incr_aof_list := incr_aof_list am @ ais,
          curr_incr_file_seq := (if ais = [] then curr_incr_file_seq am else file_seq (List.last ais))\<rparr>,
       if ais = [] then mx else file_seq (List.last ais))"
  using assms
proof (induction ais arbitrary: n am mx)
  case (Cons ai ais)
  then have "file_type ai = 105" "mx < file_seq ai" by (simp_all add: info_ok_def)
  then show ?case
    using Cons manifest_lines_info [of 105 ai, where f = f and rest = "concat (map (aofInfoFormat []) ais) @ rest" and n = n and st = "(am, mx)"]
    by (simp add: manifest_add_def)
qed simp

definition manifest_ok :: "aofManifest \<Rightarrow> bool" where
  "manifest_ok am \<longleftrightarrow>
     (case base_aof_info am of None \<Rightarrow> True | Some ai \<Rightarrow> info_ok AOF_FILE_TYPE_BASE ai)
     \<and> list_all (info_ok AOF_FILE_TYPE_HIST) (history_aof_list am)
     \<and> list_all (info_ok AOF_FILE_TYPE_INCR) (incr_aof_list am)
     \<and> sorted_wrt (<) (map file_seq (incr_aof_list am))"

definition manifest_files :: "aofManifest \<Rightarrow> aofInfo list" where
  "manifest_files am = (case base_aof_info am of None \<Rightarrow> [] | Some ai \<Rightarrow> [ai]) @ history_aof_list am @ incr_aof_list am"

text \<open>What is left of a manifest once it went through the disk: the numbers come from the files in use.\<close>

definition manifest_reload :: "aofManifest \<Rightarrow> aofManifest" where
  "manifest_reload am = am\<lparr>
     curr_base_file_seq := (case base_aof_info am of None \<Rightarrow> 0 | Some ai \<Rightarrow> file_seq ai),
     curr_incr_file_seq := (if incr_aof_list am = [] then 0 else file_seq (List.last (incr_aof_list am))),
     dirty := False\<rparr>"

lemma foldl_aofInfoFormat: "foldl aofInfoFormat buf ais = buf @ concat (map (aofInfoFormat []) ais)"
proof (induction ais arbitrary: buf)
  case (Cons ai ais)
  then show ?case using aofInfoFormat_append [of buf ai] by simp
qed simp

lemma getAofManifestAsString_concat:
  "getAofManifestAsString am = concat (map (aofInfoFormat []) (manifest_files am))"
  by (simp add: getAofManifestAsString_def manifest_files_def foldl_aofInfoFormat Let_def split: option.split)

lemma manifest_lines_end: "0 < n \<Longrightarrow> \<not> f_err f \<Longrightarrow> manifest_lines (f\<lparr>f_rest := []\<rparr>) n (am, mx) = Inr am"
  by (simp add: manifest_lines.simps [of "f\<lparr>f_rest := []\<rparr>"] fgets_def)

lemma load_printed_manifest:
  assumes "manifest_ok am" "manifest_files am \<noteq> []"
  shows "aofLoadManifestFromFile (Some \<lparr>f_rest = getAofManifestAsString am, f_err = False\<rparr>) = Inr (manifest_reload am)"
proof -
  let ?f = "\<lparr>f_rest = [], f_err = False\<rparr>"
  let ?hist = "concat (map (aofInfoFormat []) (history_aof_list am))"
  let ?incr = "concat (map (aofInfoFormat []) (incr_aof_list am))"
  define am0 where "am0 = (case base_aof_info am of None \<Rightarrow> aofManifestCreate
    | Some ai \<Rightarrow> aofManifestCreate\<lparr>base_aof_info := Some ai, curr_base_file_seq := file_seq ai\<rparr>)"
  define n0 :: nat where "n0 = (case base_aof_info am of None \<Rightarrow> 0 | Some ai \<Rightarrow> 1)"
  have fp: "\<lparr>f_rest = getAofManifestAsString am, f_err = False\<rparr> = ?f\<lparr>f_rest := getAofManifestAsString am\<rparr>" by simp
  have base: "manifest_lines (?f\<lparr>f_rest := getAofManifestAsString am\<rparr>) 0 (aofManifestCreate, 0) =
      manifest_lines (?f\<lparr>f_rest := ?hist @ ?incr @ []\<rparr>) n0 (am0, 0)"
  proof (cases "base_aof_info am")
    case None
    then show ?thesis by (simp add: getAofManifestAsString_concat manifest_files_def am0_def n0_def)
  next
    case (Some ai)
    then have ok: "info_ok 98 ai" using assms(1) by (simp add: manifest_ok_def)
    then show ?thesis
      using Some manifest_lines_info [OF ok, where f = ?f and rest = "?hist @ ?incr" and n = 0 and st = "(aofManifestCreate, 0)"]
      by (simp add: getAofManifestAsString_concat manifest_files_def am0_def n0_def manifest_add_def
          aofManifestCreate_def info_ok_def)
  qed
  have ok: "list_all (info_ok 104) (history_aof_list am)" "list_all (info_ok 105) (incr_aof_list am)"
      "sorted_wrt (<) (0 # map file_seq (incr_aof_list am))"
    using assms(1) by (auto simp: manifest_ok_def info_ok_def list_all_iff)
  have "0 < n0 + length (history_aof_list am) + length (incr_aof_list am)"
    using assms(2) by (auto simp: n0_def manifest_files_def split: option.splits)
  from manifest_lines_end [OF this, of ?f] show ?thesis
    unfolding aofLoadManifestFromFile_def fp
    by (simp add: base [simplified] manifest_lines_hist [OF ok(1), where f = ?f, simplified]
        manifest_lines_incr [OF ok(2,3), where f = ?f and rest = "[]", simplified])
      (simp add: am0_def aofManifestCreate_def manifest_reload_def split: option.split)
qed

text \<open>
  \<^bold>\<open>C11\<close> A manifest in memory whose files have plain base names, positive sequence numbers and lines that fit the
  buffer is loaded back as it was written, file names that need quotes included: same base, history and incremental
  files in the same order, the sequence numbers taken from the files in use.
\<close>

theorem manifest_roundtrip:
  assumes "manifest_ok am" "manifest_files am \<noteq> []"
  shows "aofLoadManifestFromFile (Some \<lparr>f_rest = getAofManifestAsString am, f_err = False\<rparr>) = Inr (manifest_reload am)"
  using load_printed_manifest [OF assms] .

text \<open>A manifest with a blank in a file name.\<close>

definition ex_quoted :: aofManifest where
  "ex_quoted = aofManifestCreate\<lparr>
     base_aof_info := Some \<lparr>file_name = [97, 32, 98], file_seq = 2, file_type = 98\<rparr>,
     incr_aof_list := [\<lparr>file_name = [99], file_seq = 1, file_type = 105\<rparr>, \<lparr>file_name = [100], file_seq = 4, file_type = 105\<rparr>]\<rparr>"

theorem manifest_roundtrip_witness:
  "manifest_ok ex_quoted
   \<and> aofLoadManifestFromFile (Some \<lparr>f_rest = getAofManifestAsString ex_quoted, f_err = False\<rparr>) = Inr (manifest_reload ex_quoted)"
proof -
  have "manifest_ok ex_quoted" "manifest_files ex_quoted \<noteq> []" by code_simp+
  then show ?thesis using manifest_roundtrip by blast
qed

text \<open>
  \<open>sdsneedsrepr\<close> does not ask for quotes around a single quote, which \<open>sdssplitargs\<close> reads as an opening quote: the
  server cannot load the manifest it wrote for such a file name.
\<close>

lemma manifest_single_quote:
  "aofLoadManifestFromFile (Some \<lparr>f_rest = getAofManifestAsString (aofManifestCreate\<lparr>
     base_aof_info := Some \<lparr>file_name = [97, 39, 98], file_seq = 1, file_type = 98\<rparr>\<rparr>), f_err = False\<rparr>) = Inl MF_FORMAT"
  by code_simp

end
