(* ===== verification/Aof_Files.thy ===== *)
theory Aof_Files
  imports Aof_Manifest
begin

text \<open>
  The life of the files behind the append only file (\<open>aof.c\<close>): writing the manifest through a temporary file,
  opening a new incremental file, the end of a background rewrite, the removal of history files and the start of the
  server. The directory is a map from paths to contents as the kernel shows it to a process that starts now; every
  system call that changes it appends the new map to a trace, so the trace holds what a crash at any
  point would leave behind. Whether a system call succeeds is a parameter (\<open>manifest_io\<close>, \<open>rewrite_io\<close>).
\<close>

section \<open>State\<close>

type_synonym disk = "bytes \<Rightarrow> bytes option"

datatype aof_state = AOF_OFF | AOF_ON | AOF_WAIT_REWRITE

record aof_server =
  aof_cfg :: aof_config
  aof_dirname :: bytes
  aof_manifest :: aofManifest
  aof_state :: aof_state
  aof_fd_open :: bool
  aof_disable_auto_gc :: bool
  child_pid :: int
  aof_buf :: bytes
  aof_lastbgrewrite_ok :: bool
  stat_aofrw_consecutive_failures :: nat
  aof_rewrite_scheduled :: bool
  aof_current_size :: nat
  aof_rewrite_base_size :: nat
  aof_last_incr_size :: nat
  aof_last_incr_fsync_offset :: nat
  fsynced_reploff :: int
  fsynced_reploff_pending :: int
  aof_rewrite_time_start :: int
  aof_rewrite_time_last :: int
  sv_disk :: disk
  sv_trace :: "disk list"

definition set_disk :: "disk \<Rightarrow> aof_server \<Rightarrow> aof_server" where
  "set_disk d s = s\<lparr>sv_disk := d, sv_trace := sv_trace s @ [d]\<rparr>"

definition makePath :: "bytes \<Rightarrow> bytes \<Rightarrow> bytes" where
  "makePath path filename = path @ [47] @ filename"

definition aof_path :: "aof_server \<Rightarrow> bytes \<Rightarrow> bytes" where
  "aof_path s filename = makePath (aof_dirname s) filename"

section \<open>System calls\<close>

datatype write_res = W_OK nat | W_EINTR | W_ERR

text \<open>The outcomes of the calls that write a manifest; writes after the listed ones write all that is left.\<close>

record manifest_io =
  io_open_ok :: bool
  io_writes :: "write_res list"
  io_fsync_ok :: bool
  io_rename_ok :: bool
  io_fsync_dir_ok :: bool

text \<open>\<open>rename\<close> fails when the old path does not exist.\<close>

definition sys_rename :: "bool \<Rightarrow> bytes \<Rightarrow> bytes \<Rightarrow> aof_server \<Rightarrow> aof_server \<times> bool" where
  "sys_rename ok old new s =
     (case sv_disk s old of
        None \<Rightarrow> (s, False)
      | Some c \<Rightarrow> if ok then (set_disk ((sv_disk s)(old := None, new := Some c)) s, True) else (s, False))"

definition bg_unlink :: "(bytes \<Rightarrow> bool) \<Rightarrow> bytes \<Rightarrow> aof_server \<Rightarrow> aof_server" where
  "bg_unlink ok filename s =
     (if ok filename \<and> sv_disk s filename \<noteq> None then set_disk ((sv_disk s)(filename := None)) s else s)"

definition sys_append :: "bytes \<Rightarrow> bytes \<Rightarrow> aof_server \<Rightarrow> aof_server" where
  "sys_append path buf s =
     set_disk ((sv_disk s)(path := Some ((case sv_disk s path of None \<Rightarrow> [] | Some c \<Rightarrow> c) @ buf))) s"

section \<open>Writing the manifest\<close>

fun write_loop :: "write_res list \<Rightarrow> bytes \<Rightarrow> bytes \<Rightarrow> aof_server \<Rightarrow> aof_server \<times> bool" where
  "write_loop [] path buf s = (if buf = [] then (s, True) else (sys_append path buf s, True))"
| "write_loop (r # rs) path buf s =
     (if buf = [] then (s, True)
      else (case r of
              W_OK n \<Rightarrow> write_loop rs path (drop n buf) (sys_append path (take n buf) s)
            | W_EINTR \<Rightarrow> write_loop rs path buf s
            | W_ERR \<Rightarrow> (s, False)))"

definition writeAofManifestFile :: "manifest_io \<Rightarrow> bytes \<Rightarrow> aof_server \<Rightarrow> aof_server \<times> bool" where
  "writeAofManifestFile io buf s =
     (let am_filepath = aof_path s (getAofManifestFileName (aof_cfg s));
          tmp_am_filepath = aof_path s (getTempAofManifestFileName (aof_cfg s))
      in if \<not> io_open_ok io then (s, False)
         else
           let s = set_disk ((sv_disk s)(tmp_am_filepath := Some [])) s;
               (s, ok) = write_loop (io_writes io) tmp_am_filepath buf s
           in if \<not> ok then (s, False)
              else if \<not> io_fsync_ok io then (s, False)
              else
                let (s, ok) = sys_rename (io_rename_ok io) tmp_am_filepath am_filepath s
                in if \<not> ok then (s, False)
                   else if \<not> io_fsync_dir_ok io then (s, False)
                   else (s, True))"

definition persistAofManifest :: "manifest_io \<Rightarrow> aofManifest \<Rightarrow> aof_server \<Rightarrow> aofManifest \<times> aof_server \<times> bool" where
  "persistAofManifest io am s =
     (if \<not> dirty am then (am, s, True)
      else
        let (s, ok) = writeAofManifestFile io (getAofManifestAsString am) s
        in (if ok then am\<lparr>dirty := False\<rparr> else am, s, ok))"

section \<open>Removing history files\<close>

fun del_history :: "(bytes \<Rightarrow> bool) \<Rightarrow> aofInfo list \<Rightarrow> aof_server \<Rightarrow> aof_server option" where
  "del_history ok [] s = Some s"
| "del_history ok (ai # ais) s =
     (if file_type ai = AOF_FILE_TYPE_HIST
      then del_history ok ais (bg_unlink ok (aof_path s (file_name ai)) s) else None)"

definition aofDelHistoryFiles :: "(bytes \<Rightarrow> bool) \<Rightarrow> manifest_io \<Rightarrow> aof_server \<Rightarrow> (aof_server \<times> bool) option" where
  "aofDelHistoryFiles ok io s =
     (if aof_disable_auto_gc s \<or> history_aof_list (aof_manifest s) = [] then Some (s, True)
      else
        do { s \<leftarrow> del_history ok (history_aof_list (aof_manifest s)) s;
             let am = (aof_manifest s)\<lparr>history_aof_list := [], dirty := True\<rparr>;
             let (am, s, ret) = persistAofManifest io am s;
             Some (s\<lparr>aof_manifest := am\<rparr>, ret) })"

definition aofDelTempIncrAofFile :: "(bytes \<Rightarrow> bool) \<Rightarrow> aof_server \<Rightarrow> aof_server" where
  "aofDelTempIncrAofFile ok s = bg_unlink ok (aof_path s (getTempIncrAofName (aof_cfg s))) s"

text \<open>\<open>temp-rewriteaof-bg-<pid>.aof\<close> and \<open>temp-rewriteaof-<pid>.aof\<close> in the working directory.\<close>

definition rewrite_tmpfile :: "bool \<Rightarrow> int \<Rightarrow> bytes" where
  "rewrite_tmpfile bg pid =
     [116, 101, 109, 112, 45, 114, 101, 119, 114, 105, 116, 101, 97, 111, 102, 45] @
     (if bg then [98, 103, 45] else []) @ ll_repr pid @ AOF_FORMAT_SUFFIX"

definition aofRemoveTempFile :: "(bytes \<Rightarrow> bool) \<Rightarrow> int \<Rightarrow> aof_server \<Rightarrow> aof_server" where
  "aofRemoveTempFile ok childpid s = bg_unlink ok (rewrite_tmpfile False childpid) (bg_unlink ok (rewrite_tmpfile True childpid) s)"

section \<open>Opening incremental files\<close>

text \<open>\<open>open_ok\<close>: the new file could be opened (\<open>O_TRUNC|O_CREAT\<close>).\<close>

definition openNewIncrAofForAppend :: "bool \<Rightarrow> manifest_io \<Rightarrow> aof_server \<Rightarrow> aof_server \<times> bool" where
  "openNewIncrAofForAppend open_ok io s =
     (if aof_state s = AOF_OFF then (s, True)
      else
        let (temp_am, new_aof_name) =
              (if aof_state s = AOF_WAIT_REWRITE then (None, getTempIncrAofName (aof_cfg s))
               else (case getNewIncrAofName (aof_cfg s) (aof_manifest s) of (am, name) \<Rightarrow> (Some am, name)))
        in if \<not> open_ok then (s, False)
           else
             let s = set_disk ((sv_disk s)(aof_path s new_aof_name := Some [])) s;
                 (temp_am, s, ok) =
                   (case temp_am of
                      None \<Rightarrow> (None, s, True)
                    | Some am \<Rightarrow> (case persistAofManifest io am s of (am, s, ok) \<Rightarrow> (Some am, s, ok)))
             in if \<not> ok then (s, False)
                else
                  (s\<lparr>aof_fd_open := True, aof_last_incr_size := 0, aof_last_incr_fsync_offset := 0,
                     aof_manifest := (case temp_am of None \<Rightarrow> aof_manifest s | Some am \<Rightarrow> am)\<rparr>, True))"

section \<open>The end of a background rewrite\<close>

record rewrite_io =
  rw_rename_base_ok :: bool
  rw_rename_incr_ok :: bool
  rw_manifest :: manifest_io
  rw_manifest_del :: manifest_io
  rw_unlink_ok :: "bytes \<Rightarrow> bool"
  rw_time :: int

definition getAppendOnlyFileSize :: "bytes \<Rightarrow> aof_server \<Rightarrow> nat" where
  "getAppendOnlyFileSize filename s = (case sv_disk s (aof_path s filename) of None \<Rightarrow> 0 | Some c \<Rightarrow> length c)"

definition rewrite_failed :: "aof_server \<Rightarrow> aof_server" where
  "rewrite_failed s = s\<lparr>aof_lastbgrewrite_ok := False,
     stat_aofrw_consecutive_failures := stat_aofrw_consecutive_failures s + 1\<rparr>"

definition rewrite_done_ok :: "rewrite_io \<Rightarrow> bytes \<Rightarrow> aof_server \<Rightarrow> aof_server option" where
  "rewrite_done_ok io new_base_filename s =
     do { let s = (if aof_state s \<noteq> AOF_OFF
            then (let size = getAppendOnlyFileSize new_base_filename s + aof_last_incr_size s
                  in s\<lparr>aof_current_size := size, aof_rewrite_base_size := size\<rparr>)
            else s);
          (s, _) \<leftarrow> aofDelHistoryFiles (rw_unlink_ok io) (rw_manifest_del io) s;
          let s = s\<lparr>aof_lastbgrewrite_ok := True, stat_aofrw_consecutive_failures := 0\<rparr>;
          Some (if aof_state s = AOF_WAIT_REWRITE
                then s\<lparr>aof_state := AOF_ON, fsynced_reploff := fsynced_reploff_pending s\<rparr> else s) }"

text \<open>The temporary incremental file becomes a real one when the server waited for this rewrite.\<close>

definition rewrite_incr :: "rewrite_io \<Rightarrow> aofManifest \<Rightarrow> aof_server \<Rightarrow> aofManifest \<times> bytes option \<times> aof_server \<times> bool" where
  "rewrite_incr io temp_am s =
     (if aof_state s = AOF_WAIT_REWRITE then
        let temp_incr_filepath = aof_path s (getTempIncrAofName (aof_cfg s));
            (temp_am, new_incr_filename) = getNewIncrAofName (aof_cfg s) temp_am;
            new_incr_filepath = aof_path s new_incr_filename;
            (s, ok) = sys_rename (rw_rename_incr_ok io) temp_incr_filepath new_incr_filepath s
        in (temp_am, Some new_incr_filepath, s, ok)
      else (temp_am, None, s, True))"

text \<open>The manifest with the new files is written and put into use, or the new files are removed again.\<close>

definition rewrite_commit ::
  "rewrite_io \<Rightarrow> bytes \<Rightarrow> bytes option \<Rightarrow> aofManifest \<Rightarrow> aof_server \<Rightarrow> aof_server option" where
  "rewrite_commit io new_base_filename new_incr_filepath temp_am s =
     do { temp_am \<leftarrow> markRewrittenIncrAofAsHistory (aof_fd_open s) temp_am;
          let (temp_am, s, ok) = persistAofManifest (rw_manifest io) temp_am s;
          if \<not> ok then
            (let s = bg_unlink (rw_unlink_ok io) (aof_path s new_base_filename) s;
                 s = (case new_incr_filepath of None \<Rightarrow> s | Some p \<Rightarrow> bg_unlink (rw_unlink_ok io) p s)
             in Some (rewrite_failed s))
          else rewrite_done_ok io new_base_filename (s\<lparr>aof_manifest := temp_am\<rparr>) }"

definition rewrite_done :: "rewrite_io \<Rightarrow> aof_server \<Rightarrow> aof_server option" where
  "rewrite_done io s =
     do { (temp_am, new_base_filename) \<leftarrow> getNewBaseFileNameAndMarkPreAsHistory (aof_cfg s) (aof_manifest s);
          let new_base_filepath = aof_path s new_base_filename;
          let (s, ok) = sys_rename (rw_rename_base_ok io) (rewrite_tmpfile True (child_pid s)) new_base_filepath s;
          if \<not> ok then Some (rewrite_failed s)
          else do {
            let (temp_am, new_incr_filepath, s, ok) = rewrite_incr io temp_am s;
            if \<not> ok then Some (rewrite_failed (bg_unlink (rw_unlink_ok io) new_base_filepath s))
            else rewrite_commit io new_base_filename new_incr_filepath temp_am s } }"

definition rewrite_cleanup :: "rewrite_io \<Rightarrow> aof_server \<Rightarrow> aof_server" where
  "rewrite_cleanup io s =
     (let s = aofRemoveTempFile (rw_unlink_ok io) (child_pid s) s;
          s = (if aof_state s = AOF_WAIT_REWRITE
               then aofDelTempIncrAofFile (rw_unlink_ok io) (s\<lparr>aof_buf := []\<rparr>) else s);
          s = s\<lparr>aof_rewrite_time_last := rw_time io - aof_rewrite_time_start s, aof_rewrite_time_start := -1\<rparr>
      in if aof_state s = AOF_WAIT_REWRITE then s\<lparr>aof_rewrite_scheduled := True\<rparr> else s)"

text \<open>\<open>bysignal\<close> is 0 when the child was not killed; \<open>SIGUSR1\<close> is 10.\<close>

definition backgroundRewriteDoneHandler :: "rewrite_io \<Rightarrow> int \<Rightarrow> int \<Rightarrow> aof_server \<Rightarrow> aof_server option" where
  "backgroundRewriteDoneHandler io exitcode bysignal s =
     do { s \<leftarrow> (if bysignal = 0 \<and> exitcode = 0 then rewrite_done io s
               else if bysignal = 0 then Some (rewrite_failed s)
               else if bysignal \<noteq> 10 then Some (rewrite_failed s)
               else Some s);
          Some (rewrite_cleanup io s) }"

section \<open>Server start\<close>

text \<open>
  \<open>rewriteAppendOnlyFile\<close> is not modelled: the parameter \<open>rewritten\<close> is the contents it writes, \<open>None\<close> when it
  fails. An exit of the process is the left summand.
\<close>

record start_io =
  st_dir_ok :: bool
  st_rewritten :: "bytes option"
  st_open_ok :: bool
  st_manifest :: manifest_io

datatype start_error = START_MANIFEST manifest_error | START_DIR | START_BASE | START_OPEN | START_PERSIST

definition aofLoadManifestFromDisk :: "aof_server \<Rightarrow> start_error + aof_server" where
  "aofLoadManifestFromDisk s =
     (case sv_disk s (aof_path s (getAofManifestFileName (aof_cfg s))) of
        None \<Rightarrow> Inr (s\<lparr>aof_manifest := aofManifestCreate\<rparr>)
      | Some text \<Rightarrow>
          (case aofLoadManifestFromFile (Some \<lparr>f_rest = text, f_err = False\<rparr>) of
             Inl e \<Rightarrow> Inl (START_MANIFEST e)
           | Inr am \<Rightarrow> Inr (s\<lparr>aof_manifest := am\<rparr>)))"

definition start_base :: "start_io \<Rightarrow> aof_server \<Rightarrow> (start_error + aof_server) option" where
  "start_base io s =
     (if base_aof_info (aof_manifest s) = None \<and> incr_aof_list (aof_manifest s) = [] then
        do { (am, base_name) \<leftarrow> getNewBaseFileNameAndMarkPreAsHistory (aof_cfg s) (aof_manifest s);
             Some (case st_rewritten io of
                     None \<Rightarrow> Inl START_BASE
                   | Some c \<Rightarrow>
                       let s = s\<lparr>aof_manifest := am\<rparr>
                       in Inr (set_disk ((sv_disk s)(aof_path s base_name := Some c)) s)) }
      else Some (Inr s))"

definition start_incr :: "start_io \<Rightarrow> aof_server \<Rightarrow> start_error + aof_server" where
  "start_incr io s =
     (let (am, aof_name) = getLastIncrAofName (aof_cfg s) (aof_manifest s);
          s = s\<lparr>aof_manifest := am\<rparr>
      in if \<not> st_open_ok io then Inl START_OPEN
         else
           let s = (sys_append (aof_path s aof_name) [] s)\<lparr>aof_fd_open := True\<rparr>;
               (am, s, ok) = persistAofManifest (st_manifest io) (aof_manifest s) s;
               s = s\<lparr>aof_manifest := am\<rparr>
           in if \<not> ok then Inl START_PERSIST
              else
                let size = getAppendOnlyFileSize aof_name s
                in Inr (s\<lparr>aof_last_incr_size := size, aof_last_incr_fsync_offset := size\<rparr>))"

definition aofOpenIfNeededOnServerStart :: "start_io \<Rightarrow> aof_server \<Rightarrow> (start_error + aof_server) option" where
  "aofOpenIfNeededOnServerStart io s =
     (if aof_state s \<noteq> AOF_ON then Some (Inr s)
      else if aof_fd_open s then None
      else if \<not> st_dir_ok io then Some (Inl START_DIR)
      else do { r \<leftarrow> start_base io s; Some (case r of Inl e \<Rightarrow> Inl e | Inr s \<Rightarrow> start_incr io s) })"

text \<open>
  The calls of \<open>main\<close> that manage these files. \<open>loadDataFromDisk\<close>, between the first two of them, reads the
  files named by the manifest and is not modelled here.
\<close>

definition aof_start ::
  "start_io \<Rightarrow> (bytes \<Rightarrow> bool) \<Rightarrow> manifest_io \<Rightarrow> aof_server \<Rightarrow> (start_error + aof_server) option" where
  "aof_start io unlink_ok del_io s =
     (case aofLoadManifestFromDisk s of
        Inl e \<Rightarrow> Some (Inl e)
      | Inr s \<Rightarrow>
          do { r \<leftarrow> aofOpenIfNeededOnServerStart io s;
               case r of
                 Inl e \<Rightarrow> Some (Inl e)
               | Inr s \<Rightarrow> do { (s, _) \<leftarrow> aofDelHistoryFiles unlink_ok del_io s; Some (Inr s) } })"

end
