(* ===== verification/Aof_Files_Props.thy ===== *)
theory Aof_Files_Props
  imports Aof_Files
begin

text \<open>
  What a crash can leave behind while the append only files change. \<open>aof_view\<close> is what a starting server would
  load from a directory: the contents of the base and incremental files its manifest names. While a background
  rewrite finishes, every directory that ever exists shows either the old files or the new ones. The one call
  whose failure breaks this is the \<open>fsync\<close> of the directory after the manifest was renamed into place.
\<close>

section \<open>File names\<close>

lemma strtoll_number_dot: "is_int64 n \<Longrightarrow> strtoll (ll_repr n @ 46 # rest) = n"
  by (rule strtoll_ll_repr) (simp_all add: is_digit_def)

lemma number_dot_cancel:
  assumes "ll_repr n @ 46 # xs = ll_repr m @ 46 # ys" "is_int64 n" "is_int64 m"
  shows "n = m \<and> xs = ys"
proof -
  have "n = m"
    using strtoll_number_dot [OF assms(2), of xs] strtoll_number_dot [OF assms(3), of ys] assms(1) by simp
  then show ?thesis using assms(1) by simp
qed

lemmas file_suffixes = BASE_FILE_SUFFIX_def INCR_FILE_SUFFIX_def RDB_FORMAT_SUFFIX_def AOF_FORMAT_SUFFIX_def
  MANIFEST_NAME_SUFFIX_def TEMP_FILE_NAME_PREFIX_def

lemma base_name_seq:
  "is_int64 n \<Longrightarrow> is_int64 m \<Longrightarrow> aof_filename c = aof_filename c' \<Longrightarrow>
    base_file_name c n = base_file_name c' m \<Longrightarrow> n = m"
  by (auto simp: base_file_name_def file_suffixes dest: number_dot_cancel ll_repr_inj split: if_splits)

lemma incr_name_seq: "is_int64 n \<Longrightarrow> is_int64 m \<Longrightarrow> incr_file_name c n = incr_file_name c m \<Longrightarrow> n = m"
  by (auto simp: incr_file_name_def file_suffixes dest: ll_repr_inj)

lemma base_incr_names:
  "is_int64 n \<Longrightarrow> is_int64 m \<Longrightarrow> aof_filename c = aof_filename c' \<Longrightarrow> base_file_name c n \<noteq> incr_file_name c' m"
  by (auto simp: base_file_name_def incr_file_name_def file_suffixes dest: number_dot_cancel split: if_splits)

text \<open>How a file of the manifest got its name: from an upgrade, as a base file, or as an incremental file.\<close>

definition info_named :: "aof_config \<Rightarrow> aofManifest \<Rightarrow> aofInfo \<Rightarrow> bool" where
  "info_named cfg am ai \<longleftrightarrow> 0 < file_seq ai \<and> is_int64 (file_seq ai) \<and>
     (file_name ai = aof_filename cfg
      \<or> (\<exists>pre\<in>{True, False}. file_name ai = base_file_name (cfg\<lparr>aof_use_rdb_preamble := pre\<rparr>) (file_seq ai))
          \<and> file_seq ai \<le> curr_base_file_seq am
      \<or> file_name ai = incr_file_name cfg (file_seq ai) \<and> file_seq ai \<le> curr_incr_file_seq am)"

lemma named_special:
  assumes "info_named cfg am ai"
  shows "file_name ai \<noteq> getAofManifestFileName cfg" "file_name ai \<noteq> getTempAofManifestFileName cfg"
    "file_name ai \<noteq> getTempIncrAofName cfg"
proof -
  have "file_name ai \<noteq> x" if "last x \<in> {114, 116}" "length (aof_filename cfg) < length x" for x
    using assms that
    by (auto simp: info_named_def base_file_name_def incr_file_name_def file_suffixes split: if_splits)
  then show "file_name ai \<noteq> getAofManifestFileName cfg" "file_name ai \<noteq> getTempAofManifestFileName cfg"
    "file_name ai \<noteq> getTempIncrAofName cfg"
    by (simp_all add: getAofManifestFileName_def getTempAofManifestFileName_def getTempIncrAofName_def file_suffixes)
qed

lemma named_fresh_base:
  assumes "info_named cfg am ai" "curr_base_file_seq am < n" "is_int64 n"
  shows "file_name ai \<noteq> base_file_name cfg n"
proof
  assume eq: "file_name ai = base_file_name cfg n"
  have "base_file_name cfg n \<noteq> aof_filename cfg" by (simp add: base_file_name_def)
  moreover have "base_file_name cfg n \<noteq> incr_file_name cfg (file_seq ai)"
    using assms by (intro base_incr_names) (auto simp: info_named_def)
  moreover have "file_seq ai = n" if "base_file_name (cfg\<lparr>aof_use_rdb_preamble := pre\<rparr>) (file_seq ai) = base_file_name cfg n" for pre
    using base_name_seq [OF _ _ _ that] assms by (simp add: info_named_def)
  ultimately show False using assms eq unfolding info_named_def by (metis linorder_not_less)
qed

lemma named_fresh_incr:
  assumes "info_named cfg am ai" "curr_incr_file_seq am < n" "is_int64 n"
  shows "file_name ai \<noteq> incr_file_name cfg n"
proof
  assume eq: "file_name ai = incr_file_name cfg n"
  have "incr_file_name cfg n \<noteq> aof_filename cfg" by (simp add: incr_file_name_def)
  moreover have "base_file_name (cfg\<lparr>aof_use_rdb_preamble := pre\<rparr>) (file_seq ai) \<noteq> incr_file_name cfg n" for pre
    using assms by (intro base_incr_names) (auto simp: info_named_def)
  moreover have "file_seq ai = n" if "incr_file_name cfg (file_seq ai) = incr_file_name cfg n"
    using incr_name_seq [OF _ _ that] assms by (simp add: info_named_def)
  ultimately show False using assms eq unfolding info_named_def by (metis linorder_not_less)
qed

lemma special_names:
  "getAofManifestFileName cfg \<noteq> getTempAofManifestFileName cfg" "getAofManifestFileName cfg \<noteq> getTempIncrAofName cfg"
  "getTempAofManifestFileName cfg \<noteq> getTempIncrAofName cfg"
  "base_file_name cfg n \<noteq> getAofManifestFileName cfg" "incr_file_name cfg n \<noteq> getAofManifestFileName cfg"
  "base_file_name cfg n \<noteq> getTempAofManifestFileName cfg" "incr_file_name cfg n \<noteq> getTempAofManifestFileName cfg"
  "base_file_name cfg n \<noteq> getTempIncrAofName cfg" "incr_file_name cfg n \<noteq> getTempIncrAofName cfg"
proof -
  have neq: "last x \<noteq> last y \<or> length x \<noteq> length y \<Longrightarrow> x \<noteq> y" for x y :: bytes by auto
  show "getAofManifestFileName cfg \<noteq> getTempAofManifestFileName cfg" "getAofManifestFileName cfg \<noteq> getTempIncrAofName cfg"
    "getTempAofManifestFileName cfg \<noteq> getTempIncrAofName cfg"
    "base_file_name cfg n \<noteq> getAofManifestFileName cfg" "incr_file_name cfg n \<noteq> getAofManifestFileName cfg"
    "base_file_name cfg n \<noteq> getTempAofManifestFileName cfg" "incr_file_name cfg n \<noteq> getTempAofManifestFileName cfg"
    "base_file_name cfg n \<noteq> getTempIncrAofName cfg" "incr_file_name cfg n \<noteq> getTempIncrAofName cfg"
    by (rule neq, simp add: getAofManifestFileName_def getTempAofManifestFileName_def getTempIncrAofName_def
        base_file_name_def incr_file_name_def file_suffixes)+
qed

lemma aof_path_inject [simp]: "aof_path s a = aof_path s b \<longleftrightarrow> a = b"
  by (simp add: aof_path_def makePath_def)

lemma rewrite_tmpfile_path [simp]: "rewrite_tmpfile bg pid \<noteq> aof_path s a" "aof_path s a \<noteq> rewrite_tmpfile bg pid"
proof -
  have "47 \<notin> set (ll_repr pid)" using ll_repr_chars [of 47 pid] by (auto simp: is_digit_def)
  then have "47 \<notin> set (rewrite_tmpfile bg pid)" by (auto simp: rewrite_tmpfile_def file_suffixes)
  moreover have "47 \<in> set (aof_path s a)" by (simp add: aof_path_def makePath_def)
  ultimately show "rewrite_tmpfile bg pid \<noteq> aof_path s a" "aof_path s a \<noteq> rewrite_tmpfile bg pid" by metis+
qed

section \<open>What a directory shows\<close>

definition used_files :: "aofManifest \<Rightarrow> aofInfo list" where
  "used_files am = (case base_aof_info am of None \<Rightarrow> [] | Some ai \<Rightarrow> [ai]) @ incr_aof_list am"

definition disk_manifest :: "aof_server \<Rightarrow> disk \<Rightarrow> aofManifest option" where
  "disk_manifest s d =
     (case d (aof_path s (getAofManifestFileName (aof_cfg s))) of
        None \<Rightarrow> Some aofManifestCreate
      | Some text \<Rightarrow>
          (case aofLoadManifestFromFile (Some \<lparr>f_rest = text, f_err = False\<rparr>) of
             Inl _ \<Rightarrow> None | Inr am \<Rightarrow> Some am))"

text \<open>
  The contents of the files that a server starting on this directory loads, in order; \<open>None\<close> if the manifest is
  broken or names a file that does not exist.
\<close>

definition aof_view :: "aof_server \<Rightarrow> disk \<Rightarrow> bytes list option" where
  "aof_view s d =
     (case disk_manifest s d of
        None \<Rightarrow> None
      | Some am \<Rightarrow> those (map (\<lambda>ai. d (aof_path s (file_name ai))) (used_files am)))"

definition same_env :: "aof_server \<Rightarrow> aof_server \<Rightarrow> bool" where
  "same_env s s' \<longleftrightarrow> aof_cfg s' = aof_cfg s \<and> aof_dirname s' = aof_dirname s"

lemma same_env_eq:
  assumes "same_env s s'"
  shows "aof_path s' = aof_path s" "disk_manifest s' = disk_manifest s" "aof_view s' = aof_view s"
proof -
  from assms obtain c n where e: "aof_cfg s = c" "aof_cfg s' = c" "aof_dirname s = n" "aof_dirname s' = n"
    by (simp add: same_env_def)
  show "aof_path s' = aof_path s" "disk_manifest s' = disk_manifest s" "aof_view s' = aof_view s"
    by (simp_all add: fun_eq_iff aof_view_def disk_manifest_def aof_path_def e cong: option.case_cong)
qed

text \<open>Only paths in \<open>X\<close> change on the way from one state to another, and nothing but the disk does.\<close>

definition changes :: "bytes set \<Rightarrow> aof_server \<Rightarrow> aof_server \<Rightarrow> bool" where
  "changes X s s' \<longleftrightarrow>
     s' = s\<lparr>sv_disk := sv_disk s', sv_trace := sv_trace s'\<rparr>
     \<and> (\<exists>ds. sv_trace s' = sv_trace s @ ds \<and> (\<forall>d\<in>set ds. \<forall>p. p \<notin> X \<longrightarrow> d p = sv_disk s p))
     \<and> (\<forall>p. p \<notin> X \<longrightarrow> sv_disk s' p = sv_disk s p)"

lemma changes_refl [simp]: "changes X s s"
  by (simp add: changes_def)

lemma changes_trans:
  assumes "changes X s s'" "changes X s' s''"
  shows "changes X s s''"
proof -
  from assms(1) obtain ds where a: "s' = s\<lparr>sv_disk := sv_disk s', sv_trace := sv_trace s'\<rparr>"
      "sv_trace s' = sv_trace s @ ds" "\<forall>d\<in>set ds. \<forall>p. p \<notin> X \<longrightarrow> d p = sv_disk s p"
      "\<forall>p. p \<notin> X \<longrightarrow> sv_disk s' p = sv_disk s p"
    unfolding changes_def by blast
  from assms(2) obtain ds' where b: "s'' = s'\<lparr>sv_disk := sv_disk s'', sv_trace := sv_trace s''\<rparr>"
      "sv_trace s'' = sv_trace s' @ ds'" "\<forall>d\<in>set ds'. \<forall>p. p \<notin> X \<longrightarrow> d p = sv_disk s' p"
      "\<forall>p. p \<notin> X \<longrightarrow> sv_disk s'' p = sv_disk s' p"
    unfolding changes_def by blast
  have "s'' = s\<lparr>sv_disk := sv_disk s'', sv_trace := sv_trace s''\<rparr>"
    by (subst b(1), subst a(1)) simp
  moreover have "sv_trace s'' = sv_trace s @ (ds @ ds')" using a b by simp
  moreover have "\<forall>d\<in>set (ds @ ds'). \<forall>p. p \<notin> X \<longrightarrow> d p = sv_disk s p" using a b by auto
  ultimately show ?thesis using a(4) b(4) unfolding changes_def by metis
qed

lemma changes_mono: "changes X s s' \<Longrightarrow> X \<subseteq> Y \<Longrightarrow> changes Y s s'"
  unfolding changes_def by (metis subset_iff)

lemma changes_set_disk: "(\<And>p. p \<notin> X \<Longrightarrow> d p = sv_disk s p) \<Longrightarrow> changes X s (set_disk d s)"
  by (auto simp: changes_def set_disk_def)

lemma set_disk_sel [simp]:
  "sv_disk (set_disk d s) = d" "sv_trace (set_disk d s) = sv_trace s @ [d]" "aof_cfg (set_disk d s) = aof_cfg s"
  "aof_dirname (set_disk d s) = aof_dirname s" "aof_manifest (set_disk d s) = aof_manifest s"
  "aof_path (set_disk d s) = aof_path s"
  by (auto simp: set_disk_def aof_path_def)

lemma changes_env:
  assumes "changes X s s'"
  shows "same_env s s'" "aof_manifest s' = aof_manifest s" "aof_state s' = aof_state s"
    "aof_fd_open s' = aof_fd_open s" "child_pid s' = child_pid s" "aof_disable_auto_gc s' = aof_disable_auto_gc s"
proof -
  have eq: "s' = s\<lparr>sv_disk := sv_disk s', sv_trace := sv_trace s'\<rparr>" using assms by (simp add: changes_def)
  show "same_env s s'" unfolding same_env_def by (subst (1 2) eq) simp
  show "aof_manifest s' = aof_manifest s" "aof_state s' = aof_state s" "aof_fd_open s' = aof_fd_open s"
    "child_pid s' = child_pid s" "aof_disable_auto_gc s' = aof_disable_auto_gc s"
    by (subst eq, simp)+
qed

lemma changes_bg_unlink: "changes {p} s (bg_unlink ok p s)"
  by (auto simp: bg_unlink_def intro!: changes_set_disk split: if_splits)

lemma changes_append: "changes {p} s (sys_append p buf s)"
  by (auto simp: sys_append_def intro!: changes_set_disk split: if_splits)

lemma write_loop_changes: "write_loop rs path buf s = (s', ok) \<Longrightarrow> changes {path} s s'"
proof (induction rs path buf s rule: write_loop.induct)
  case (1 path buf s)
  then show ?case using changes_append [of path s buf] by (auto split: if_splits)
next
  case (2 r rs path buf s)
  then show ?case
    using changes_trans [OF changes_append]
    by (cases "buf = []"; cases r) auto
qed

lemma write_loop_contents:
  "write_loop rs path buf s = (s', True) \<Longrightarrow> sv_disk s path = Some c \<Longrightarrow> sv_disk s' path = Some (c @ buf)"
proof (induction rs path buf s arbitrary: c rule: write_loop.induct)
  case (1 path buf s)
  then show ?case by (auto simp: sys_append_def split: if_splits)
next
  case (2 r rs path buf s)
  show ?case
  proof (cases "buf = []")
    case False
    then show ?thesis using 2 by (cases r) (auto simp: sys_append_def)
  qed (use 2 in simp)
qed

lemma changes_disk: "changes X s s' \<Longrightarrow> p \<notin> X \<Longrightarrow> sv_disk s' p = sv_disk s p"
  by (simp add: changes_def)

text \<open>Every directory on the way satisfies \<open>P\<close>.\<close>

definition steps :: "(disk \<Rightarrow> bool) \<Rightarrow> aof_server \<Rightarrow> aof_server \<Rightarrow> bool" where
  "steps P s s' \<longleftrightarrow> same_env s s' \<and> (\<exists>ds. sv_trace s' = sv_trace s @ ds \<and> list_all P ds)"

lemma steps_refl [simp]: "steps P s s"
  by (simp add: steps_def same_env_def)

lemma steps_trans: "steps P s s' \<Longrightarrow> steps P s' s'' \<Longrightarrow> steps P s s''"
  by (auto simp: steps_def same_env_def)

lemma steps_set_disk: "P d \<Longrightarrow> steps P s (set_disk d s)"
  by (simp add: steps_def same_env_def)

lemma changes_steps:
  assumes "changes X s s'" "\<And>d. (\<forall>p. p \<notin> X \<longrightarrow> d p = sv_disk s p) \<Longrightarrow> P d"
  shows "steps P s s'"
proof -
  from assms(1) obtain ds where "sv_trace s' = sv_trace s @ ds" "\<forall>d\<in>set ds. \<forall>p. p \<notin> X \<longrightarrow> d p = sv_disk s p"
    unfolding changes_def by blast
  then show ?thesis using changes_env(1) [OF assms(1)] assms(2) by (auto simp: steps_def list_all_iff)
qed

section \<open>Writing the manifest\<close>

abbreviation manifest_path :: "aof_server \<Rightarrow> bytes" where
  "manifest_path s \<equiv> aof_path s (getAofManifestFileName (aof_cfg s))"

abbreviation temp_manifest_path :: "aof_server \<Rightarrow> bytes" where
  "temp_manifest_path s \<equiv> aof_path s (getTempAofManifestFileName (aof_cfg s))"

lemma writeAofManifestFile_cases:
  assumes "writeAofManifestFile io buf s = (s', ok)" "io_fsync_dir_ok io"
  shows "if ok then \<exists>s1. changes {temp_manifest_path s} s s1
           \<and> s' = set_disk ((sv_disk s1)(temp_manifest_path s := None, manifest_path s := Some buf)) s1
         else changes {temp_manifest_path s} s s'"
proof (cases "io_open_ok io")
  case True
  let ?tmp = "temp_manifest_path s"
  define s1 where "s1 = set_disk ((sv_disk s)(?tmp := Some [])) s"
  obtain s2 ok2 where w: "write_loop (io_writes io) ?tmp buf s1 = (s2, ok2)" by fastforce
  have "changes {?tmp} s s1" unfolding s1_def by (rule changes_set_disk) simp
  then have c: "changes {?tmp} s s2" using write_loop_changes [OF w] changes_trans by blast
  have "sv_disk s2 ?tmp = Some buf" if ok2
    using write_loop_contents [of "io_writes io" ?tmp buf s1 s2 "[]"] w that by (simp add: s1_def)
  then show ?thesis
    using assms True w c
    by (auto simp: writeAofManifestFile_def Let_def sys_rename_def s1_def [symmetric] split: if_splits prod.splits)
qed (use assms in \<open>auto simp: writeAofManifestFile_def Let_def\<close>)

section \<open>Manifests in memory\<close>

definition cfg_ok :: "aof_config \<Rightarrow> bool" where
  "cfg_ok cfg \<longleftrightarrow> name_ok (aof_filename cfg) \<and> length (aof_filename cfg) \<le> 200"

definition aof_manifest_ok :: "aof_config \<Rightarrow> aofManifest \<Rightarrow> bool" where
  "aof_manifest_ok cfg am \<longleftrightarrow>
     manifest_ok am \<and> 0 \<le> curr_base_file_seq am \<and> 0 \<le> curr_incr_file_seq am
     \<and> (\<forall>ai\<in>set (manifest_files am). info_named cfg am ai)
     \<and> (\<forall>ai\<in>set (incr_aof_list am). file_seq ai \<le> curr_incr_file_seq am)
     \<and> distinct (map file_name (used_files am))
     \<and> (\<forall>ai\<in>set (used_files am). \<forall>h\<in>set (history_aof_list am). file_name ai \<noteq> file_name h)
     \<and> (history_aof_list am \<noteq> [] \<longrightarrow> used_files am \<noteq> [])"

lemma aof_manifest_ok_dirty [simp]: "aof_manifest_ok cfg (am\<lparr>dirty := b\<rparr>) = aof_manifest_ok cfg am"
  by (simp add: aof_manifest_ok_def manifest_ok_def info_named_def manifest_files_def used_files_def)

lemma info_named_mono:
  "info_named cfg am ai \<Longrightarrow> curr_base_file_seq am \<le> curr_base_file_seq am' \<Longrightarrow>
    curr_incr_file_seq am \<le> curr_incr_file_seq am' \<Longrightarrow> info_named cfg am' ai"
  by (auto simp: info_named_def)

lemma length_sdscatrepr: "length (sdscatrepr [] s) \<le> 4 * length s + 2"
proof -
  have "length (concat (map repr_char s)) \<le> 4 * length s"
    by (induction s) (auto simp: repr_char_def)
  then show ?thesis by (simp add: sdscatrepr_def)
qed

lemma info_ok_length:
  assumes "name_ok (file_name ai)" "length (file_name ai) \<le> 230" "is_int64 (file_seq ai)"
  shows "length (aofInfoFormat [] ai) \<le> 1024"
proof -
  have "length (name_repr (file_name ai)) \<le> 4 * length (file_name ai) + 2"
    using length_sdscatrepr [of "file_name ai"] by (simp add: name_repr_def)
  moreover have "length (ll_repr (file_seq ai)) \<le> 20" using assms(3) by (rule length_ll_repr)
  ultimately show ?thesis
    using assms(2) by (simp add: aofInfoFormat_body [OF assms(1)] info_body_def manifest_keys)
qed

lemma number_name_chars: "set (ll_repr n) \<inter> {0, 39, 47, 92} = {}"
  using ll_repr_chars [of 0 n] ll_repr_chars [of 39 n] ll_repr_chars [of 47 n] ll_repr_chars [of 92 n]
  by (auto simp: is_digit_def)

lemma new_names_ok:
  assumes "cfg_ok cfg" "is_int64 n"
  shows "name_ok (base_file_name cfg n)" "name_ok (incr_file_name cfg n)"
    "length (base_file_name cfg n) \<le> 230" "length (incr_file_name cfg n) \<le> 230"
  using assms number_name_chars [of n] length_ll_repr [of n]
  by (auto simp: cfg_ok_def name_ok_def base_file_name_def incr_file_name_def file_suffixes)

lemma new_info_ok:
  assumes "cfg_ok cfg" "0 < n" "is_int64 n" "name = base_file_name cfg n \<or> name = incr_file_name cfg n"
  shows "info_ok ty \<lparr>file_name = name, file_seq = n, file_type = ty\<rparr>"
  using new_names_ok [OF assms(1,3)] assms info_ok_length [of "\<lparr>file_name = name, file_seq = n, file_type = ty\<rparr>"]
  by (auto simp: info_ok_def)

lemma info_ok_hist: "info_ok ty ai \<Longrightarrow> info_ok 104 (ai\<lparr>file_type := 104\<rparr>)"
  by (auto simp: info_ok_def aofInfoFormat_def Let_def split: if_splits)

lemma info_named_hist: "info_named cfg am (ai\<lparr>file_type := t\<rparr>) = info_named cfg am ai"
  by (simp add: info_named_def)

lemma new_base_ok:
  assumes "cfg_ok cfg" "aof_manifest_ok cfg am" "curr_base_file_seq am < INT64_MAX"
  defines "name \<equiv> base_file_name cfg (curr_base_file_seq am + 1)"
  defines "new \<equiv> \<lparr>file_name = name, file_seq = curr_base_file_seq am + 1, file_type = 98\<rparr>"
  obtains am' where "getNewBaseFileNameAndMarkPreAsHistory cfg am = Some (am', name)" "aof_manifest_ok cfg am'"
    "base_aof_info am' = Some new" "incr_aof_list am' = incr_aof_list am" "dirty am'"
    "curr_incr_file_seq am' = curr_incr_file_seq am"
proof -
  define hist where "hist = (case base_aof_info am of None \<Rightarrow> [] | Some ai \<Rightarrow> [ai\<lparr>file_type := 104\<rparr>]) @ history_aof_list am"
  define am' where "am' = am\<lparr>base_aof_info := Some new, history_aof_list := hist,
    curr_base_file_seq := curr_base_file_seq am + 1, dirty := True\<rparr>"
  have seq: "0 < curr_base_file_seq am + 1" "is_int64 (curr_base_file_seq am + 1)"
    using assms(2,3) by (auto simp: aof_manifest_ok_def is_int64_def)
  have get: "getNewBaseFileNameAndMarkPreAsHistory cfg am = Some (am', name)"
    using assms(2)
    by (auto simp: getNewBaseFileNameAndMarkPreAsHistory_def am'_def hist_def new_def name_def Let_def
        aof_manifest_ok_def manifest_ok_def info_ok_def split: option.splits)
  have fresh: "file_name ai \<noteq> name" if "ai \<in> set (manifest_files am)" for ai
    using that assms(2) named_fresh_base [of cfg am ai "curr_base_file_seq am + 1"] seq
    by (auto simp: aof_manifest_ok_def name_def)
  have "manifest_ok am'"
    using assms(2) new_info_ok [OF assms(1) seq, of name 98] info_ok_hist
    by (auto simp: aof_manifest_ok_def manifest_ok_def am'_def hist_def new_def name_def split: option.splits)
  moreover have "info_named cfg am' ai" if mem: "ai \<in> set (manifest_files am')" for ai
  proof (cases "ai = new")
    case True
    then show ?thesis
      using seq by (cases "aof_use_rdb_preamble cfg") (auto simp: info_named_def new_def name_def am'_def base_file_name_def)
  next
    case False
    then obtain aj where aj: "aj \<in> set (manifest_files am)" "ai = aj \<or> ai = aj\<lparr>file_type := 104\<rparr>"
      using mem by (auto simp: manifest_files_def am'_def hist_def split: option.splits)
    then have "info_named cfg am aj" using assms(2) by (auto simp: aof_manifest_ok_def)
    then have "info_named cfg am' aj" by (rule info_named_mono) (simp_all add: am'_def)
    then show ?thesis using aj(2) by (auto simp: info_named_hist)
  qed
  moreover have "distinct (map file_name (used_files am'))"
  proof -
    have "distinct (map file_name (incr_aof_list am))" using assms(2) by (auto simp: aof_manifest_ok_def used_files_def)
    moreover have "name \<notin> file_name ` set (incr_aof_list am)" using fresh by (force simp: manifest_files_def)
    ultimately show ?thesis by (simp add: used_files_def am'_def new_def)
  qed
  moreover have "file_name ai \<noteq> file_name h" if mem: "ai \<in> set (used_files am')" "h \<in> set (history_aof_list am')" for ai h
  proof -
    from mem(2) obtain hm where hm: "file_name h = file_name hm" "hm \<in> set (manifest_files am)"
        "hm \<in> set (history_aof_list am) \<or> base_aof_info am = Some hm"
      by (auto simp: am'_def hist_def manifest_files_def split: option.splits)
    from mem(1) consider "ai = new" | "ai \<in> set (incr_aof_list am)" by (auto simp: used_files_def am'_def)
    then show ?thesis
    proof cases
      case 1
      then show ?thesis using fresh [OF hm(2)] hm(1) by (simp add: new_def)
    next
      case 2
      then show ?thesis
        using hm assms(2) by (elim disjE) (auto simp: aof_manifest_ok_def used_files_def image_iff)
    qed
  qed
  moreover have "0 \<le> curr_base_file_seq am'" "0 \<le> curr_incr_file_seq am'"
      "\<forall>ai\<in>set (incr_aof_list am'). file_seq ai \<le> curr_incr_file_seq am'"
    using assms(2) by (auto simp: aof_manifest_ok_def am'_def new_def)
  moreover have "used_files am' \<noteq> []" using assms(2) by (auto simp: used_files_def am'_def)
  ultimately have "aof_manifest_ok cfg am'" unfolding aof_manifest_ok_def by blast
  with get show thesis by (rule that) (simp_all add: am'_def)
qed

lemma new_incr_ok:
  assumes "cfg_ok cfg" "aof_manifest_ok cfg am" "curr_incr_file_seq am < INT64_MAX"
  defines "name \<equiv> incr_file_name cfg (curr_incr_file_seq am + 1)"
  defines "new \<equiv> \<lparr>file_name = name, file_seq = curr_incr_file_seq am + 1, file_type = 105\<rparr>"
  obtains am' where "getNewIncrAofName cfg am = (am', name)" "aof_manifest_ok cfg am'"
    "base_aof_info am' = base_aof_info am" "incr_aof_list am' = incr_aof_list am @ [new]" "dirty am'"
proof -
  define am' where "am' = am\<lparr>incr_aof_list := incr_aof_list am @ [new],
    curr_incr_file_seq := curr_incr_file_seq am + 1, dirty := True\<rparr>"
  have seq: "0 < curr_incr_file_seq am + 1" "is_int64 (curr_incr_file_seq am + 1)"
    using assms(2,3) by (auto simp: aof_manifest_ok_def is_int64_def)
  have get: "getNewIncrAofName cfg am = (am', name)"
    by (simp add: getNewIncrAofName_def am'_def new_def name_def Let_def)
  have fresh: "file_name ai \<noteq> name" if "ai \<in> set (manifest_files am)" for ai
    using that assms(2) named_fresh_incr [of cfg am ai "curr_incr_file_seq am + 1"] seq
    by (auto simp: aof_manifest_ok_def name_def)
  have used: "used_files am' = used_files am @ [new]" "set (used_files am) \<subseteq> set (manifest_files am)"
    by (auto simp: used_files_def am'_def manifest_files_def)
  have "info_ok 105 new" unfolding new_def by (rule new_info_ok [OF assms(1) seq]) (simp add: name_def)
  moreover have "sorted_wrt (<) (map file_seq (incr_aof_list am'))"
    using assms(2) by (auto simp: aof_manifest_ok_def manifest_ok_def am'_def new_def sorted_wrt_append)
  ultimately have "manifest_ok am'"
    using assms(2) by (simp add: aof_manifest_ok_def manifest_ok_def am'_def)
  moreover have "info_named cfg am' ai" if mem: "ai \<in> set (manifest_files am')" for ai
  proof (cases "ai = new")
    case True
    then show ?thesis using seq by (auto simp: info_named_def new_def name_def am'_def)
  next
    case False
    then have "info_named cfg am ai" using mem assms(2) by (auto simp: aof_manifest_ok_def manifest_files_def am'_def)
    then show ?thesis by (rule info_named_mono) (simp_all add: am'_def)
  qed
  moreover have "distinct (map file_name (used_files am'))"
    using assms(2) fresh used by (auto simp: aof_manifest_ok_def new_def)
  moreover have "file_name ai \<noteq> file_name h" if "ai \<in> set (used_files am')" "h \<in> set (history_aof_list am')" for ai h
    using that assms(2) fresh [of h] used by (auto simp: aof_manifest_ok_def am'_def new_def manifest_files_def)
  moreover have "0 \<le> curr_base_file_seq am'" "0 \<le> curr_incr_file_seq am'"
      "\<forall>ai\<in>set (incr_aof_list am'). file_seq ai \<le> curr_incr_file_seq am'"
    using assms(2) by (auto simp: aof_manifest_ok_def am'_def new_def)
  moreover have "used_files am' \<noteq> []" using assms(2) by (auto simp: used_files_def am'_def)
  ultimately have "aof_manifest_ok cfg am'" unfolding aof_manifest_ok_def by blast
  with get show thesis by (rule that) (simp_all add: am'_def)
qed

lemma mark_history_eq:
  "list_all (\<lambda>ai. file_type ai = 105) ais \<Longrightarrow>
    mark_history ais hist = Some (List.rev (map (\<lambda>ai. ai\<lparr>file_type := 104\<rparr>) ais) @ hist)"
  by (induction ais arbitrary: hist) auto

text \<open>After a rewrite only the file being written stays in use beside the base.\<close>

definition kept_incr :: "bool \<Rightarrow> aofInfo list \<Rightarrow> aofInfo list" where
  "kept_incr fd_open incrs = (if fd_open \<and> incrs \<noteq> [] then [List.last incrs] else [])"

lemma mark_ok:
  assumes "aof_manifest_ok cfg am" "base_aof_info am \<noteq> None" "dirty am"
  obtains am' where "markRewrittenIncrAofAsHistory fd_open am = Some am'" "aof_manifest_ok cfg am'"
    "base_aof_info am' = base_aof_info am" "incr_aof_list am' = kept_incr fd_open (incr_aof_list am)" "dirty am'"
proof (cases "incr_aof_list am = []")
  case True
  then show thesis using assms by (intro that [of am]) (simp_all add: markRewrittenIncrAofAsHistory_def kept_incr_def)
next
  case False
  define kept where "kept = kept_incr fd_open (incr_aof_list am)"
  define moved where "moved = (if fd_open then butlast (incr_aof_list am) else incr_aof_list am)"
  define am' where "am' = am\<lparr>incr_aof_list := kept,
    history_aof_list := map (\<lambda>ai. ai\<lparr>file_type := 104\<rparr>) moved @ history_aof_list am, dirty := True\<rparr>"
  have split: "incr_aof_list am = moved @ kept" using False by (simp add: moved_def kept_def kept_incr_def)
  have "list_all (\<lambda>ai. file_type ai = 105) (List.rev moved)"
    using assms(1) split by (auto simp: aof_manifest_ok_def manifest_ok_def info_ok_def list_all_iff)
  note hist = mark_history_eq [OF this, of "history_aof_list am"]
  have li: "hd (List.rev (incr_aof_list am)) = List.last (incr_aof_list am)"
      "tl (List.rev (incr_aof_list am)) = List.rev (butlast (incr_aof_list am))"
    using False by (simp_all add: hd_rev) (metis butlast_rev rev_rev_ident)
  have get: "markRewrittenIncrAofAsHistory fd_open am = Some am'"
    using hist False li
    by (auto simp: markRewrittenIncrAofAsHistory_def am'_def kept_def kept_incr_def moved_def Let_def rev_map)
  have "manifest_ok am'"
    using assms(1) split info_ok_hist [of 105]
    by (auto simp: aof_manifest_ok_def manifest_ok_def am'_def list_all_iff sorted_wrt_append)
  moreover have "info_named cfg am' ai" if "ai \<in> set (manifest_files am')" for ai
    using that assms(1) split
    by (auto simp: aof_manifest_ok_def manifest_files_def am'_def info_named_def split: option.splits)
  moreover have "distinct (map file_name (used_files am'))"
    using assms(1) split by (auto simp: aof_manifest_ok_def used_files_def am'_def split: option.splits)
  moreover have "file_name ai \<noteq> file_name h" if "ai \<in> set (used_files am')" "h \<in> set (history_aof_list am')" for ai h
  proof -
    define bs where "bs = (case base_aof_info am of None \<Rightarrow> [] | Some b \<Rightarrow> [b])"
    have "used_files am = bs @ moved @ kept" "ai \<in> set bs \<or> ai \<in> set kept"
      using that(1) split by (simp_all add: used_files_def am'_def bs_def)
    moreover have "distinct (used_files am)" using assms(1) by (simp add: aof_manifest_ok_def distinct_map)
    ultimately have ai: "ai \<in> set (used_files am)" "ai \<notin> set moved" by auto
    from that(2) consider "h \<in> set (history_aof_list am)" | hm where "hm \<in> set moved" "file_name h = file_name hm"
      by (auto simp: am'_def)
    then show ?thesis
    proof cases
      case 1
      then show ?thesis using assms(1) ai(1) by (simp add: aof_manifest_ok_def)
    next
      case 2
      then have "hm \<in> set (used_files am)" "hm \<noteq> ai" using split ai(2) by (auto simp: used_files_def)
      then show ?thesis
        using ai(1) 2 assms(1) by (auto simp: aof_manifest_ok_def distinct_map inj_on_def)
    qed
  qed
  moreover have "0 \<le> curr_base_file_seq am'" "0 \<le> curr_incr_file_seq am'"
      "\<forall>ai\<in>set (incr_aof_list am'). file_seq ai \<le> curr_incr_file_seq am'"
    using assms(1) split by (auto simp: aof_manifest_ok_def am'_def)
  moreover have "used_files am' \<noteq> []" using assms(2) by (auto simp: used_files_def am'_def)
  ultimately have "aof_manifest_ok cfg am'" unfolding aof_manifest_ok_def by blast
  with get show thesis by (rule that) (simp_all add: am'_def kept_def)
qed

section \<open>Directories that show given files\<close>

definition disk_shows :: "aof_server \<Rightarrow> disk \<Rightarrow> aofInfo list \<Rightarrow> bool" where
  "disk_shows s d fs \<longleftrightarrow> map_option used_files (disk_manifest s d) = Some fs
     \<and> (\<forall>ai\<in>set fs. d (aof_path s (file_name ai)) \<noteq> None)"

definition file_paths :: "aof_server \<Rightarrow> aofInfo list \<Rightarrow> bytes set" where
  "file_paths s fs = (\<lambda>ai. aof_path s (file_name ai)) ` set fs"

lemma those_total: "\<forall>x\<in>set xs. f x \<noteq> None \<Longrightarrow> those (map f xs) = Some (map (\<lambda>x. the (f x)) xs)"
  by (induction xs) auto

lemma disk_shows_view:
  "disk_shows s d fs \<Longrightarrow> aof_view s d = those (map (\<lambda>ai. d (aof_path s (file_name ai))) fs)"
  by (auto simp: disk_shows_def aof_view_def)

lemma disk_shows_agree:
  assumes "disk_shows s d fs" "\<And>p. p = manifest_path s \<or> p \<in> file_paths s fs \<Longrightarrow> d' p = d p"
  shows "disk_shows s d' fs" "aof_view s d' = aof_view s d"
proof -
  have eq: "d' (aof_path s (file_name ai)) = d (aof_path s (file_name ai))" if "ai \<in> set fs" for ai
    using that assms(2) by (auto simp: file_paths_def)
  have "disk_manifest s d' = disk_manifest s d" using assms(2) [of "manifest_path s"] by (simp add: disk_manifest_def)
  then show sh: "disk_shows s d' fs" using assms(1) eq by (simp add: disk_shows_def)
  show "aof_view s d' = aof_view s d"
    unfolding disk_shows_view [OF assms(1)] disk_shows_view [OF sh]
    by (rule arg_cong [where f = those]) (simp add: eq)
qed

lemma disk_shows_changes:
  assumes "disk_shows s (sv_disk s1) fs" "changes X s1 s2" "manifest_path s \<notin> X" "X \<inter> file_paths s fs = {}" "same_env s s1"
  shows "disk_shows s (sv_disk s2) fs" "aof_view s (sv_disk s2) = aof_view s (sv_disk s1)"
    "steps (\<lambda>d. aof_view s d = aof_view s (sv_disk s1)) s1 s2" "same_env s s2"
proof -
  have agree: "d p = sv_disk s1 p"
    if "\<forall>p. p \<notin> X \<longrightarrow> d p = sv_disk s1 p" "p = manifest_path s \<or> p \<in> file_paths s fs" for d p
    using that assms(3,4) by blast
  have "\<forall>p. p \<notin> X \<longrightarrow> sv_disk s2 p = sv_disk s1 p" using assms(2) by (simp add: changes_def)
  note a2 = agree [OF this]
  show "disk_shows s (sv_disk s2) fs" "aof_view s (sv_disk s2) = aof_view s (sv_disk s1)"
    by (rule disk_shows_agree [OF assms(1) a2], assumption)+
  show "steps (\<lambda>d. aof_view s d = aof_view s (sv_disk s1)) s1 s2"
    using assms(2) by (rule changes_steps) (rule disk_shows_agree(2) [OF assms(1) agree])
  show "same_env s s2" using changes_env(1) [OF assms(2)] assms(5) by (simp add: same_env_def)
qed

lemma steps_mono: "steps P s s' \<Longrightarrow> (\<And>d. P d \<Longrightarrow> Q d) \<Longrightarrow> steps Q s s'"
  by (auto simp: steps_def list_all_iff)

lemma steps_update:
  "same_env s s' \<Longrightarrow> sv_trace s' = sv_trace s \<Longrightarrow> steps P s s'"
  by (simp add: steps_def)

lemma manifest_reload_used [simp]: "used_files (manifest_reload am) = used_files am"
  by (simp add: used_files_def manifest_reload_def)

lemma used_named: "aof_manifest_ok cfg am \<Longrightarrow> ai \<in> set (used_files am) \<Longrightarrow> info_named cfg am ai"
  by (auto simp: aof_manifest_ok_def used_files_def manifest_files_def)

lemma used_special_paths:
  assumes "aof_manifest_ok (aof_cfg s) am"
  shows "manifest_path s \<notin> file_paths s (used_files am)" "temp_manifest_path s \<notin> file_paths s (used_files am)"
    "aof_path s (getTempIncrAofName (aof_cfg s)) \<notin> file_paths s (used_files am)"
  using named_special [OF used_named [OF assms]] by (force simp: file_paths_def)+

text \<open>Writing a manifest: the directory shows the old files or, once the new manifest is in place, the new ones.\<close>

lemma persist_cases:
  assumes "persistAofManifest io am s1 = (am', s2, ok)" "io_fsync_dir_ok io" "dirty am" "same_env s s1"
    "disk_shows s (sv_disk s1) fs" "temp_manifest_path s \<notin> file_paths s fs"
    "aof_manifest_ok (aof_cfg s) am" "used_files am \<noteq> []"
    "\<forall>ai\<in>set (used_files am). sv_disk s1 (aof_path s (file_name ai)) \<noteq> None"
  defines "V \<equiv> those (map (\<lambda>ai. sv_disk s1 (aof_path s (file_name ai))) (used_files am))"
  shows "if ok then am' = am\<lparr>dirty := False\<rparr> \<and> changes {temp_manifest_path s, manifest_path s} s1 s2
        \<and> disk_shows s (sv_disk s2) (used_files am) \<and> aof_view s (sv_disk s2) = V
        \<and> steps (\<lambda>d. aof_view s d \<in> {aof_view s (sv_disk s1), V}) s1 s2
      else am' = am \<and> changes {temp_manifest_path s} s1 s2"
proof -
  have env: "aof_cfg s1 = aof_cfg s" "aof_path s1 = aof_path s" using assms(4) same_env_eq(1) [OF assms(4)] by (simp_all add: same_env_def)
  let ?tmp = "temp_manifest_path s" and ?man = "manifest_path s" and ?buf = "getAofManifestAsString am"
  have w: "writeAofManifestFile io ?buf s1 = (s2, ok)" "am' = (if ok then am\<lparr>dirty := False\<rparr> else am)"
    using assms(1,3) by (auto simp: persistAofManifest_def split: prod.splits)
  note cs = writeAofManifestFile_cases [OF w(1) assms(2), unfolded env]
  show ?thesis
  proof (cases ok)
    case True
    then obtain s' where s': "changes {?tmp} s1 s'" "s2 = set_disk ((sv_disk s')(?tmp := None, ?man := Some ?buf)) s'"
      using cs by auto
    let ?d = "(sv_disk s')(?tmp := None, ?man := Some ?buf)"
    have neq: "?man \<noteq> ?tmp" by (simp add: special_names)
    have ch: "changes {?tmp, ?man} s1 s2"
      unfolding s'(2)
      by (rule changes_trans [OF changes_mono [OF s'(1)]]) (auto intro!: changes_set_disk split: if_splits)
    have files: "?d (aof_path s (file_name ai)) = sv_disk s1 (aof_path s (file_name ai))" if "ai \<in> set (used_files am)" for ai
    proof -
      have "aof_path s (file_name ai) \<in> file_paths s (used_files am)" using that by (simp add: file_paths_def)
      then have "aof_path s (file_name ai) \<noteq> ?man" "aof_path s (file_name ai) \<noteq> ?tmp"
        using used_special_paths(1,2) [OF assms(7)] by metis+
      then show ?thesis using changes_disk [OF s'(1)] by simp
    qed
    have "manifest_files am \<noteq> []" using assms(8) by (auto simp: used_files_def manifest_files_def)
    then have "disk_manifest s ?d = Some (manifest_reload am)"
      using load_printed_manifest [of am] assms(7) by (simp add: disk_manifest_def aof_manifest_ok_def)
    then have sh: "disk_shows s ?d (used_files am)" using files assms(9) by (simp add: disk_shows_def)
    have view: "aof_view s ?d = V"
      unfolding disk_shows_view [OF sh] V_def by (rule arg_cong [where f = those]) (use files in simp)
    have old: "steps (\<lambda>d. aof_view s d = aof_view s (sv_disk s1)) s1 s'"
      using assms(6) neq by (intro disk_shows_changes(3) [OF assms(5) s'(1) _ _ assms(4)]) auto
    have "steps (\<lambda>d. aof_view s d \<in> {aof_view s (sv_disk s1), V}) s1 s2"
      unfolding s'(2) by (rule steps_trans [OF steps_mono [OF old]]) (simp_all add: steps_set_disk view)
    then show ?thesis using True w(2) ch sh view s'(2) by simp
  qed (use cs w(2) in simp)
qed

section \<open>The invariant\<close>

definition aof_ok :: "aof_server \<Rightarrow> bool" where
  "aof_ok s \<longleftrightarrow> cfg_ok (aof_cfg s) \<and> aof_manifest_ok (aof_cfg s) (aof_manifest s)
     \<and> disk_shows s (sv_disk s) (used_files (aof_manifest s))"

lemma aof_okI:
  assumes "same_env s s'" "cfg_ok (aof_cfg s)" "aof_manifest_ok (aof_cfg s) (aof_manifest s')"
    "disk_shows s (sv_disk s') (used_files (aof_manifest s'))"
  shows "aof_ok s'"
proof -
  have "disk_shows s' = disk_shows s"
    using same_env_eq [OF assms(1)] by (simp add: fun_eq_iff disk_shows_def)
  then show ?thesis using assms by (simp add: aof_ok_def same_env_def)
qed

lemma del_history_changes:
  assumes "list_all (info_ok 104) hist"
  shows "\<exists>s'. del_history ok hist s = Some s' \<and> changes (file_paths s hist) s s'"
  using assms
proof (induction hist arbitrary: s)
  case (Cons h hist)
  define s1 where "s1 = bg_unlink ok (aof_path s (file_name h)) s"
  have c: "changes {aof_path s (file_name h)} s s1" unfolding s1_def by (rule changes_bg_unlink)
  have "aof_path s1 = aof_path s" using same_env_eq(1) [OF changes_env(1) [OF c]] .
  then have paths: "file_paths s1 hist = file_paths s hist" by (simp add: file_paths_def)
  from Cons obtain s' where s': "del_history ok hist s1 = Some s'" "changes (file_paths s1 hist) s1 s'" by auto
  have "changes (file_paths s (h # hist)) s s1" using c by (rule changes_mono) (simp add: file_paths_def)
  moreover have "changes (file_paths s (h # hist)) s1 s'"
    using s'(2) unfolding paths by (rule changes_mono) (auto simp: file_paths_def)
  ultimately show ?case
    using s'(1) Cons.prems by (auto simp: s1_def info_ok_def intro: changes_trans)
qed simp

lemma history_paths:
  assumes "aof_manifest_ok (aof_cfg s) am"
  shows "manifest_path s \<notin> file_paths s (history_aof_list am)"
    "file_paths s (history_aof_list am) \<inter> file_paths s (used_files am) = {}"
proof -
  have "info_named (aof_cfg s) am h" if "h \<in> set (history_aof_list am)" for h
    using that assms by (auto simp: aof_manifest_ok_def manifest_files_def)
  from named_special(1) [OF this] show "manifest_path s \<notin> file_paths s (history_aof_list am)"
    by (force simp: file_paths_def)
  show "file_paths s (history_aof_list am) \<inter> file_paths s (used_files am) = {}"
    using assms by (fastforce simp: file_paths_def aof_manifest_ok_def)
qed

lemma aof_manifest_ok_drop_history:
  "aof_manifest_ok cfg am \<Longrightarrow> aof_manifest_ok cfg (am\<lparr>history_aof_list := [], dirty := b\<rparr>)"
  by (auto simp: aof_manifest_ok_def manifest_ok_def info_named_def manifest_files_def used_files_def)

text \<open>Removing history files never changes what the directory shows.\<close>

lemma aofDelHistoryFiles_ok:
  assumes "aof_ok s" "io_fsync_dir_ok io"
  obtains s' r where "aofDelHistoryFiles ok io s = Some (s', r)" "aof_ok s'"
    "steps (\<lambda>d. aof_view s d = aof_view s (sv_disk s)) s s'" "aof_view s (sv_disk s') = aof_view s (sv_disk s)"
    "aof_state s' = aof_state s" "child_pid s' = child_pid s"
proof (cases "aof_disable_auto_gc s \<or> history_aof_list (aof_manifest s) = []")
  case True
  then show thesis using assms by (intro that [of s True]) (auto simp: aofDelHistoryFiles_def)
next
  case False
  let ?M = "aof_manifest s"
  let ?am = "?M\<lparr>history_aof_list := [], dirty := True\<rparr>"
  have M: "aof_manifest_ok (aof_cfg s) ?M" "disk_shows s (sv_disk s) (used_files ?M)" "cfg_ok (aof_cfg s)"
    using assms(1) by (simp_all add: aof_ok_def)
  have used: "used_files ?am = used_files ?M" by (simp add: used_files_def)
  have "list_all (info_ok 104) (history_aof_list ?M)" using M(1) by (simp add: aof_manifest_ok_def manifest_ok_def)
  then obtain s1 where s1: "del_history ok (history_aof_list ?M) s = Some s1"
      "changes (file_paths s (history_aof_list ?M)) s s1"
    using del_history_changes by blast
  note d1 = disk_shows_changes [OF M(2) s1(2) history_paths [OF M(1)], simplified same_env_def, simplified]
  have env1: "same_env s s1" "aof_manifest s1 = ?M" using changes_env [OF s1(2)] by simp_all
  obtain am' s2 r where p: "persistAofManifest io ?am s1 = (am', s2, r)" using prod_cases3 by blast
  have am: "aof_manifest_ok (aof_cfg s) ?am" using M(1) by (rule aof_manifest_ok_drop_history)
  have "used_files ?am \<noteq> []" using M(1) False used by (simp add: aof_manifest_ok_def)
  note pc = persist_cases [OF p assms(2) _ env1(1) d1(1) used_special_paths(2) [OF M(1)] am this]
  have view: "those (map (\<lambda>ai. sv_disk s1 (aof_path s (file_name ai))) (used_files ?am)) = aof_view s (sv_disk s)"
    using disk_shows_view [OF d1(1)] d1(2) used by simp
  define s' where "s' = s2\<lparr>aof_manifest := am'\<rparr>"
  have res: "aofDelHistoryFiles ok io s = Some (s', r)"
    using False s1(1) p env1(2) by (simp add: aofDelHistoryFiles_def s'_def)
  have "\<forall>ai\<in>set (used_files ?am). sv_disk s1 (aof_path s (file_name ai)) \<noteq> None"
    using d1(1) used by (simp add: disk_shows_def)
  note pc = pc [OF _ this, simplified view d1(2), simplified]
  have tmp: "changes {temp_manifest_path s} s1 s2 \<Longrightarrow>
      disk_shows s (sv_disk s2) (used_files ?M) \<and> aof_view s (sv_disk s2) = aof_view s (sv_disk s)
      \<and> steps (\<lambda>d. aof_view s d = aof_view s (sv_disk s)) s1 s2"
    using disk_shows_changes [OF d1(1) _ _ _ env1(1), of "{temp_manifest_path s}" s2] used_special_paths(2) [OF M(1)] d1(2)
    by (simp add: special_names)
  have am': "used_files am' = used_files ?M" "aof_manifest_ok (aof_cfg s) am'"
    using pc am used by (auto split: if_splits simp: used_files_def)
  have end': "disk_shows s (sv_disk s2) (used_files ?M)" "aof_view s (sv_disk s2) = aof_view s (sv_disk s)"
      "steps (\<lambda>d. aof_view s d = aof_view s (sv_disk s)) s1 s2" "\<exists>X. changes X s1 s2"
    using pc tmp used by (auto split: if_splits)
  then obtain X where ch: "changes X s1 s2" by blast
  have env2: "same_env s s2" using env1(1) changes_env(1) [OF ch] by (simp add: same_env_def)
  have "same_env s s'" using env2 by (simp add: s'_def same_env_def)
  then have ok': "aof_ok s'"
    using M(3) end'(1) am' by (intro aof_okI [of s]) (simp_all add: s'_def)
  have st: "steps (\<lambda>d. aof_view s d = aof_view s (sv_disk s)) s s'"
    using steps_trans [OF d1(3) steps_trans [OF end'(3) steps_update [of s2 s']]]
    by (simp add: s'_def same_env_def)
  show thesis
    using res ok' st end'(2) changes_env [OF ch] changes_env [OF s1(2)] by (intro that [of s' r]) (simp_all add: s'_def)
qed

end
