(* ===== verification/Aof_Crash.thy ===== *)
theory Aof_Crash
  imports Aof_Files_Props
begin

text \<open>
  Crash safety of the end of a background rewrite, and of the other operations on the append only files.
\<close>

section \<open>The end of a background rewrite\<close>

text \<open>The contents of the files that are in use after a successful rewrite.\<close>

definition rewrite_view :: "aof_server \<Rightarrow> bytes list option" where
  "rewrite_view s =
     those (sv_disk s (rewrite_tmpfile True (child_pid s)) #
       (if \<not> aof_fd_open s then []
        else if aof_state s = AOF_WAIT_REWRITE then [sv_disk s (aof_path s (getTempIncrAofName (aof_cfg s)))]
        else map (\<lambda>ai. sv_disk s (aof_path s (file_name ai))) (kept_incr True (incr_aof_list (aof_manifest s)))))"

lemma same_env_refl [simp]: "same_env s s"
  by (simp add: same_env_def)

lemma rewrite_failed_sel [simp]:
  "sv_disk (rewrite_failed s) = sv_disk s" "sv_trace (rewrite_failed s) = sv_trace s" "same_env s' (rewrite_failed s) = same_env s' s"
  "aof_manifest (rewrite_failed s) = aof_manifest s" "child_pid (rewrite_failed s) = child_pid s"
  "\<not> aof_lastbgrewrite_ok (rewrite_failed s)"
  by (simp_all add: rewrite_failed_def same_env_def)

lemma disk_shows_total: "disk_shows s d fs \<Longrightarrow> aof_view s d \<noteq> None"
  using those_total [of fs "\<lambda>ai. d (aof_path s (file_name ai))"] by (simp add: disk_shows_view) (simp add: disk_shows_def)

lemma aof_ok_view: "aof_ok s \<Longrightarrow> aof_view s (sv_disk s) \<noteq> None"
  by (auto simp: aof_ok_def dest: disk_shows_total)

text \<open>The state of a rewrite: \<open>done\<close> tells whether the new files \<open>V1\<close> are in use instead of the old ones \<open>V0\<close>.\<close>

definition rewrite_end :: "aof_server \<Rightarrow> bytes list option \<Rightarrow> aof_server \<Rightarrow> aof_server \<Rightarrow> bool" where
  "rewrite_end s V1 s1 s' \<longleftrightarrow> aof_ok s' \<and> same_env s s'
     \<and> steps (\<lambda>d. aof_view s d \<in> {aof_view s (sv_disk s), V1}) s1 s'
     \<and> aof_view s (sv_disk s') = (if aof_lastbgrewrite_ok s' then V1 else aof_view s (sv_disk s))
     \<and> child_pid s' = child_pid s"

lemma rewrite_end_trans: "steps (\<lambda>d. aof_view s d \<in> {aof_view s (sv_disk s), V1}) s0 s1 \<Longrightarrow> rewrite_end s V1 s1 s' \<Longrightarrow> rewrite_end s V1 s0 s'"
  by (auto simp: rewrite_end_def intro: steps_trans)

lemma steps_old: "steps (\<lambda>d. aof_view s d = V) s0 s1 \<Longrightarrow> V \<in> A \<Longrightarrow> steps (\<lambda>d. aof_view s d \<in> A) s0 s1"
  by (erule steps_mono) simp

lemma rewrite_done_ok_end:
  assumes "aof_ok s1" "same_env s s1" "io_fsync_dir_ok (rw_manifest_del io)" "aof_view s (sv_disk s1) = V1"
    "child_pid s1 = child_pid s"
  shows "\<exists>s'. rewrite_done_ok io new_base s1 = Some s' \<and> rewrite_end s V1 s1 s'"
proof -
  define s2 where "s2 = (if aof_state s1 \<noteq> AOF_OFF
    then (let size' = getAppendOnlyFileSize new_base s1 + aof_last_incr_size s1
          in s1\<lparr>aof_current_size := size', aof_rewrite_base_size := size'\<rparr>) else s1)"
  have s2: "same_env s1 s2" "aof_manifest s2 = aof_manifest s1" "sv_disk s2 = sv_disk s1" "sv_trace s2 = sv_trace s1"
      "child_pid s2 = child_pid s1" "aof_state s2 = aof_state s1"
    by (simp_all add: s2_def same_env_def Let_def)
  have "aof_ok s2" using assms(1) s2 by (intro aof_okI [OF s2(1)]) (simp_all add: aof_ok_def)
  from aofDelHistoryFiles_ok [OF this assms(3), of "rw_unlink_ok io"]
  obtain s3 r where s3: "aofDelHistoryFiles (rw_unlink_ok io) (rw_manifest_del io) s2 = Some (s3, r)" "aof_ok s3"
    "steps (\<lambda>d. aof_view s2 d = aof_view s2 (sv_disk s2)) s2 s3" "aof_view s2 (sv_disk s3) = aof_view s2 (sv_disk s2)"
    "child_pid s3 = child_pid s2" .
  have env: "same_env s s2" "same_env s s3" using assms(2) s2(1) s3(3) by (auto simp: same_env_def steps_def)
  have views: "aof_view s2 = aof_view s" using same_env_eq(3) [OF env(1)] .
  define s4 where "s4 = s3\<lparr>aof_lastbgrewrite_ok := True, stat_aofrw_consecutive_failures := 0\<rparr>"
  define s5 where "s5 = (if aof_state s4 = AOF_WAIT_REWRITE
    then s4\<lparr>aof_state := AOF_ON, fsynced_reploff := fsynced_reploff_pending s4\<rparr> else s4)"
  have s5: "same_env s3 s5" "aof_manifest s5 = aof_manifest s3" "sv_disk s5 = sv_disk s3" "sv_trace s5 = sv_trace s3"
      "child_pid s5 = child_pid s3" "aof_lastbgrewrite_ok s5"
    by (simp_all add: s5_def s4_def same_env_def)
  have "aof_ok s5" using s3(2) s5 by (intro aof_okI [OF s5(1)]) (simp_all add: aof_ok_def)
  moreover have "same_env s s5" using env(2) s5(1) by (simp add: same_env_def)
  moreover have "steps (\<lambda>d. aof_view s d \<in> {aof_view s (sv_disk s), V1}) s1 s5"
    using steps_trans [OF steps_update [OF s2(1,4)] steps_trans [OF s3(3) steps_update [OF s5(1,4)]]]
    by (rule steps_mono) (simp add: views s2(3) assms(4))
  moreover have "rewrite_done_ok io new_base s1 = Some s5"
    using s3(1) unfolding rewrite_done_ok_def s2_def [symmetric] by (simp add: s4_def s5_def Let_def)
  ultimately show ?thesis
    using s5 s3(4,5) s2 views assms(4,5) by (auto simp: rewrite_end_def)
qed

lemma rewrite_failed_end:
  assumes "cfg_ok (aof_cfg s)" "aof_manifest_ok (aof_cfg s) (aof_manifest s)" "aof_manifest s' = aof_manifest s"
    "disk_shows s (sv_disk s') (used_files (aof_manifest s))" "aof_view s (sv_disk s') = aof_view s (sv_disk s)"
    "same_env s s'" "child_pid s' = child_pid s"
  shows "rewrite_end s V1 s' (rewrite_failed s')"
proof -
  have "aof_ok (rewrite_failed s')" using assms by (intro aof_okI [of s]) simp_all
  then show ?thesis using assms by (simp add: rewrite_end_def steps_update)
qed

text \<open>Files that are not in use may be removed.\<close>

lemma disk_shows_unlink:
  assumes "disk_shows s (sv_disk s1) fs" "same_env s s1" "p \<noteq> manifest_path s" "p \<notin> file_paths s fs"
  shows "disk_shows s (sv_disk (bg_unlink ok p s1)) fs" "aof_view s (sv_disk (bg_unlink ok p s1)) = aof_view s (sv_disk s1)"
    "steps (\<lambda>d. aof_view s d = aof_view s (sv_disk s1)) s1 (bg_unlink ok p s1)" "same_env s (bg_unlink ok p s1)"
    "aof_manifest (bg_unlink ok p s1) = aof_manifest s1" "child_pid (bg_unlink ok p s1) = child_pid s1"
  using disk_shows_changes [OF assms(1) changes_bg_unlink _ _ assms(2), of p ok] changes_env [OF changes_bg_unlink [of p s1 ok]]
    assms(3,4) by auto

lemma rewrite_commit_end:
  assumes "cfg_ok (aof_cfg s)" "aof_manifest_ok (aof_cfg s) (aof_manifest s)" "aof_manifest s1 = aof_manifest s"
    "disk_shows s (sv_disk s1) (used_files (aof_manifest s))" "aof_view s (sv_disk s1) = aof_view s (sv_disk s)"
    "same_env s s1" "child_pid s1 = child_pid s" "io_fsync_dir_ok (rw_manifest io)" "io_fsync_dir_ok (rw_manifest_del io)"
  assumes am: "aof_manifest_ok (aof_cfg s) am" "base_aof_info am = Some b" "dirty am"
  assumes new: "\<And>p. p = aof_path s new_base \<or> new_incr = Some p \<Longrightarrow>
      p \<noteq> manifest_path s \<and> p \<notin> file_paths s (used_files (aof_manifest s))"
  assumes files: "\<forall>ai\<in>set (b # kept_incr (aof_fd_open s1) (incr_aof_list am)). sv_disk s1 (aof_path s (file_name ai)) \<noteq> None"
    "those (map (\<lambda>ai. sv_disk s1 (aof_path s (file_name ai))) (b # kept_incr (aof_fd_open s1) (incr_aof_list am))) = V1"
  shows "\<exists>s'. rewrite_commit io new_base new_incr am s1 = Some s' \<and> rewrite_end s V1 s1 s'"
proof -
  have "base_aof_info am \<noteq> None" using am(2) by simp
  from mark_ok [OF am(1) this am(3), of "aof_fd_open s1"] obtain am2 where am2:
    "markRewrittenIncrAofAsHistory (aof_fd_open s1) am = Some am2" "aof_manifest_ok (aof_cfg s) am2"
    "base_aof_info am2 = base_aof_info am" "incr_aof_list am2 = kept_incr (aof_fd_open s1) (incr_aof_list am)" "dirty am2" .
  have used: "used_files am2 = b # kept_incr (aof_fd_open s1) (incr_aof_list am)"
    using am2(3,4) am(2) by (simp add: used_files_def)
  obtain am3 s2 ok where p: "persistAofManifest (rw_manifest io) am2 s1 = (am3, s2, ok)" using prod_cases3 by blast
  note pc = persist_cases [OF p assms(8) am2(5) assms(6,4) used_special_paths(2) [OF assms(2)] am2(2), unfolded used, simplified files(2), OF _ files(1)]
  let ?V0 = "aof_view s (sv_disk s)"
  show ?thesis
  proof (cases ok)
    case True
    then have r: "am3 = am2\<lparr>dirty := False\<rparr>" "disk_shows s (sv_disk s2) (used_files am3)" "aof_view s (sv_disk s2) = V1"
        "steps (\<lambda>d. aof_view s d \<in> {?V0, V1}) s1 s2" "\<exists>X. changes X s1 s2"
      using pc used assms(5) by (auto simp: used_files_def)
    then obtain X where ch: "changes X s1 s2" by blast
    define s3 where "s3 = s2\<lparr>aof_manifest := am3\<rparr>"
    have s3: "same_env s s3" "child_pid s3 = child_pid s" "sv_disk s3 = sv_disk s2" "sv_trace s3 = sv_trace s2" "same_env s2 s3"
      using assms(6,7) changes_env [OF ch] by (simp_all add: s3_def same_env_def)
    have "aof_ok s3"
      using r(1,2) am2(2) assms(1) by (intro aof_okI [OF s3(1)]) (simp_all add: s3_def)
    from rewrite_done_ok_end [OF this s3(1) assms(9), of V1] r(3) s3
    obtain s' where s': "rewrite_done_ok io new_base s3 = Some s'" "rewrite_end s V1 s3 s'" by auto
    have "steps (\<lambda>d. aof_view s d \<in> {?V0, V1}) s1 s3" using steps_trans [OF r(4) steps_update [OF s3(5,4)]] .
    from rewrite_end_trans [OF this s'(2)] show ?thesis
      using s'(1) am2(1) p True by (simp add: rewrite_commit_def s3_def)
  next
    case False
    then have r: "am3 = am2" "changes {temp_manifest_path s} s1 s2" using pc by auto
    note d2 = disk_shows_changes [OF assms(4) r(2) _ _ assms(6)]
    have tmp: "manifest_path s \<notin> {temp_manifest_path s}" "{temp_manifest_path s} \<inter> file_paths s (used_files (aof_manifest s)) = {}"
      using used_special_paths(2) [OF assms(2)] by (simp_all add: special_names)
    note d2 = d2 [OF tmp]
    have path: "aof_path s2 = aof_path s" using same_env_eq(1) [OF d2(4)] .
    define s3 where "s3 = bg_unlink (rw_unlink_ok io) (aof_path s new_base) s2"
    note d3 = disk_shows_unlink [OF d2(1,4), of "aof_path s new_base" "rw_unlink_ok io", folded s3_def]
    have nb: "aof_path s new_base \<noteq> manifest_path s" "aof_path s new_base \<notin> file_paths s (used_files (aof_manifest s))"
      using new by blast+
    note d3 = d3 [OF nb]
    define s4 where "s4 = (case new_incr of None \<Rightarrow> s3 | Some p \<Rightarrow> bg_unlink (rw_unlink_ok io) p s3)"
    have d4: "disk_shows s (sv_disk s4) (used_files (aof_manifest s))" "aof_view s (sv_disk s4) = aof_view s (sv_disk s3)"
        "steps (\<lambda>d. aof_view s d = aof_view s (sv_disk s3)) s3 s4" "same_env s s4"
        "aof_manifest s4 = aof_manifest s3" "child_pid s4 = child_pid s3"
      using d3 disk_shows_unlink [OF d3(1,4)] new by (auto simp: s4_def split: option.split)
    have m: "aof_manifest s4 = aof_manifest s" "child_pid s4 = child_pid s" "aof_view s (sv_disk s4) = ?V0"
      using d4 d3 d2 changes_env [OF r(2)] assms(3,5,7) by simp_all
    have "steps (\<lambda>d. aof_view s d \<in> {?V0, V1}) s1 s4"
      using steps_trans [OF d2(3) [unfolded assms(5)]
          steps_trans [OF d3(3) [unfolded d2(2) assms(5)] d4(3) [unfolded d3(2) d2(2) assms(5)]]]
      by (rule steps_old) simp
    from rewrite_end_trans [OF this rewrite_failed_end [OF assms(1,2) m(1) d4(1) m(3) d4(4) m(2)]]
    have "rewrite_end s V1 s1 (rewrite_failed s4)" .
    moreover have "rewrite_commit io new_base new_incr am s1 = Some (rewrite_failed s4)"
      using am2(1) p False path by (simp add: rewrite_commit_def s3_def s4_def Let_def split: option.split)
    ultimately show ?thesis by blast
  qed
qed

lemma fresh_paths:
  assumes "aof_manifest_ok (aof_cfg s) am" "is_int64 n"
  shows "curr_base_file_seq am < n \<Longrightarrow> aof_path s (base_file_name (aof_cfg s) n) \<notin> file_paths s (used_files am)"
    "curr_incr_file_seq am < n \<Longrightarrow> aof_path s (incr_file_name (aof_cfg s) n) \<notin> file_paths s (used_files am)"
  using named_fresh_base [OF used_named [OF assms(1)]] named_fresh_incr [OF used_named [OF assms(1)]] assms(2)
  by (force simp: file_paths_def)+

lemma changes_rename:
  assumes "sys_rename b old new s = (s', True)" "old \<noteq> new"
  shows "changes {old, new} s s'" "sv_disk s' new = sv_disk s old" "sv_disk s old \<noteq> None"
  using assms by (auto simp: sys_rename_def intro!: changes_set_disk split: option.splits if_splits)

lemma rename_failed: "sys_rename b old new s = (s', False) \<Longrightarrow> s' = s"
  by (auto simp: sys_rename_def split: option.splits if_splits)

text \<open>Giving the temporary incremental file its name does not touch files in use.\<close>

lemma rewrite_incr_stage:
  assumes "cfg_ok (aof_cfg s)" "aof_manifest_ok (aof_cfg s) (aof_manifest s)" "same_env s s1" "aof_state s1 = aof_state s"
    "disk_shows s (sv_disk s1) (used_files (aof_manifest s))"
  assumes am: "aof_manifest_ok (aof_cfg s) am" "curr_incr_file_seq am = curr_incr_file_seq (aof_manifest s)"
    "curr_incr_file_seq am < INT64_MAX" "dirty am"
  assumes inc: "rewrite_incr io am s1 = (am2, ni, s2, ok)"
  defines "ti \<equiv> aof_path s (getTempIncrAofName (aof_cfg s))"
    and "nip \<equiv> aof_path s (incr_file_name (aof_cfg s) (curr_incr_file_seq am + 1))"
  shows "aof_manifest_ok (aof_cfg s) am2" "base_aof_info am2 = base_aof_info am" "dirty am2"
    "changes {ti, nip} s1 s2" "{ti, nip} \<inter> file_paths s (used_files (aof_manifest s)) = {}" "manifest_path s \<notin> {ti, nip}"
    "ni = Some p \<Longrightarrow> p = nip"
    "ok \<Longrightarrow> if aof_state s = AOF_WAIT_REWRITE
       then incr_aof_list am2 = incr_aof_list am @ [\<lparr>file_name = incr_file_name (aof_cfg s) (curr_incr_file_seq am + 1),
          file_seq = curr_incr_file_seq am + 1, file_type = 105\<rparr>] \<and> sv_disk s2 nip = sv_disk s1 ti \<and> sv_disk s1 ti \<noteq> None
       else incr_aof_list am2 = incr_aof_list am \<and> s2 = s1"
proof -
  have seq: "is_int64 (curr_incr_file_seq am + 1)" using am by (auto simp: aof_manifest_ok_def is_int64_def)
  have env: "aof_cfg s1 = aof_cfg s" "aof_path s1 = aof_path s"
    using assms(3) same_env_eq(1) [OF assms(3)] by (simp_all add: same_env_def)
  have neq: "ti \<noteq> nip" using special_names(9) by (metis aof_path_inject ti_def nip_def)
  show disj: "{ti, nip} \<inter> file_paths s (used_files (aof_manifest s)) = {}"
    using used_special_paths(3) [OF assms(2)] fresh_paths(2) [OF assms(2) seq] am(2) by (simp add: ti_def nip_def)
  show "manifest_path s \<notin> {ti, nip}" using special_names(2,5) by (simp add: ti_def nip_def) metis
  obtain am' where am': "getNewIncrAofName (aof_cfg s) am = (am', incr_file_name (aof_cfg s) (curr_incr_file_seq am + 1))"
    "aof_manifest_ok (aof_cfg s) am'" "base_aof_info am' = base_aof_info am" "dirty am'"
    "incr_aof_list am' = incr_aof_list am @ [\<lparr>file_name = incr_file_name (aof_cfg s) (curr_incr_file_seq am + 1),
          file_seq = curr_incr_file_seq am + 1, file_type = 105\<rparr>]"
    using new_incr_ok [OF assms(1) am(1,3)] by blast
  have wait: "am2 = am'" "ni = Some nip" "sys_rename (rw_rename_incr_ok io) ti nip s1 = (s2, ok)"
    if "aof_state s = AOF_WAIT_REWRITE"
    using that inc am'(1) assms(4) env by (auto simp: rewrite_incr_def ti_def nip_def Let_def split: prod.splits)
  have no: "am2 = am" "ni = None" "s2 = s1" if "aof_state s \<noteq> AOF_WAIT_REWRITE"
    using that inc assms(4) by (auto simp: rewrite_incr_def)
  show "aof_manifest_ok (aof_cfg s) am2" "base_aof_info am2 = base_aof_info am" "dirty am2" "ni = Some p \<Longrightarrow> p = nip"
    using wait no am' am by (cases "aof_state s = AOF_WAIT_REWRITE"; simp)+
  show "changes {ti, nip} s1 s2"
  proof (cases "aof_state s = AOF_WAIT_REWRITE")
    case True
    note ren = wait(3) [OF this]
    show ?thesis
    proof (cases ok)
      case True
      then show ?thesis using changes_rename(1) [OF _ neq] ren by simp
    next
      case False
      then show ?thesis using rename_failed ren by (metis changes_refl)
    qed
  qed (simp add: no)
  show "ok \<Longrightarrow> if aof_state s = AOF_WAIT_REWRITE
       then incr_aof_list am2 = incr_aof_list am @ [\<lparr>file_name = incr_file_name (aof_cfg s) (curr_incr_file_seq am + 1),
          file_seq = curr_incr_file_seq am + 1, file_type = 105\<rparr>] \<and> sv_disk s2 nip = sv_disk s1 ti \<and> sv_disk s1 ti \<noteq> None
       else incr_aof_list am2 = incr_aof_list am \<and> s2 = s1"
    using wait no am'(5) changes_rename(2,3) [OF _ neq, of "rw_rename_incr_ok io" s1 s2] by simp
qed

lemma rewrite_done_end:
  assumes "aof_ok s" "curr_base_file_seq (aof_manifest s) < INT64_MAX" "curr_incr_file_seq (aof_manifest s) < INT64_MAX"
    "io_fsync_dir_ok (rw_manifest io)" "io_fsync_dir_ok (rw_manifest_del io)"
  shows "\<exists>s' V. rewrite_done io s = Some s' \<and> rewrite_end s V s s' \<and> V \<noteq> None
    \<and> (V = rewrite_view s \<or> V = aof_view s (sv_disk s) \<and> \<not> aof_lastbgrewrite_ok s')"
proof -
  let ?M = "aof_manifest s" and ?cfg = "aof_cfg s" and ?V0 = "aof_view s (sv_disk s)" and ?V1 = "rewrite_view s"
  let ?tmp = "rewrite_tmpfile True (child_pid s)"
  let ?fs = "used_files ?M"
  have ok: "cfg_ok ?cfg" "aof_manifest_ok ?cfg ?M" "disk_shows s (sv_disk s) ?fs"
    using assms(1) by (simp_all add: aof_ok_def)
  have V0: "?V0 \<noteq> None" using disk_shows_total [OF ok(3)] .
  have seqs: "is_int64 (curr_base_file_seq ?M + 1)" "is_int64 (curr_incr_file_seq ?M + 1)"
    using ok(2) assms(2,3) by (auto simp: aof_manifest_ok_def is_int64_def)
  define nb where "nb = base_file_name ?cfg (curr_base_file_seq ?M + 1)"
  define b where "b = \<lparr>file_name = nb, file_seq = curr_base_file_seq ?M + 1, file_type = 98\<rparr>"
  obtain am where am: "getNewBaseFileNameAndMarkPreAsHistory ?cfg ?M = Some (am, nb)" "aof_manifest_ok ?cfg am"
    "base_aof_info am = Some b" "incr_aof_list am = incr_aof_list ?M" "dirty am" "curr_incr_file_seq am = curr_incr_file_seq ?M"
    using new_base_ok [OF ok(1,2) assms(2)] unfolding nb_def b_def by blast
  have nb: "aof_path s nb \<noteq> manifest_path s" "aof_path s nb \<notin> file_paths s ?fs"
    using fresh_paths(1) [OF ok(2) seqs(1)] by (simp_all add: nb_def special_names)
  obtain s1 ok1 where ren: "sys_rename (rw_rename_base_ok io) ?tmp (aof_path s nb) s = (s1, ok1)" by fastforce
  show ?thesis
  proof (cases ok1)
    case False
    then have "s1 = s" using ren rename_failed by simp
    moreover have "rewrite_end s ?V0 s (rewrite_failed s)"
      using rewrite_failed_end [OF ok(1,2) _ ok(3), of ?V0] by simp
    ultimately show ?thesis using am(1) ren False V0 by (auto simp: rewrite_done_def)
  next
    case True
    then have "sys_rename (rw_rename_base_ok io) ?tmp (aof_path s nb) s = (s1, True)" using ren by simp
    note r = changes_rename [OF this rewrite_tmpfile_path(1)]
    have "{?tmp, aof_path s nb} \<inter> file_paths s ?fs = {}" using nb by (auto simp: file_paths_def)
    moreover have "manifest_path s \<notin> {?tmp, aof_path s nb}" using nb(1) by simp
    ultimately have d1: "disk_shows s (sv_disk s1) ?fs" "aof_view s (sv_disk s1) = ?V0" "steps (\<lambda>d. aof_view s d = ?V0) s s1"
        "same_env s s1"
      using disk_shows_changes [OF ok(3) r(1)] by simp_all
    note e1 = changes_env [OF r(1)]
    obtain am2 ni s2 ok2 where inc: "rewrite_incr io am s1 = (am2, ni, s2, ok2)" using prod_cases4 by blast
    let ?ti = "aof_path s (getTempIncrAofName ?cfg)"
    let ?nip = "aof_path s (incr_file_name ?cfg (curr_incr_file_seq am + 1))"
    have lim: "curr_incr_file_seq am < INT64_MAX" using am(6) assms(3) by simp
    note st = rewrite_incr_stage [OF ok(1,2) d1(4) e1(3) d1(1) am(2,6) lim am(5) inc]
    note d2 = disk_shows_changes [OF d1(1) st(4,6,5) d1(4), unfolded d1(2)]
    note e2 = changes_env [OF st(4)]
    have s2: "aof_manifest s2 = ?M" "child_pid s2 = child_pid s" "aof_fd_open s2 = aof_fd_open s"
      using e1 e2 by simp_all
    have new: "p \<noteq> manifest_path s \<and> p \<notin> file_paths s ?fs" if "p = aof_path s nb \<or> ni = Some p" for p
      using that nb st(5-7) by auto
    have old: "steps (\<lambda>d. aof_view s d \<in> {?V0, ?V1}) s s2"
      using steps_trans [OF d1(3) d2(3)] by (rule steps_old) simp
    show ?thesis
    proof (cases ok2)
      case False
      note u = disk_shows_unlink [OF d2(1,4) nb, of "rw_unlink_ok io", unfolded d2(2)]
      let ?s3 = "bg_unlink (rw_unlink_ok io) (aof_path s nb) s2"
      have "rewrite_end s ?V0 ?s3 (rewrite_failed ?s3)"
        using u s2 by (intro rewrite_failed_end [OF ok(1,2)]) simp_all
      moreover have "steps (\<lambda>d. aof_view s d \<in> {?V0, ?V0}) s ?s3"
        using steps_trans [OF steps_trans [OF d1(3) d2(3)] u(3)] by (rule steps_old) simp
      ultimately have "rewrite_end s ?V0 s (rewrite_failed ?s3)" using rewrite_end_trans by blast
      then show ?thesis using am(1) ren True inc False V0 by (auto simp: rewrite_done_def Let_def)
    next
      case ok2: True
      have "aof_path s nb \<notin> {?ti, ?nip}"
        using special_names(8) base_incr_names [OF seqs(1) seqs(2)] am(6) by (auto simp: nb_def)
      then have base_path: "sv_disk s2 (aof_path s nb) = sv_disk s ?tmp" using changes_disk [OF st(4)] r(2) by simp
      have "?ti \<notin> {?tmp, aof_path s nb}" using special_names(8) by (simp add: nb_def) metis
      then have ti: "sv_disk s1 ?ti = sv_disk s ?ti" using changes_disk [OF r(1)] by blast
      have keep: "sv_disk s1 (aof_path s (file_name ai)) = sv_disk s (aof_path s (file_name ai))" if "ai \<in> set ?fs" for ai
        using that nb(2) by (intro changes_disk [OF r(1)]) (auto simp: file_paths_def)
      have kept: "ai \<in> set ?fs" if "ai \<in> set (kept_incr True (incr_aof_list ?M))" for ai
        using that by (auto simp: kept_incr_def used_files_def split: if_splits)
      have files: "map (\<lambda>ai. sv_disk s2 (aof_path s (file_name ai))) (b # kept_incr (aof_fd_open s2) (incr_aof_list am2)) =
        sv_disk s ?tmp # (if \<not> aof_fd_open s then []
        else if aof_state s = AOF_WAIT_REWRITE then [sv_disk s (aof_path s (getTempIncrAofName (aof_cfg s)))]
        else map (\<lambda>ai. sv_disk s (aof_path s (file_name ai))) (kept_incr True (incr_aof_list (aof_manifest s))))"
        using st(8) [OF ok2] s2(3) base_path ti keep [OF kept] am(4)
        by (auto simp: kept_incr_def b_def split: if_splits)
      have "those (map (\<lambda>ai. sv_disk s2 (aof_path s (file_name ai))) (b # kept_incr (aof_fd_open s2) (incr_aof_list am2))) = ?V1"
        unfolding files rewrite_view_def ..
      note V1 = this
      have kept_ex: "None \<notin> (\<lambda>ai. sv_disk s (aof_path s (file_name ai))) ` set (kept_incr True (incr_aof_list ?M))"
      proof
        assume "None \<in> (\<lambda>ai. sv_disk s (aof_path s (file_name ai))) ` set (kept_incr True (incr_aof_list ?M))"
        then obtain ai where "sv_disk s (aof_path s (file_name ai)) = None" "ai \<in> set ?fs"
          using kept by (auto dest: sym)
        then show False using ok(3) unfolding disk_shows_def by blast
      qed
      have "None \<notin> set (map (\<lambda>ai. sv_disk s2 (aof_path s (file_name ai))) (b # kept_incr (aof_fd_open s2) (incr_aof_list am2)))"
        unfolding files using r(3) st(8) [OF ok2] ti kept_ex by (auto split: if_splits)
      then have ex: "\<forall>ai\<in>set (b # kept_incr (aof_fd_open s2) (incr_aof_list am2)). sv_disk s2 (aof_path s (file_name ai)) \<noteq> None"
        by (metis (no_types, lifting) image_eqI image_set)
      have bb: "base_aof_info am2 = Some b" using st(2) am(3) by simp
      have "\<exists>s'. rewrite_commit io nb ni am2 s2 = Some s' \<and> rewrite_end s ?V1 s2 s'"
        by (rule rewrite_commit_end [OF ok(1,2) s2(1) d2(1,2,4) s2(2) assms(4,5) st(1) bb st(3) _ ex V1]) (rule new)
      then obtain s' where "rewrite_commit io nb ni am2 s2 = Some s'" "rewrite_end s ?V1 s2 s'" by blast
      moreover have "?V1 \<noteq> None" unfolding V1 [symmetric] those_total [OF ex] by simp
      ultimately show ?thesis
        using rewrite_end_trans [OF old] am(1) ren True inc ok2 by (auto simp: rewrite_done_def Let_def)
    qed
  qed
qed

text \<open>Files that are not in use may be removed at any time.\<close>

lemma aof_ok_unlink:
  assumes "aof_ok s" "p \<noteq> manifest_path s" "p \<notin> file_paths s (used_files (aof_manifest s))"
  shows "aof_ok (bg_unlink ok p s)" "aof_view s (sv_disk (bg_unlink ok p s)) = aof_view s (sv_disk s)"
    "steps (\<lambda>d. aof_view s d = aof_view s (sv_disk s)) s (bg_unlink ok p s)" "aof_state (bg_unlink ok p s) = aof_state s"
    "aof_lastbgrewrite_ok (bg_unlink ok p s) = aof_lastbgrewrite_ok s" "same_env s (bg_unlink ok p s)"
proof -
  have "disk_shows s (sv_disk s) (used_files (aof_manifest s))" using assms(1) by (simp add: aof_ok_def)
  note u = disk_shows_unlink [OF this same_env_refl assms(2,3), of ok]
  show "aof_ok (bg_unlink ok p s)" using assms(1) u by (intro aof_okI [OF u(4)]) (simp_all add: aof_ok_def)
  show "aof_view s (sv_disk (bg_unlink ok p s)) = aof_view s (sv_disk s)"
    "steps (\<lambda>d. aof_view s d = aof_view s (sv_disk s)) s (bg_unlink ok p s)" "same_env s (bg_unlink ok p s)" using u by simp_all
  show "aof_state (bg_unlink ok p s) = aof_state s" "aof_lastbgrewrite_ok (bg_unlink ok p s) = aof_lastbgrewrite_ok s"
    by (simp_all add: bg_unlink_def set_disk_def)
qed

lemma temp_paths:
  assumes "aof_ok s"
  shows "rewrite_tmpfile bg pid \<noteq> manifest_path s" "rewrite_tmpfile bg pid \<notin> file_paths s (used_files (aof_manifest s))"
    "aof_path s (getTempIncrAofName (aof_cfg s)) \<noteq> manifest_path s"
    "aof_path s (getTempIncrAofName (aof_cfg s)) \<notin> file_paths s (used_files (aof_manifest s))"
  using special_names(2) [of "aof_cfg s"] used_special_paths(3) [of s "aof_manifest s"] assms
  by (auto simp: file_paths_def aof_ok_def)

lemma rewrite_cleanup_ok:
  assumes "aof_ok s"
  shows "aof_ok (rewrite_cleanup io s)" "aof_view s (sv_disk (rewrite_cleanup io s)) = aof_view s (sv_disk s)"
    "steps (\<lambda>d. aof_view s d = aof_view s (sv_disk s)) s (rewrite_cleanup io s)"
    "aof_lastbgrewrite_ok (rewrite_cleanup io s) = aof_lastbgrewrite_ok s"
proof -
  let ?u = "rw_unlink_ok io"
  define s1 where "s1 = bg_unlink ?u (rewrite_tmpfile True (child_pid s)) s"
  note u1 = aof_ok_unlink [OF assms temp_paths(1,2) [OF assms], of ?u True "child_pid s", folded s1_def]
  define s2 where "s2 = bg_unlink ?u (rewrite_tmpfile False (child_pid s)) s1"
  note u2 = aof_ok_unlink [OF u1(1) temp_paths(1,2) [OF u1(1)], of ?u False "child_pid s", folded s2_def]
  define s3 where "s3 = s2\<lparr>aof_buf := (if aof_state s2 = AOF_WAIT_REWRITE then [] else aof_buf s2)\<rparr>"
  have e3: "same_env s2 s3" "sv_trace s3 = sv_trace s2" "sv_disk s3 = sv_disk s2" "aof_manifest s3 = aof_manifest s2"
      "aof_lastbgrewrite_ok s3 = aof_lastbgrewrite_ok s2"
    by (simp_all add: s3_def same_env_def)
  have ok3: "aof_ok s3" using u2(1) e3 by (intro aof_okI [OF e3(1)]) (simp_all add: aof_ok_def)
  define s4 where "s4 = (if aof_state s2 = AOF_WAIT_REWRITE then bg_unlink ?u (aof_path s3 (getTempIncrAofName (aof_cfg s3))) s3 else s3)"
  have u4: "aof_ok s4" "aof_view s3 (sv_disk s4) = aof_view s3 (sv_disk s3)" "steps (\<lambda>d. aof_view s3 d = aof_view s3 (sv_disk s3)) s3 s4"
      "aof_lastbgrewrite_ok s4 = aof_lastbgrewrite_ok s3" "same_env s3 s4"
    using aof_ok_unlink [OF ok3 temp_paths(3,4) [OF ok3], of ?u] ok3 by (auto simp: s4_def)
  define s5 where "s5 = s4\<lparr>aof_rewrite_time_last := rw_time io - aof_rewrite_time_start s4, aof_rewrite_time_start := -1,
    aof_rewrite_scheduled := (if aof_state s4 = AOF_WAIT_REWRITE then True else aof_rewrite_scheduled s4)\<rparr>"
  have e5: "same_env s4 s5" "sv_trace s5 = sv_trace s4" "sv_disk s5 = sv_disk s4" "aof_manifest s5 = aof_manifest s4"
      "aof_lastbgrewrite_ok s5 = aof_lastbgrewrite_ok s4"
    by (simp_all add: s5_def same_env_def)
  have s2_eq: "aof_state s3 = aof_state s2" by (simp add: s3_def)
  have eq: "rewrite_cleanup io s = s5"
    unfolding rewrite_cleanup_def aofRemoveTempFile_def s1_def [symmetric] s2_def [symmetric] aofDelTempIncrAofFile_def Let_def
    by (simp add: s5_def s4_def s3_def)
  have v: "aof_view s1 = aof_view s" "aof_view s2 = aof_view s" "aof_view s3 = aof_view s"
    using same_env_eq(3) u1(6) u2(6) e3(1) by metis+
  show "aof_ok (rewrite_cleanup io s)"
    unfolding eq using u4(1) e5 by (intro aof_okI [OF e5(1)]) (simp_all add: aof_ok_def)
  show "aof_view s (sv_disk (rewrite_cleanup io s)) = aof_view s (sv_disk s)"
    unfolding eq using u1(2) u2(2) u4(2) e3(3) e5(3) v by simp
  show "steps (\<lambda>d. aof_view s d = aof_view s (sv_disk s)) s (rewrite_cleanup io s)"
    unfolding eq
    using steps_trans [OF u1(3) steps_trans [OF u2(3) [unfolded v(1) u1(2)]
        steps_trans [OF steps_update [OF e3(1,2)] steps_trans [OF u4(3) [unfolded v(3) e3(3) u2(2) [unfolded v(1)] u1(2)]
        steps_update [OF e5(1,2)]]]]] .
  show "aof_lastbgrewrite_ok (rewrite_cleanup io s) = aof_lastbgrewrite_ok s"
    unfolding eq using u1(5) u2(5) u4(4) e3(5) e5(5) by simp
qed

lemma rewrite_handler_end:
  assumes "aof_ok s" "curr_base_file_seq (aof_manifest s) < INT64_MAX" "curr_incr_file_seq (aof_manifest s) < INT64_MAX"
    "io_fsync_dir_ok (rw_manifest io)" "io_fsync_dir_ok (rw_manifest_del io)"
  shows "\<exists>s'. backgroundRewriteDoneHandler io exitcode bysignal s = Some s' \<and> aof_ok s'
    \<and> steps (\<lambda>d. aof_view s d \<in> {aof_view s (sv_disk s), rewrite_view s} - {None}) s s'
    \<and> aof_view s (sv_disk s') = (if bysignal = 0 \<and> exitcode = 0 \<and> aof_lastbgrewrite_ok s' then rewrite_view s
         else aof_view s (sv_disk s))"
proof -
  let ?A = "{aof_view s (sv_disk s), rewrite_view s} - {None}"
  let ?P = "\<lambda>d. aof_view s d \<in> ?A"
  note V0 = aof_ok_view [OF assms(1)]
  obtain s1 where s1: "(if bysignal = 0 \<and> exitcode = 0 then rewrite_done io s
        else if bysignal = 0 then Some (rewrite_failed s)
        else if bysignal \<noteq> 10 then Some (rewrite_failed s) else Some s) = Some s1"
    "aof_ok s1" "same_env s s1" "steps ?P s s1" "aof_view s (sv_disk s1) \<in> ?A"
    "aof_view s (sv_disk s1) = (if bysignal = 0 \<and> exitcode = 0 \<and> aof_lastbgrewrite_ok s1 then rewrite_view s
       else aof_view s (sv_disk s))"
  proof (cases "bysignal = 0 \<and> exitcode = 0")
    case True
    obtain s1 V where r: "rewrite_done io s = Some s1" "rewrite_end s V s s1" "V \<noteq> None"
      "V = rewrite_view s \<or> V = aof_view s (sv_disk s) \<and> \<not> aof_lastbgrewrite_ok s1"
      using rewrite_done_end [OF assms] by blast
    have "steps ?P s s1" using r V0 by (auto simp: rewrite_end_def elim!: steps_mono)
    then show thesis using True r V0 by (intro that [of s1]) (auto simp: rewrite_end_def)
  next
    case False
    have "rewrite_end s (rewrite_view s) s (rewrite_failed s)"
      using assms(1) by (intro rewrite_failed_end) (simp_all add: aof_ok_def)
    then have "aof_ok (rewrite_failed s)" "steps ?P s (rewrite_failed s)" by (auto simp: rewrite_end_def steps_update)
    then show thesis
      using False assms(1) V0 that [of s] that [of "rewrite_failed s"] by (cases "bysignal = 10"; cases "bysignal = 0") auto
  qed
  note c = rewrite_cleanup_ok [OF s1(2), of io, unfolded same_env_eq(3) [OF s1(3)]]
  have "steps ?P s (rewrite_cleanup io s1)" using steps_trans [OF s1(4) steps_old [OF c(3) s1(5)]] .
  moreover have "backgroundRewriteDoneHandler io exitcode bysignal s = Some (rewrite_cleanup io s1)"
    using s1(1) by (simp add: backgroundRewriteDoneHandler_def)
  ultimately show ?thesis using c s1(6) by auto
qed

text \<open>
  \<^bold>\<open>C2\<close> Crash safety of \<open>backgroundRewriteDoneHandler\<close>: whatever system calls fail, except the \<open>fsync\<close> of the
  directory, every directory that exists on the way, so whatever a crash leaves behind, makes a starting
  server load either exactly the old files or exactly the new base file with the file being written. The
  handler does not hit an assertion, the manifest in memory and the one on disk agree again at the end, and
  the new files are in use if and only if the handler reports success.
\<close>

theorem rewrite_crash_safe:
  assumes "aof_ok s" "curr_base_file_seq (aof_manifest s) < INT64_MAX" "curr_incr_file_seq (aof_manifest s) < INT64_MAX"
    "io_fsync_dir_ok (rw_manifest io)" "io_fsync_dir_ok (rw_manifest_del io)"
  shows "\<exists>s'. backgroundRewriteDoneHandler io exitcode bysignal s = Some s' \<and> aof_ok s'
    \<and> steps (\<lambda>d. aof_view s d \<in> {aof_view s (sv_disk s), rewrite_view s} - {None}) s s'
    \<and> aof_view s (sv_disk s') = (if bysignal = 0 \<and> exitcode = 0 \<and> aof_lastbgrewrite_ok s' then rewrite_view s
         else aof_view s (sv_disk s))"
  using rewrite_handler_end [OF assms] .

section \<open>Opening a new incremental file\<close>

lemma openNewIncrAofForAppend_ok:
  assumes "aof_ok s" "curr_incr_file_seq (aof_manifest s) < INT64_MAX" "io_fsync_dir_ok io"
    "openNewIncrAofForAppend open_ok io s = (s', r)"
  shows "aof_ok s' \<and> steps (\<lambda>d. aof_view s d \<in> {aof_view s (sv_disk s), map_option (\<lambda>v. v @ [[]]) (aof_view s (sv_disk s))}) s s'"
proof -
  let ?M = "aof_manifest s" and ?cfg = "aof_cfg s" and ?V0 = "aof_view s (sv_disk s)"
  let ?A = "{?V0, map_option (\<lambda>v. v @ [[]]) ?V0}"
  let ?fs = "used_files ?M"
  have ok: "cfg_ok ?cfg" "aof_manifest_ok ?cfg ?M" "disk_shows s (sv_disk s) ?fs"
    using assms(1) by (simp_all add: aof_ok_def)
  have seq: "is_int64 (curr_incr_file_seq ?M + 1)" using ok(2) assms(2) by (auto simp: aof_manifest_ok_def is_int64_def)
  define n where "n = (if aof_state s = AOF_WAIT_REWRITE then getTempIncrAofName ?cfg else incr_file_name ?cfg (curr_incr_file_seq ?M + 1))"
  define s1 where "s1 = set_disk ((sv_disk s)(aof_path s n := Some [])) s"
  have np: "aof_path s n \<noteq> manifest_path s" "aof_path s n \<notin> file_paths s ?fs"
    using special_names(2,5) used_special_paths(3) [OF ok(2)] fresh_paths(2) [OF ok(2) seq] by (auto simp: n_def) metis
  have ch1: "changes {aof_path s n} s s1" unfolding s1_def by (rule changes_set_disk) simp
  have d1: "disk_shows s (sv_disk s1) ?fs" "aof_view s (sv_disk s1) = ?V0" "steps (\<lambda>d. aof_view s d = ?V0) s s1" "same_env s s1"
    using disk_shows_changes [OF ok(3) ch1] np by auto
  note e1 = changes_env [OF ch1]
  have upd: "aof_ok (s2\<lparr>aof_fd_open := True, aof_last_incr_size := 0, aof_last_incr_fsync_offset := 0, aof_manifest := am\<rparr>)"
    if "same_env s s2" "aof_manifest_ok ?cfg am" "disk_shows s (sv_disk s2) (used_files am)" for s2 am
    using that ok(1) by (intro aof_okI [of s]) (simp_all add: same_env_def)
  have upd_steps: "steps P s (s2\<lparr>aof_fd_open := True, aof_last_incr_size := 0, aof_last_incr_fsync_offset := 0, aof_manifest := am\<rparr>)"
    if "steps P s s2" for s2 am P
    using that by (simp add: steps_def same_env_def)
  consider "aof_state s = AOF_OFF \<or> \<not> open_ok" | "aof_state s = AOF_WAIT_REWRITE" "open_ok" | "aof_state s = AOF_ON" "open_ok"
    by (cases "aof_state s") auto
  then show ?thesis
  proof cases
    case 1
    then have "s' = s" using assms(4) by (auto simp: openNewIncrAofForAppend_def split: if_splits prod.splits)
    then show ?thesis using assms(1) by simp
  next
    case 2
    then have "s' = s1\<lparr>aof_fd_open := True, aof_last_incr_size := 0, aof_last_incr_fsync_offset := 0, aof_manifest := ?M\<rparr>"
      using assms(4) by (auto simp: openNewIncrAofForAppend_def s1_def n_def Let_def split: if_splits prod.splits)
    then show ?thesis using upd [OF d1(4) ok(2) d1(1)] upd_steps [OF steps_old [OF d1(3)], of ?A] by simp
  next
    case 3
    define new where "new = \<lparr>file_name = n, file_seq = curr_incr_file_seq ?M + 1, file_type = 105\<rparr>"
    obtain am where am: "getNewIncrAofName ?cfg ?M = (am, n)" "aof_manifest_ok ?cfg am" "base_aof_info am = base_aof_info ?M"
      "incr_aof_list am = incr_aof_list ?M @ [new]" "dirty am"
      using new_incr_ok [OF ok(1,2) assms(2)] 3 unfolding n_def new_def by auto
    have used: "used_files am = ?fs @ [new]" using am by (simp add: used_files_def)
    obtain am2 s2 ok2 where p: "persistAofManifest io am s1 = (am2, s2, ok2)" using prod_cases3 by blast
    have ex: "\<forall>ai\<in>set (used_files am). sv_disk s1 (aof_path s (file_name ai)) \<noteq> None"
      using d1(1) unfolding used by (auto simp: disk_shows_def new_def s1_def)
    have V: "those (map (\<lambda>ai. sv_disk s1 (aof_path s (file_name ai))) (used_files am)) = map_option (\<lambda>v. v @ [[]]) ?V0"
    proof -
      have "?V0 = Some (map (\<lambda>ai. the (sv_disk s1 (aof_path s (file_name ai)))) ?fs)"
        using disk_shows_view [OF d1(1)] d1(1,2) those_total [of ?fs "\<lambda>ai. sv_disk s1 (aof_path s (file_name ai))"]
        by (auto simp: disk_shows_def)
      then show ?thesis unfolding those_total [OF ex] by (simp add: used new_def s1_def)
    qed
    note pc = persist_cases [OF p assms(3) am(5) d1(4,1) used_special_paths(2) [OF ok(2)] am(2) _ ex, unfolded V d1(2)]
    show ?thesis
    proof (cases ok2)
      case True
      then have r: "am2 = am\<lparr>dirty := False\<rparr>" "disk_shows s (sv_disk s2) (used_files am)" "steps (\<lambda>d. aof_view s d \<in> ?A) s1 s2"
        using pc used by auto
      have st: "steps (\<lambda>d. aof_view s d \<in> ?A) s s2" using steps_trans [OF steps_old [OF d1(3)] r(3)] by simp
      have "s' = s2\<lparr>aof_fd_open := True, aof_last_incr_size := 0, aof_last_incr_fsync_offset := 0, aof_manifest := am2\<rparr>"
        using assms(4) am(1) p 3 True
        by (auto simp: openNewIncrAofForAppend_def s1_def Let_def split: if_splits prod.splits)
      moreover have "used_files am2 = used_files am" "aof_manifest_ok ?cfg am2" using r(1) am(2) by (simp_all add: used_files_def)
      ultimately show ?thesis using upd [of s2 am2] r(2) st upd_steps [OF st] by (simp add: steps_def)
    next
      case False
      then have r: "changes {temp_manifest_path s} s1 s2" using pc used by auto
      have tmp: "manifest_path s \<notin> {temp_manifest_path s}" "{temp_manifest_path s} \<inter> file_paths s ?fs = {}"
        using used_special_paths(2) [OF ok(2)] by (simp_all add: special_names)
      note d2 = disk_shows_changes [OF d1(1) r tmp d1(4), unfolded d1(2)]
      have "s' = s2"
        using assms(4) am(1) p 3 False
        by (auto simp: openNewIncrAofForAppend_def s1_def Let_def split: if_splits prod.splits)
      moreover have "aof_ok s2"
        using d2 ok e1 changes_env [OF r] by (intro aof_okI [of s]) simp_all
      ultimately show ?thesis using steps_old [OF steps_trans [OF d1(3) d2(3)], of ?A] by simp
    qed
  qed
qed

section \<open>Runs\<close>

text \<open>
  What can happen to the files while a server runs: rewrites end, in success or not, incremental files are
  opened, history files are removed, commands are appended to the file being written, the child of a rewrite
  writes its temporary file, and the configuration switches the append only file on and off.
\<close>

inductive aof_run :: "aof_server \<Rightarrow> aof_server \<Rightarrow> bool" for s0 where
  init: "aof_run s0 s0"
| rewrite_end: "aof_run s0 s \<Longrightarrow> curr_base_file_seq (aof_manifest s) < INT64_MAX \<Longrightarrow>
    curr_incr_file_seq (aof_manifest s) < INT64_MAX \<Longrightarrow> io_fsync_dir_ok (rw_manifest io) \<Longrightarrow>
    io_fsync_dir_ok (rw_manifest_del io) \<Longrightarrow> backgroundRewriteDoneHandler io exitcode bysignal s = Some s' \<Longrightarrow> aof_run s0 s'"
| open_incr: "aof_run s0 s \<Longrightarrow> curr_incr_file_seq (aof_manifest s) < INT64_MAX \<Longrightarrow> io_fsync_dir_ok mio \<Longrightarrow>
    openNewIncrAofForAppend open_ok mio s = (s', r) \<Longrightarrow> aof_run s0 s'"
| del_history: "aof_run s0 s \<Longrightarrow> io_fsync_dir_ok mio \<Longrightarrow> aofDelHistoryFiles unlink_ok mio s = Some (s', r) \<Longrightarrow> aof_run s0 s'"
| append: "aof_run s0 s \<Longrightarrow> incr_aof_list (aof_manifest s) \<noteq> [] \<Longrightarrow>
    aof_run s0 (sys_append (aof_path s (file_name (List.last (incr_aof_list (aof_manifest s))))) buf s)"
| append_temp: "aof_run s0 s \<Longrightarrow> aof_run s0 (sys_append (aof_path s (getTempIncrAofName (aof_cfg s))) buf s)"
| child: "aof_run s0 s \<Longrightarrow> aof_run s0 ((sys_append (rewrite_tmpfile bg pid) buf s)\<lparr>child_pid := pid\<rparr>)"
| config: "aof_run s0 s \<Longrightarrow> aof_run s0 (s\<lparr>aof_state := st, aof_fd_open := fd_open\<rparr>)"

definition run_ok :: "aof_server \<Rightarrow> aof_server \<Rightarrow> bool" where
  "run_ok s0 s \<longleftrightarrow> aof_ok s \<and> steps (\<lambda>d. aof_view s0 d \<noteq> None) s0 s"

lemma run_ok_step:
  assumes "run_ok s0 s" "aof_ok s'" "steps (\<lambda>d. aof_view s d \<noteq> None) s s'"
  shows "run_ok s0 s'"
proof -
  have env: "same_env s0 s" using assms(1) by (simp add: run_ok_def steps_def)
  have "steps (\<lambda>d. aof_view s0 d \<noteq> None) s s'" using assms(3) unfolding same_env_eq(3) [OF env] .
  then show ?thesis using assms(1,2) steps_trans unfolding run_ok_def by blast
qed

lemma run_ok_update:
  assumes "run_ok s0 s" "same_env s s'" "aof_manifest s' = aof_manifest s" "sv_disk s' = sv_disk s" "sv_trace s' = sv_trace s"
  shows "run_ok s0 s'"
proof (rule run_ok_step [OF assms(1)])
  show "aof_ok s'" using assms by (intro aof_okI [OF assms(2)]) (simp_all add: run_ok_def aof_ok_def)
qed (rule steps_update [OF assms(2,5)])

lemma run_ok_append:
  assumes "run_ok s0 s" "p \<noteq> manifest_path s"
  shows "run_ok s0 (sys_append p buf s)"
proof -
  define d where "d = (sv_disk s)(p := Some ((case sv_disk s p of None \<Rightarrow> [] | Some c \<Rightarrow> c) @ buf))"
  have sh: "disk_shows s d (used_files (aof_manifest s))"
    using assms by (auto simp: run_ok_def aof_ok_def disk_shows_def disk_manifest_def d_def)
  have "aof_ok (set_disk d s)"
    using assms(1) sh by (intro aof_okI [of s]) (simp_all add: run_ok_def aof_ok_def same_env_def)
  moreover have "aof_view s d \<noteq> None" using disk_shows_total [OF sh] .
  ultimately have "run_ok s0 (set_disk d s)"
    using run_ok_step [OF assms(1)] steps_set_disk [of "\<lambda>d. aof_view s d \<noteq> None" d s] by simp
  then show ?thesis by (simp add: sys_append_def d_def)
qed

lemma aof_run_ok: "aof_run s0 s \<Longrightarrow> aof_ok s0 \<Longrightarrow> run_ok s0 s"
proof (induction rule: aof_run.induct)
  case init
  then show ?case by (simp add: run_ok_def)
next
  case (rewrite_end s io exitcode bysignal s')
  then have ok: "run_ok s0 s" "aof_ok s" by (simp_all add: run_ok_def)
  from rewrite_handler_end [OF ok(2) rewrite_end.hyps(2-5), of exitcode bysignal] rewrite_end.hyps(6)
  have "aof_ok s'" "steps (\<lambda>d. aof_view s d \<in> {aof_view s (sv_disk s), rewrite_view s} - {None}) s s'" by auto
  then have "steps (\<lambda>d. aof_view s d \<noteq> None) s s'" by (elim steps_mono) simp
  then show ?case using run_ok_step [OF ok(1) \<open>aof_ok s'\<close>] by simp
next
  case (open_incr s mio open_ok s' r)
  then have ok: "run_ok s0 s" "aof_ok s" by (simp_all add: run_ok_def)
  note r = openNewIncrAofForAppend_ok [OF ok(2) open_incr.hyps(2-4)]
  have "steps (\<lambda>d. aof_view s d \<noteq> None) s s'"
    using conjunct2 [OF r] by (rule steps_mono) (use aof_ok_view [OF ok(2)] in auto)
  then show ?case using run_ok_step [OF ok(1)] r by blast
next
  case (del_history s mio unlink_ok s' r)
  then have ok: "run_ok s0 s" "aof_ok s" by (simp_all add: run_ok_def)
  obtain s2 r2 where r: "aofDelHistoryFiles unlink_ok mio s = Some (s2, r2)" "aof_ok s2"
      "steps (\<lambda>d. aof_view s d = aof_view s (sv_disk s)) s s2"
    using aofDelHistoryFiles_ok [OF ok(2) del_history.hyps(2), of unlink_ok] by blast
  have "steps (\<lambda>d. aof_view s d \<noteq> None) s s2"
    using r(3) by (rule steps_mono) (use aof_ok_view [OF ok(2)] in simp)
  then show ?case using run_ok_step [OF ok(1)] r(1,2) del_history.hyps(3) by simp
next
  case (append s buf)
  let ?ai = "List.last (incr_aof_list (aof_manifest s))"
  have "run_ok s0 s" using append by simp
  moreover have "?ai \<in> set (used_files (aof_manifest s))" using append.hyps(2) by (simp add: used_files_def)
  ultimately show ?case
    using named_special(1) [OF used_named] by (intro run_ok_append) (auto simp: run_ok_def aof_ok_def)
next
  case (append_temp s buf)
  then show ?case using special_names(2) by (intro run_ok_append) (auto dest: sym)
next
  case (child s pid bg buf)
  then have "run_ok s0 (sys_append (rewrite_tmpfile bg pid) buf s)" by (intro run_ok_append) simp_all
  then show ?case by (rule run_ok_update) (simp_all add: same_env_def)
next
  case (config s st fd_open)
  then have "run_ok s0 s" by simp
  then show ?case by (rule run_ok_update) (simp_all add: same_env_def)
qed


end
