(* ===== verification/Aof_Crash_Examples.thy ===== *)
theory Aof_Crash_Examples
  imports Aof_Crash
begin

text \<open>
  A concrete server for the theorems about the append only files, and two situations the code does not handle.
\<close>

section \<open>Examples\<close>

text \<open>A server with \<open>appendfilename a\<close> in the directory \<open>d\<close>, one base and one incremental file.\<close>

definition ex_manifest :: aofManifest where
  "ex_manifest =
     (let cfg = \<lparr>aof_filename = [97], aof_use_rdb_preamble = True\<rparr>
      in aofManifestCreate\<lparr>
           base_aof_info := Some \<lparr>file_name = base_file_name cfg 1, file_seq = 1, file_type = 98\<rparr>,
           incr_aof_list := [\<lparr>file_name = incr_file_name cfg 1, file_seq = 1, file_type = 105\<rparr>],
           curr_base_file_seq := 1, curr_incr_file_seq := 1\<rparr>)"

definition ex_server :: "aof_state \<Rightarrow> bool \<Rightarrow> aof_server" where
  "ex_server st fd_open =
     (let cfg = \<lparr>aof_filename = [97], aof_use_rdb_preamble = True\<rparr>;
          path = makePath [100];
          d = (\<lambda>_. None)(path (getAofManifestFileName cfg) := Some (getAofManifestAsString ex_manifest),
                path (base_file_name cfg 1) := Some [1], path (incr_file_name cfg 1) := Some [2],
                path (getTempIncrAofName cfg) := Some [3], rewrite_tmpfile True 7 := Some [9])
      in \<lparr>aof_cfg = cfg, aof_dirname = [100], aof_manifest = ex_manifest, aof_state = st, aof_fd_open = fd_open,
         aof_disable_auto_gc = False, child_pid = 7, aof_buf = [], aof_lastbgrewrite_ok = True,
         stat_aofrw_consecutive_failures = 0, aof_rewrite_scheduled = False, aof_current_size = 2,
         aof_rewrite_base_size = 1, aof_last_incr_size = 1, aof_last_incr_fsync_offset = 1, fsynced_reploff = 0,
         fsynced_reploff_pending = 0, aof_rewrite_time_start = 0, aof_rewrite_time_last = 0, sv_disk = d, sv_trace = []\<rparr>)"

definition ex_manifest_io :: "bool \<Rightarrow> manifest_io" where
  "ex_manifest_io dir_ok = \<lparr>io_open_ok = True, io_writes = [], io_fsync_ok = True,
     io_rename_ok = True, io_fsync_dir_ok = dir_ok\<rparr>"

definition ex_rewrite_io :: "bool \<Rightarrow> rewrite_io" where
  "ex_rewrite_io dir_ok = \<lparr>rw_rename_base_ok = True, rw_rename_incr_ok = True, rw_manifest = ex_manifest_io dir_ok,
     rw_manifest_del = ex_manifest_io True, rw_unlink_ok = (\<lambda>_. True), rw_time = 1\<rparr>"

definition crash_and_start :: "disk \<Rightarrow> bool" where
  "crash_and_start d =
     (let s = (ex_server AOF_ON False)\<lparr>sv_disk := d\<rparr>;
          io = \<lparr>st_dir_ok = True, st_rewritten = None, st_open_ok = True, st_manifest = ex_manifest_io True\<rparr>
      in aof_view s d = Some [[9]] \<and>
         (case aof_start io (\<lambda>_. True) (ex_manifest_io True) s of
            Some (Inr s') \<Rightarrow> aof_fd_open s' \<and> aof_view s' (sv_disk s') = None
          | _ \<Rightarrow> False))"

lemma ex_server_ok: "aof_ok (ex_server st fd_open)"
  by code_simp

theorem rewrite_crash_safe_witness:
  "\<exists>s'. backgroundRewriteDoneHandler (ex_rewrite_io True) 0 0 (ex_server AOF_ON True) = Some s' \<and> aof_ok s'
    \<and> steps (\<lambda>d. aof_view (ex_server AOF_ON True) d \<in> {aof_view (ex_server AOF_ON True) (sv_disk (ex_server AOF_ON True)),
        rewrite_view (ex_server AOF_ON True)} - {None}) (ex_server AOF_ON True) s'
    \<and> rewrite_view (ex_server AOF_ON True) = Some [[9], [2]]"
proof -
  have "curr_base_file_seq (aof_manifest (ex_server AOF_ON True)) < INT64_MAX"
    "curr_incr_file_seq (aof_manifest (ex_server AOF_ON True)) < INT64_MAX"
    "io_fsync_dir_ok (rw_manifest (ex_rewrite_io True))" "io_fsync_dir_ok (rw_manifest_del (ex_rewrite_io True))"
    by (simp_all add: ex_server_def ex_manifest_def ex_rewrite_io_def ex_manifest_io_def Let_def)
  from rewrite_crash_safe [OF ex_server_ok this, of 0 0] have "\<exists>s'. backgroundRewriteDoneHandler (ex_rewrite_io True) 0 0 (ex_server AOF_ON True) = Some s' \<and> aof_ok s'
    \<and> steps (\<lambda>d. aof_view (ex_server AOF_ON True) d \<in> {aof_view (ex_server AOF_ON True) (sv_disk (ex_server AOF_ON True)),
        rewrite_view (ex_server AOF_ON True)} - {None}) (ex_server AOF_ON True) s'" by blast
  moreover have "rewrite_view (ex_server AOF_ON True) = Some [[9], [2]]" by code_simp
  ultimately show ?thesis by blast
qed




end
