(* ===== verification/Resp.thy ===== *)
theory Resp
  imports Sds_Args
begin

text \<open>
  Reading requests from a client connection (\<open>networking.c\<close>): the query buffer, the inline and the multibulk
  protocol, the loop that executes complete commands, and the replication offsets of a connection to the master.
  Executing a command (\<open>processCommand\<close>) is the parameter \<open>exec\<close>; it maps the state \<open>'w\<close> of the rest of the server and
  the client to new ones, and says whether it returned \<open>C_OK\<close> and whether it freed the client.
  \<open>None\<close> is a failed assertion, an access outside an array, a signed overflow, or a loop that does not end.
\<close>

section \<open>State\<close>

datatype req_type = PROTO_REQ_UNKNOWN | PROTO_REQ_INLINE | PROTO_REQ_MULTIBULK

datatype proto_error =
  ERR_BIG_INLINE | ERR_UNBALANCED | ERR_BIG_MBULK_COUNT | ERR_MBULK_LEN | ERR_UNAUTH_MBULK
| ERR_BIG_BULK_COUNT | ERR_NOT_DOLLAR byte | ERR_BULK_LEN | ERR_UNAUTH_BULK

datatype cmd_proc = CMD_NONE | CMD_ASKING | CMD_CLIENT | CMD_OTHER

text \<open>
  The fields of \<open>client\<close> that reading uses. The flags are single fields. \<open>argv\<close> holds the \<open>argc\<close> arguments read so far,
  \<open>argv_len\<close> is the size of the array. \<open>fl_slave\<close> is \<open>getClientType(c) == CLIENT_TYPE_SLAVE\<close>. \<open>replies\<close> are the errors sent to the client, \<open>fed\<close> the bytes handed to
  \<open>replicationFeedStreamFromMasterStream\<close>.
\<close>

record client =
  querybuf :: bytes
  qb_pos :: nat
  reqtype :: req_type
  multibulklen :: int
  bulklen :: int
  argv :: "bytes list"
  argv_len :: nat
  argv_len_sum :: nat
  cmd :: cmd_proc
  slot :: int
  duration :: int
  fl_master :: bool
  fl_slave :: bool
  fl_blocked :: bool
  fl_pending_command :: bool
  fl_close_after_reply :: bool
  fl_close_asap :: bool
  fl_protocol_error :: bool
  fl_multi :: bool
  fl_asking :: bool
  fl_tracking_caching :: bool
  fl_reply_skip :: bool
  fl_reply_skip_next :: bool
  fl_executing_command :: bool
  authenticated :: bool
  repl_ack_time :: int
  reploff :: int
  read_reploff :: int
  repl_applied :: nat
  lastinteraction :: int
  replies :: "proto_error list"
  fed :: bytes

record net_env =
  proto_max_bulk_len :: int
  client_max_querybuf_len :: nat
  unixtime :: int
  default_user_nopass :: bool
  default_user_disabled :: bool
  inside_yielding_long_command :: bool
  io_threads_reading :: bool

abbreviation (input) PROTO_INLINE_MAX_SIZE :: nat where "PROTO_INLINE_MAX_SIZE \<equiv> 65536"
abbreviation (input) PROTO_MBULK_BIG_ARG :: int where "PROTO_MBULK_BIG_ARG \<equiv> 32768"
abbreviation (input) INT_MAX :: int where "INT_MAX \<equiv> INT32_MAX"

definition authRequired :: "net_env \<Rightarrow> client \<Rightarrow> bool" where
  "authRequired env c \<longleftrightarrow> (\<not> default_user_nopass env \<or> default_user_disabled env) \<and> \<not> authenticated c"

text \<open>The bytes of the buffer that are not read yet.\<close>

definition unread :: "client \<Rightarrow> bytes" where
  "unread c = drop (qb_pos c) (querybuf c)"

definition createClient :: "net_env \<Rightarrow> client" where
  "createClient env = \<lparr>querybuf = [], qb_pos = 0, reqtype = PROTO_REQ_UNKNOWN, multibulklen = 0, bulklen = -1,
     argv = [], argv_len = 0, argv_len_sum = 0, cmd = CMD_NONE, slot = -1, duration = 0, fl_master = False,
     fl_slave = False, fl_blocked = False, fl_pending_command = False, fl_close_after_reply = False,
     fl_close_asap = False, fl_protocol_error = False, fl_multi = False, fl_asking = False,
     fl_tracking_caching = False, fl_reply_skip = False, fl_reply_skip_next = False, fl_executing_command = False,
     authenticated = default_user_nopass env \<and> \<not> default_user_disabled env, repl_ack_time = 0, reploff = 0,
     read_reploff = 0, repl_applied = 0, lastinteraction = unixtime env, replies = [], fed = []\<rparr>"

section \<open>Resetting and errors\<close>

definition freeClientArgv :: "client \<Rightarrow> client" where
  "freeClientArgv c = c\<lparr>argv := [], cmd := CMD_NONE, argv_len_sum := 0, argv_len := 0\<rparr>"

definition resetClient :: "client \<Rightarrow> client option" where
  "resetClient c =
     (let prevcmd = cmd c;
          c = (freeClientArgv c)\<lparr>reqtype := PROTO_REQ_UNKNOWN, multibulklen := 0, bulklen := -1, slot := -1,
                 fl_executing_command := False\<rparr>
      in do { c_assert (duration c = 0);
              let c = (if \<not> fl_multi c \<and> prevcmd \<noteq> CMD_ASKING then c\<lparr>fl_asking := False\<rparr> else c);
              let c = (if \<not> fl_multi c \<and> prevcmd \<noteq> CMD_CLIENT then c\<lparr>fl_tracking_caching := False\<rparr> else c);
              let c = c\<lparr>fl_reply_skip := False\<rparr>;
              Some (if fl_reply_skip_next c then c\<lparr>fl_reply_skip := True, fl_reply_skip_next := False\<rparr> else c) })"

definition setProtocolError :: "client \<Rightarrow> client" where
  "setProtocolError c = c\<lparr>fl_close_after_reply := True, fl_protocol_error := True\<rparr>"

definition proto_fail :: "proto_error \<Rightarrow> client \<Rightarrow> client" where
  "proto_fail e c = setProtocolError (c\<lparr>replies := replies c @ [e]\<rparr>)"

section \<open>The inline protocol\<close>

text \<open>The length of the line that ends at \<open>newline\<close>, and of its end.\<close>

definition inline_line :: "bytes \<Rightarrow> nat \<Rightarrow> nat \<times> nat" where
  "inline_line buf newline = (if newline \<noteq> 0 \<and> buf ! (newline - 1) = 13 then (newline - 1, 2) else (newline, 1))"

text \<open>The rest of the function once the line is split; the result \<open>True\<close> is \<open>C_OK\<close>.\<close>

definition inline_args :: "net_env \<Rightarrow> client \<Rightarrow> nat \<Rightarrow> nat \<Rightarrow> bytes list \<Rightarrow> client \<times> bool" where
  "inline_args env c querylen linefeed_chars args =
     (let c = (if querylen = 0 \<and> fl_slave c then c\<lparr>repl_ack_time := unixtime env\<rparr> else c)
      in if querylen \<noteq> 0 \<and> fl_master c then (setProtocolError c, False)
         else
           let c = c\<lparr>qb_pos := qb_pos c + querylen + linefeed_chars\<rparr>;
               c = (if args \<noteq> [] then c\<lparr>argv_len := length args, argv_len_sum := sum_list (map length args)\<rparr> else c)
           in (c\<lparr>argv := args\<rparr>, True))"

definition processInlineBuffer :: "net_env \<Rightarrow> client \<Rightarrow> client \<times> bool" where
  "processInlineBuffer env c =
     (case strchr (unread c) 10 of
        None \<Rightarrow> (if length (unread c) > PROTO_INLINE_MAX_SIZE then proto_fail ERR_BIG_INLINE c else c, False)
      | Some newline \<Rightarrow>
          (case inline_line (unread c) newline of (querylen, linefeed_chars) \<Rightarrow>
             (case sdssplitargs (take querylen (unread c)) of
                None \<Rightarrow> (proto_fail ERR_UNBALANCED c, False)
              | Some args \<Rightarrow> inline_args env c querylen linefeed_chars args)))"

section \<open>The multibulk protocol\<close>

text \<open>
  A line of the protocol: the offset of its \<open>\r\<close>, when one is there with one more byte after it. \<open>Inl True\<close>: no \<open>\r\<close> in
  more than \<open>PROTO_INLINE_MAX_SIZE\<close> bytes; \<open>Inl False\<close>: not complete yet.
\<close>

definition proto_line :: "client \<Rightarrow> bool + nat" where
  "proto_line c =
     (case strchr (unread c) 13 of
        None \<Rightarrow> Inl (length (unread c) > PROTO_INLINE_MAX_SIZE)
      | Some newline \<Rightarrow> if int newline > int (length (unread c)) - 2 then Inl False else Inr newline)"

text \<open>The number between the first byte of the line and the \<open>\r\<close>.\<close>

definition proto_number :: "client \<Rightarrow> nat \<Rightarrow> int option" where
  "proto_number c newline = string2ll (take (newline - 1) (drop 1 (unread c)))"

datatype mb_header = MB_DONE client bool | MB_ARGS client

definition mbulk_header :: "net_env \<Rightarrow> client \<Rightarrow> mb_header option" where
  "mbulk_header env c =
     do { c_assert (argv c = []);
          case proto_line c of
            Inl big \<Rightarrow> Some (MB_DONE (if big then proto_fail ERR_BIG_MBULK_COUNT c else c) False)
          | Inr newline \<Rightarrow>
              do { c_assert (c_hd (unread c) = 42);
                   Some (case proto_number c newline of
                           None \<Rightarrow> MB_DONE (proto_fail ERR_MBULK_LEN c) False
                         | Some ll \<Rightarrow>
                             if ll > INT_MAX then MB_DONE (proto_fail ERR_MBULK_LEN c) False
                             else if ll > 10 \<and> authRequired env c then MB_DONE (proto_fail ERR_UNAUTH_MBULK c) False
                             else
                               let c = c\<lparr>qb_pos := qb_pos c + newline + 2\<rparr>
                               in if ll \<le> 0 then MB_DONE c True
                                  else MB_ARGS (c\<lparr>multibulklen := ll, argv_len := nat (min ll 1024), argv_len_sum := 0\<rparr>)) } }"

text \<open>The length of the next argument: \<open>Inl\<close> leaves the loop, with \<open>True\<close> for a protocol error.\<close>

definition bulk_header :: "net_env \<Rightarrow> client \<Rightarrow> (client \<times> bool) + client" where
  "bulk_header env c =
     (case proto_line c of
        Inl big \<Rightarrow> Inl (if big then (proto_fail ERR_BIG_BULK_COUNT c, True) else (c, False))
      | Inr newline \<Rightarrow>
          if c_hd (unread c) \<noteq> 36 then Inl (proto_fail (ERR_NOT_DOLLAR (c_hd (unread c))) c, True)
          else
            (case proto_number c newline of
               None \<Rightarrow> Inl (proto_fail ERR_BULK_LEN c, True)
             | Some ll \<Rightarrow>
                 if ll < 0 \<or> \<not> fl_master c \<and> ll > proto_max_bulk_len env then Inl (proto_fail ERR_BULK_LEN c, True)
                 else if ll > 16384 \<and> authRequired env c then Inl (proto_fail ERR_UNAUTH_BULK c, True)
                 else
                   let c = c\<lparr>qb_pos := qb_pos c + newline + 2\<rparr>;
                       c = (if \<not> fl_master c \<and> ll \<ge> PROTO_MBULK_BIG_ARG \<and> int (length (unread c)) \<le> ll + 2
                            then c\<lparr>querybuf := unread c, qb_pos := 0\<rparr> else c)
                   in Inr (c\<lparr>bulklen := ll\<rparr>)))"

text \<open>\<open>argv\<close> grows if needed; the new argument must fit.\<close>

definition argv_grow :: "client \<Rightarrow> client option" where
  "argv_grow c =
     (if length (argv c) \<ge> argv_len c then
        do { c_assert (int (length (argv c)) + multibulklen c \<le> INT_MAX);
             let cap = (if int (argv_len c) < INT_MAX div 2 then int (argv_len c) * 2 else INT_MAX);
             Some (c\<lparr>argv_len := nat (min cap (int (length (argv c)) + multibulklen c))\<rparr>) }
      else Some c)"

definition argv_push :: "bytes \<Rightarrow> client \<Rightarrow> client option" where
  "argv_push a c =
     do { c_assert (length (argv c) < argv_len c);
          Some (c\<lparr>argv := argv c @ [a], argv_len_sum := argv_len_sum c + length a\<rparr>) }"

definition bulk_argument :: "client \<Rightarrow> client option" where
  "bulk_argument c =
     do { c \<leftarrow> argv_grow c;
          c \<leftarrow> (if \<not> fl_master c \<and> qb_pos c = 0 \<and> bulklen c \<ge> PROTO_MBULK_BIG_ARG
                  \<and> int (length (querybuf c)) = bulklen c + 2
               then do { c \<leftarrow> argv_push (take (length (querybuf c) - 2) (querybuf c)) c; Some (c\<lparr>querybuf := []\<rparr>) }
               else do { c \<leftarrow> argv_push (take (nat (bulklen c)) (unread c)) c;
                         Some (c\<lparr>qb_pos := qb_pos c + nat (bulklen c) + 2\<rparr>) });
          Some (c\<lparr>bulklen := -1, multibulklen := multibulklen c - 1\<rparr>) }"

text \<open>One round of the loop over the arguments; the Boolean result is \<open>C_OK\<close>.\<close>

definition mbulk_step :: "net_env \<Rightarrow> client \<Rightarrow> ((client \<times> bool) + client) option" where
  "mbulk_step env c =
     (if multibulklen c = 0 then Some (Inl (c, True))
      else
        (case (if bulklen c = -1 then bulk_header env c else Inr c) of
           Inl (c, err) \<Rightarrow> Some (Inl (c, False))
         | Inr c \<Rightarrow>
             do { c_assert (is_int64 (bulklen c + 2));
                  if int (length (unread c)) < bulklen c + 2 then Some (Inl (c, False))
                  else map_option Inr (bulk_argument c) }))"

definition processMultibulkBuffer :: "net_env \<Rightarrow> client \<Rightarrow> (client \<times> bool) option" where
  "processMultibulkBuffer env c =
     do { h \<leftarrow> (if multibulklen c = 0 then mbulk_header env c else Some (MB_ARGS c));
          case h of
            MB_DONE c ok \<Rightarrow> Some (c, ok)
          | MB_ARGS c \<Rightarrow> do { c_assert (multibulklen c > 0); c_loop (mbulk_step env) c } }"

section \<open>Executing commands\<close>

type_synonym 'w exec = "'w \<Rightarrow> client \<Rightarrow> 'w \<times> client \<times> bool \<times> bool"

definition commandProcessed :: "client \<Rightarrow> client option" where
  "commandProcessed c =
     (if fl_blocked c then Some c
      else do {
        c \<leftarrow> resetClient c;
        let prev_offset = reploff c;
        let c = (if fl_master c \<and> \<not> fl_multi c
                 then c\<lparr>reploff := read_reploff c - int (length (querybuf c)) + int (qb_pos c)\<rparr> else c);
        if fl_master c then
          let applied = reploff c - prev_offset
          in if applied \<noteq> 0 then
               do { c_assert (applied > 0);
                    data \<leftarrow> mem_read (querybuf c) (repl_applied c) (nat applied);
                    Some (c\<lparr>fed := fed c @ data, repl_applied := repl_applied c + nat applied\<rparr>) }
             else Some c
        else Some c })"

text \<open>The Boolean result is \<open>C_OK\<close>: the client still exists.\<close>

definition processCommandAndResetClient :: "'w exec \<Rightarrow> 'w \<Rightarrow> client \<Rightarrow> ('w \<times> client \<times> bool) option" where
  "processCommandAndResetClient exec w c =
     (case exec w c of (w, c, ok, dead) \<Rightarrow>
        if ok then do { c \<leftarrow> commandProcessed c; Some (w, c, \<not> dead) } else Some (w, c, \<not> dead))"

definition input_stops :: "net_env \<Rightarrow> client \<Rightarrow> bool" where
  "input_stops env c \<longleftrightarrow> fl_blocked c \<or> fl_pending_command c \<or> inside_yielding_long_command env \<and> fl_master c
     \<or> fl_close_after_reply c \<or> fl_close_asap c"

definition detect_reqtype :: "client \<Rightarrow> client" where
  "detect_reqtype c =
     (if reqtype c = PROTO_REQ_UNKNOWN
      then c\<lparr>reqtype := if c_hd (unread c) = 42 then PROTO_REQ_MULTIBULK else PROTO_REQ_INLINE\<rparr> else c)"

definition read_request :: "net_env \<Rightarrow> client \<Rightarrow> (client \<times> bool) option" where
  "read_request env c =
     (if reqtype c = PROTO_REQ_INLINE then Some (processInlineBuffer env c) else processMultibulkBuffer env c)"

text \<open>
  One round of \<open>processInputBuffer\<close>. \<open>Inl (w, c, alive)\<close> leaves the loop, to the trimming of the buffer if the client is
  alive.
\<close>

definition input_step :: "net_env \<Rightarrow> 'w exec \<Rightarrow> 'w \<times> client \<Rightarrow> (('w \<times> client \<times> bool) + ('w \<times> client)) option" where
  "input_step env exec st =
     (case st of (w, c) \<Rightarrow>
        if qb_pos c \<ge> length (querybuf c) \<or> input_stops env c then Some (Inl (w, c, True))
        else
          do { (c, ok) \<leftarrow> read_request env (detect_reqtype c);
               if \<not> ok then Some (Inl (w, c, True))
               else if argv c = [] then do { c \<leftarrow> resetClient c; Some (Inr (w, c)) }
               else if io_threads_reading env then Some (Inl (w, c\<lparr>fl_pending_command := True\<rparr>, True))
               else do { (w, c, alive) \<leftarrow> processCommandAndResetClient exec w c;
                         Some (if alive then Inr (w, c) else Inl (w, c, False)) } })"

definition trim_querybuf :: "client \<Rightarrow> client option" where
  "trim_querybuf c =
     (if fl_master c then
        (if repl_applied c \<noteq> 0 then
           do { c_assert (repl_applied c \<le> qb_pos c);
                Some (c\<lparr>querybuf := drop (repl_applied c) (querybuf c), qb_pos := qb_pos c - repl_applied c, repl_applied := 0\<rparr>) }
         else Some c)
      else Some (c\<lparr>querybuf := unread c, qb_pos := 0\<rparr>))"

definition processInputBuffer :: "net_env \<Rightarrow> 'w exec \<Rightarrow> 'w \<Rightarrow> client \<Rightarrow> ('w \<times> client \<times> bool) option" where
  "processInputBuffer env exec w c =
     do { (w, c, alive) \<leftarrow> c_loop (input_step env exec) (w, c);
          if alive then do { c \<leftarrow> trim_querybuf c; Some (w, c, True) } else Some (w, c, False) }"

definition processPendingCommandAndInputBuffer :: "net_env \<Rightarrow> 'w exec \<Rightarrow> 'w \<Rightarrow> client \<Rightarrow> ('w \<times> client \<times> bool) option" where
  "processPendingCommandAndInputBuffer env exec w c =
     do { (w, c, alive) \<leftarrow> (if fl_pending_command c
            then processCommandAndResetClient exec w (c\<lparr>fl_pending_command := False\<rparr>) else Some (w, c, True));
          if \<not> alive then Some (w, c, False)
          else if length (querybuf c) > 0 then processInputBuffer env exec w c
          else Some (w, c, True) }"

section \<open>Reading from the connection\<close>

datatype conn_result = READ_AGAIN | READ_ERROR | READ_EOF | READ_DATA bytes

text \<open>
  \<open>readQueryFromClient\<close> with the result of \<open>connRead\<close>; how many bytes it asks for does not matter here. The client is freed
  later (\<open>freeClientAsync\<close>) by setting \<open>CLIENT_CLOSE_ASAP\<close>.
\<close>

definition readQueryFromClient :: "net_env \<Rightarrow> 'w exec \<Rightarrow> conn_result \<Rightarrow> 'w \<Rightarrow> client \<Rightarrow> ('w \<times> client \<times> bool) option" where
  "readQueryFromClient env exec r w c =
     (case r of
        READ_AGAIN \<Rightarrow> Some (w, c, True)
      | READ_ERROR \<Rightarrow> Some (w, c\<lparr>fl_close_asap := True\<rparr>, True)
      | READ_EOF \<Rightarrow> Some (w, c\<lparr>fl_close_asap := True\<rparr>, True)
      | READ_DATA data \<Rightarrow>
          let c = c\<lparr>querybuf := querybuf c @ data, lastinteraction := unixtime env\<rparr>;
              c = (if fl_master c then c\<lparr>read_reploff := read_reploff c + int (length data)\<rparr> else c)
          in if \<not> fl_master c \<and> length (querybuf c) > client_max_querybuf_len env
             then Some (w, c\<lparr>fl_close_asap := True\<rparr>, True)
             else processInputBuffer env exec w c)"

text \<open>A client that is freed reads nothing more.\<close>

fun read_all :: "net_env \<Rightarrow> 'w exec \<Rightarrow> conn_result list \<Rightarrow> 'w \<Rightarrow> client \<Rightarrow> ('w \<times> client \<times> bool) option" where
  "read_all env exec [] w c = Some (w, c, True)"
| "read_all env exec (r # rs) w c =
     do { (w, c, alive) \<leftarrow> readQueryFromClient env exec r w c;
          if alive then read_all env exec rs w c else Some (w, c, False) }"

end
