(* ===== verification/Resp_Safe.thy ===== *)
theory Resp_Safe
  imports Resp
begin

text \<open>
  Reading requests is safe: whatever bytes arrive in whatever pieces, no assertion fails, no argument is stored outside
  \<open>argv\<close>, no index overflows and the loops end.
\<close>

section \<open>The invariant\<close>

definition parse_ok :: "client \<Rightarrow> bool" where
  "parse_ok c \<longleftrightarrow> 0 \<le> multibulklen c \<and> -1 \<le> bulklen c \<and> bulklen c \<le> INT64_MAX - 2
     \<and> (multibulklen c = 0 \<longrightarrow> argv c = [] \<and> bulklen c = -1 \<and> (reqtype c = PROTO_REQ_MULTIBULK \<longrightarrow> c_hd (unread c) = 42))
     \<and> (0 < multibulklen c \<longrightarrow> reqtype c = PROTO_REQ_MULTIBULK \<and> length (argv c) \<le> argv_len c \<and> 0 < argv_len c
          \<and> int (argv_len c) \<le> INT_MAX \<and> int (length (argv c)) + multibulklen c \<le> INT_MAX)"

definition client_ok :: "client \<Rightarrow> bool" where
  "client_ok c \<longleftrightarrow> qb_pos c \<le> length (querybuf c) \<and> duration c = 0 \<and> \<not> fl_master c
     \<and> (fl_blocked c \<or> fl_pending_command c \<or> parse_ok c)"

text \<open>
  What the reader relies on of \<open>processCommand\<close>, as its comment and the blocking code promise it: \<open>C_ERR\<close> only for a freed
  client, and the fields of the reader are left alone (a command may block the client, close it or rewrite its arguments).
\<close>

definition exec_ok :: "'w exec \<Rightarrow> bool" where
  "exec_ok exec \<longleftrightarrow> (\<forall>w c w' c' ok dead. exec w c = (w', c', ok, dead) \<longrightarrow>
     (ok \<or> dead) \<and> querybuf c' = querybuf c \<and> qb_pos c' = qb_pos c \<and> fl_master c' = fl_master c \<and> duration c' = 0
     \<and> fl_pending_command c' = fl_pending_command c)"

definition net_env_ok :: "net_env \<Rightarrow> bool" where
  "net_env_ok env \<longleftrightarrow> proto_max_bulk_len env \<le> INT64_MAX - 2"

section \<open>Lines\<close>

lemma strchr_bounds: "strchr s c = Some n \<Longrightarrow> n \<le> length s"
  unfolding strchr_def c_str_def Let_def
  by (auto split: if_splits intro: order_trans [OF length_takeWhile_le length_takeWhile_le])

lemma strchr_less: "strchr s c = Some n \<Longrightarrow> c \<noteq> 0 \<Longrightarrow> n < length s"
  unfolding strchr_def c_str_def Let_def
  by (auto split: if_splits intro: order.strict_trans2 [OF _ length_takeWhile_le])

lemma proto_line_bound: "proto_line c = Inr n \<Longrightarrow> n + 2 \<le> length (unread c)"
  by (auto simp: proto_line_def split: option.splits if_splits)

lemma length_unread: "length (unread c) = length (querybuf c) - qb_pos c"
  by (simp add: unread_def)

lemma proto_fail_sel [simp]:
  "querybuf (proto_fail e c) = querybuf c" "qb_pos (proto_fail e c) = qb_pos c" "reqtype (proto_fail e c) = reqtype c"
  "multibulklen (proto_fail e c) = multibulklen c" "bulklen (proto_fail e c) = bulklen c" "argv (proto_fail e c) = argv c"
  "argv_len (proto_fail e c) = argv_len c" "duration (proto_fail e c) = duration c" "fl_master (proto_fail e c) = fl_master c"
  "fl_blocked (proto_fail e c) = fl_blocked c" "fl_pending_command (proto_fail e c) = fl_pending_command c"
  "unread (proto_fail e c) = unread c"
  by (simp_all add: proto_fail_def setProtocolError_def unread_def)

lemma parse_ok_fail [simp]: "parse_ok (proto_fail e c) = parse_ok c"
  by (simp add: parse_ok_def)

section \<open>The multibulk protocol\<close>

text \<open>What reading arguments leaves alone.\<close>

definition same_rest :: "client \<Rightarrow> client \<Rightarrow> bool" where
  "same_rest c c' \<longleftrightarrow> duration c' = duration c \<and> fl_master c' = fl_master c \<and> fl_blocked c' = fl_blocked c
     \<and> fl_pending_command c' = fl_pending_command c \<and> reqtype c' = reqtype c"

lemma same_rest_refl [simp]: "same_rest c c"
  by (simp add: same_rest_def)

lemma same_rest_trans: "same_rest c c' \<Longrightarrow> same_rest c' c'' \<Longrightarrow> same_rest c c''"
  by (simp add: same_rest_def)

lemma same_rest_fail [simp]: "same_rest c (proto_fail e c)"
  by (simp add: same_rest_def)

definition args_ok :: "client \<Rightarrow> bool" where
  "args_ok c \<longleftrightarrow> qb_pos c \<le> length (querybuf c) \<and> \<not> fl_master c \<and> 0 \<le> multibulklen c
     \<and> -1 \<le> bulklen c \<and> bulklen c \<le> INT64_MAX - 2
     \<and> (multibulklen c = 0 \<longrightarrow> bulklen c = -1) \<and> (0 < multibulklen c \<longrightarrow> reqtype c = PROTO_REQ_MULTIBULK
          \<and> length (argv c) \<le> argv_len c \<and> 0 < argv_len c \<and> int (argv_len c) \<le> INT_MAX
          \<and> int (length (argv c)) + multibulklen c \<le> INT_MAX)"

lemma args_ok_parse: "args_ok c \<Longrightarrow> 0 < multibulklen c \<Longrightarrow> parse_ok c"
  by (simp add: args_ok_def parse_ok_def)

lemma parse_args_ok: "parse_ok c \<Longrightarrow> qb_pos c \<le> length (querybuf c) \<Longrightarrow> \<not> fl_master c \<Longrightarrow> args_ok c"
  by (auto simp: args_ok_def parse_ok_def)

lemma bulk_header_ok:
  assumes "args_ok c" "0 < multibulklen c" "net_env_ok env"
  shows "case bulk_header env c of
      Inl (c', _) \<Rightarrow> args_ok c' \<and> same_rest c c' \<and> multibulklen c' = multibulklen c \<and> unread c' = unread c
    | Inr c' \<Rightarrow> args_ok c' \<and> same_rest c c' \<and> multibulklen c' = multibulklen c \<and> 0 \<le> bulklen c'
        \<and> length (unread c') \<le> length (unread c)"
proof -
  have fail: "args_ok (proto_fail e c)" for e using assms(1) by (simp add: args_ok_def)
  show ?thesis
  proof (cases "proto_line c")
    case (Inl big)
    then show ?thesis using assms(1) fail by (simp add: bulk_header_def)
  next
    case (Inr n)
    have n: "n + 2 \<le> length (querybuf c) - qb_pos c" using proto_line_bound [OF Inr] by (simp add: length_unread)
    show ?thesis
    proof (cases "proto_number c n")
      case None
      then show ?thesis using Inr fail by (simp add: bulk_header_def)
    next
      case (Some ll)
      then show ?thesis
        using Inr fail assms n
        by (auto simp: bulk_header_def Let_def args_ok_def net_env_ok_def same_rest_def unread_def)
    qed
  qed
qed

lemma argv_grow_ok:
  assumes "args_ok c" "0 < multibulklen c"
  obtains n where "argv_grow c = Some (c\<lparr>argv_len := n\<rparr>)" "length (argv c) < n" "int n \<le> INT_MAX"
proof (cases "length (argv c) \<ge> argv_len c")
  case False
  then show ?thesis using assms that [of "argv_len c"] by (auto simp: argv_grow_def args_ok_def)
next
  case True
  define cap where "cap = (if int (argv_len c) < INT_MAX div 2 then int (argv_len c) * 2 else INT_MAX)"
  have "int (length (argv c)) < cap" "cap \<le> INT_MAX" using True assms by (auto simp: cap_def args_ok_def)
  then show ?thesis
    using True assms by (intro that) (auto simp: argv_grow_def args_ok_def cap_def [symmetric] Let_def)
qed

lemma bulk_argument_ok:
  assumes "args_ok c" "0 < multibulklen c" "0 \<le> bulklen c" "bulklen c + 2 \<le> int (length (unread c))"
  obtains c' where "bulk_argument c = Some c'" "args_ok c'" "same_rest c c'" "multibulklen c' = multibulklen c - 1"
    "length (unread c') + 2 \<le> length (unread c)"
proof -
  obtain n where n: "argv_grow c = Some (c\<lparr>argv_len := n\<rparr>)" "length (argv c) < n" "int n \<le> INT_MAX"
    using argv_grow_ok [OF assms(1,2)] .
  define fat where "fat \<longleftrightarrow> \<not> fl_master c \<and> qb_pos c = 0 \<and> bulklen c \<ge> PROTO_MBULK_BIG_ARG
    \<and> int (length (querybuf c)) = bulklen c + 2"
  define c1 where "c1 = c\<lparr>argv_len := n, bulklen := -1, multibulklen := multibulklen c - 1\<rparr>"
  have "argv_len c1 = n" "argv c1 = argv c" by (simp_all add: c1_def)
  show ?thesis
  proof (cases fat)
    case True
    then have "bulk_argument c = Some (c1\<lparr>argv := argv c @ [take (length (querybuf c) - 2) (querybuf c)],
        argv_len_sum := argv_len_sum c + (length (querybuf c) - 2), querybuf := []\<rparr>)"
      using n by (simp add: bulk_argument_def argv_push_def fat_def c1_def)
    then show ?thesis
      using assms n True by (elim that) (auto simp: args_ok_def same_rest_def unread_def c1_def fat_def)
  next
    case False
    then have "bulk_argument c = Some (c1\<lparr>argv := argv c @ [take (nat (bulklen c)) (unread c)],
        argv_len_sum := argv_len_sum c + min (length (unread c)) (nat (bulklen c)), qb_pos := qb_pos c + nat (bulklen c) + 2\<rparr>)"
      using n by (auto simp: bulk_argument_def argv_push_def fat_def c1_def unread_def)
    then show ?thesis
      using assms n False by (elim that) (auto simp: args_ok_def same_rest_def unread_def c1_def)
  qed
qed

lemma mbulk_loop_ok:
  assumes "args_ok c" "net_env_ok env"
  shows "\<exists>r. c_loop (mbulk_step env) c = Some r \<and> (case r of (c', ok) \<Rightarrow>
    args_ok c' \<and> same_rest c c' \<and> (ok = (multibulklen c' = 0))
    \<and> int (length (unread c')) + 2 * (multibulklen c - multibulklen c') \<le> int (length (unread c)))"
proof (rule c_loop_rule [where I = "\<lambda>c'. args_ok c' \<and> same_rest c c'
      \<and> int (length (unread c')) + 2 * (multibulklen c - multibulklen c') \<le> int (length (unread c))"
      and m = "\<lambda>c. nat (multibulklen c)"])
  show "args_ok c \<and> same_rest c c \<and> int (length (unread c)) + 2 * (multibulklen c - multibulklen c) \<le> int (length (unread c))"
    using assms(1) by simp
  fix d assume d: "args_ok d \<and> same_rest c d \<and> int (length (unread d)) + 2 * (multibulklen c - multibulklen d) \<le> int (length (unread c))"
  let ?Q = "\<lambda>r. case r of (c', ok) \<Rightarrow> args_ok c' \<and> same_rest c c' \<and> (ok = (multibulklen c' = 0))
    \<and> int (length (unread c')) + 2 * (multibulklen c - multibulklen c') \<le> int (length (unread c))"
  show "(\<exists>r. mbulk_step env d = Some (Inl r) \<and> ?Q r) \<or> (\<exists>d'. mbulk_step env d = Some (Inr d') \<and> (args_ok d' \<and> same_rest c d'
      \<and> int (length (unread d')) + 2 * (multibulklen c - multibulklen d') \<le> int (length (unread c))) \<and> nat (multibulklen d') < nat (multibulklen d))"
  proof (cases "multibulklen d = 0")
    case True
    then show ?thesis using d by (simp add: mbulk_step_def)
  next
    case False
    then have pos: "0 < multibulklen d" using d by (simp add: args_ok_def)
    define h where "h = (if bulklen d = -1 then bulk_header env d else Inr d)"
    show ?thesis
    proof (cases h)
      case (Inl x)
      obtain e err where x: "x = (e, err)" by (cases x)
      then have "args_ok e \<and> same_rest d e \<and> multibulklen e = multibulklen d \<and> unread e = unread d"
        using Inl bulk_header_ok [of d env] d pos assms(2) by (auto simp: h_def split: if_splits)
      then show ?thesis
        using Inl x d pos False same_rest_trans by (auto simp: mbulk_step_def h_def [symmetric])
    next
      case (Inr e)
      then have e: "args_ok e" "same_rest d e" "multibulklen e = multibulklen d" "0 \<le> bulklen e" "length (unread e) \<le> length (unread d)"
        using bulk_header_ok [of d env] d pos assms(2) by (auto simp: h_def args_ok_def split: if_splits)
      then have i64: "is_int64 (bulklen e + 2)" by (auto simp: args_ok_def is_int64_def)
      have ce: "same_rest c e" using d e(2) same_rest_trans by blast
      show ?thesis
      proof (cases "int (length (unread e)) < bulklen e + 2")
        case True
        then show ?thesis using Inr e ce d pos i64 False by (auto simp: mbulk_step_def h_def [symmetric])
      next
        case enough: False
        obtain f where f: "bulk_argument e = Some f" "args_ok f" "same_rest e f" "multibulklen f = multibulklen e - 1"
            "length (unread f) + 2 \<le> length (unread e)"
          using bulk_argument_ok [of e] e pos enough by auto
        have "mbulk_step env d = Some (Inr f)"
          using Inr enough f(1) False i64 by (simp add: mbulk_step_def h_def [symmetric])
        then show ?thesis using f e d pos same_rest_trans [OF ce f(3)] by auto
      qed
    qed
  qed
qed

lemma mbulk_header_ok:
  assumes "parse_ok c" "qb_pos c \<le> length (querybuf c)" "\<not> fl_master c" "multibulklen c = 0" "reqtype c = PROTO_REQ_MULTIBULK"
  obtains (fin) c' ok where "mbulk_header env c = Some (MB_DONE c' ok)" "same_rest c c'" "qb_pos c' \<le> length (querybuf c')"
      "if ok then argv c' = [] \<and> length (unread c') < length (unread c) else parse_ok c'"
  | (args) c' where "mbulk_header env c = Some (MB_ARGS c')" "args_ok c'" "0 < multibulklen c'" "same_rest c c'"
      "length (unread c') \<le> length (unread c)"
proof -
  have c: "argv c = []" "c_hd (unread c) = 42" using assms by (simp_all add: parse_ok_def)
  show thesis
  proof (cases "proto_line c")
    case (Inl big)
    let ?d = "if big then proto_fail ERR_BIG_MBULK_COUNT c else c"
    have "mbulk_header env c = Some (MB_DONE ?d False)" using Inl c by (simp add: mbulk_header_def)
    then show thesis by (rule fin) (use assms in simp_all)
  next
    case (Inr n)
    have n: "n + 2 \<le> length (querybuf c) - qb_pos c" using proto_line_bound [OF Inr] by (simp add: length_unread)
    have fail: "mbulk_header env c = Some (MB_DONE (proto_fail e c) False) \<Longrightarrow> thesis" for e
      by (erule fin) (use assms in simp_all)
    show thesis
    proof (cases "proto_number c n")
      case None
      then show thesis using Inr c by (intro fail) (simp add: mbulk_header_def)
    next
      case (Some ll)
      consider "ll > INT_MAX" | "ll \<le> INT_MAX" "ll > 10 \<and> authRequired env c"
        | "ll \<le> 0" "\<not> (ll > 10 \<and> authRequired env c)" | "0 < ll" "ll \<le> INT_MAX" "\<not> (ll > 10 \<and> authRequired env c)"
        by linarith
      then show thesis
      proof cases
        case 1
        then show thesis using Inr c Some by (intro fail) (simp add: mbulk_header_def)
      next
        case 2
        then show thesis using Inr c Some by (intro fail) (simp add: mbulk_header_def)
      next
        case 3
        then have "mbulk_header env c = Some (MB_DONE (c\<lparr>qb_pos := qb_pos c + n + 2\<rparr>) True)"
          using Inr c Some by (simp add: mbulk_header_def)
        then show thesis by (rule fin) (use n c in \<open>auto simp: same_rest_def unread_def\<close>)
      next
        case 4
        then have "mbulk_header env c = Some (MB_ARGS (c\<lparr>qb_pos := qb_pos c + n + 2, multibulklen := ll,
            argv_len := nat (min ll 1024), argv_len_sum := 0\<rparr>))"
          using Inr c Some by (auto simp: mbulk_header_def Let_def)
        then show thesis
          by (rule args) (use n c assms 4 in \<open>auto simp: same_rest_def unread_def args_ok_def parse_ok_def\<close>)
      qed
    qed
  qed
qed

lemma processMultibulkBuffer_ok:
  assumes "parse_ok c" "qb_pos c \<le> length (querybuf c)" "\<not> fl_master c" "reqtype c = PROTO_REQ_MULTIBULK" "net_env_ok env"
  shows "\<exists>c' ok. processMultibulkBuffer env c = Some (c', ok) \<and> same_rest c c' \<and> qb_pos c' \<le> length (querybuf c')
    \<and> (if ok then length (unread c') < length (unread c) else parse_ok c')"
proof -
  have loop: "\<exists>c' ok. c_loop (mbulk_step env) d = Some (c', ok) \<and> same_rest c c' \<and> qb_pos c' \<le> length (querybuf c')
      \<and> (if ok then length (unread c') < length (unread c) else parse_ok c')"
    if d: "args_ok d" "0 < multibulklen d" "same_rest c d" "length (unread d) \<le> length (unread c)" for d
  proof -
    obtain c' ok where r: "c_loop (mbulk_step env) d = Some (c', ok)" "args_ok c'" "same_rest d c'" "ok = (multibulklen c' = 0)"
        "int (length (unread c')) + 2 * (multibulklen d - multibulklen c') \<le> int (length (unread d))"
      using mbulk_loop_ok [OF d(1) assms(5)] by auto
    have "\<not> ok \<Longrightarrow> parse_ok c'" using r(2,4) by (intro args_ok_parse) (auto simp: args_ok_def)
    moreover have "ok \<Longrightarrow> length (unread c') < length (unread c)" using r(4,5) d(2,4) by simp
    moreover have "qb_pos c' \<le> length (querybuf c')" using r(2) by (simp add: args_ok_def)
    ultimately show ?thesis using r(1) same_rest_trans [OF d(3) r(3)] by auto
  qed
  show ?thesis
  proof (cases "multibulklen c = 0")
    case True
    show ?thesis
    proof (rule mbulk_header_ok [OF assms(1-3) True assms(4), of env], goal_cases)
      case (1 c' ok)
      then show ?thesis using True by (auto simp: processMultibulkBuffer_def)
    next
      case (2 d)
      then show ?thesis using True loop [of d] by (simp add: processMultibulkBuffer_def)
    qed
  next
    case False
    then have "0 < multibulklen c" using assms(1) by (simp add: parse_ok_def)
    then show ?thesis using loop [of c] parse_args_ok [OF assms(1-3)] False by (simp add: processMultibulkBuffer_def)
  qed
qed

section \<open>The inline protocol\<close>

lemma processInlineBuffer_ok:
  assumes "qb_pos c \<le> length (querybuf c)" "parse_ok c"
  shows "case processInlineBuffer env c of (c', ok) \<Rightarrow> same_rest c c' \<and> qb_pos c' \<le> length (querybuf c')
    \<and> (if ok then length (unread c') < length (unread c) else parse_ok c')"
proof (cases "strchr (unread c) 10")
  case None
  then show ?thesis using assms by (simp add: processInlineBuffer_def)
next
  case (Some n)
  have n: "n < length (querybuf c) - qb_pos c" using strchr_less [OF Some] by (simp add: length_unread)
  obtain q lf where l: "inline_line (unread c) n = (q, lf)" by fastforce
  then have q: "q + lf = n + 1" by (auto simp: inline_line_def split: if_splits)
  show ?thesis
  proof (cases "sdssplitargs (take q (unread c))")
    case None
    then show ?thesis using Some l assms by (simp add: processInlineBuffer_def)
  next
    case args: (Some args)
    have "processInlineBuffer env c = inline_args env c q lf args" using Some l args by (simp add: processInlineBuffer_def)
    then show ?thesis
      using assms n q by (auto simp: inline_args_def Let_def same_rest_def unread_def setProtocolError_def parse_ok_def)
  qed
qed

section \<open>Executing commands\<close>

lemma resetClient_ok:
  assumes "duration c = 0"
  obtains c' where "resetClient c = Some c'" "parse_ok c'" "querybuf c' = querybuf c" "qb_pos c' = qb_pos c" "duration c' = 0"
    "fl_master c' = fl_master c" "fl_blocked c' = fl_blocked c" "fl_pending_command c' = fl_pending_command c"
  using assms that by (simp add: resetClient_def freeClientArgv_def Let_def parse_ok_def)

lemma processCommand_ok:
  assumes "exec_ok exec" "qb_pos c \<le> length (querybuf c)" "\<not> fl_master c" "\<not> fl_pending_command c"
  shows "\<exists>w' c' alive. processCommandAndResetClient exec w c = Some (w', c', alive)
    \<and> (alive \<longrightarrow> client_ok c' \<and> unread c' = unread c)"
proof -
  obtain w1 c1 ok dead where e: "exec w c = (w1, c1, ok, dead)" using prod_cases4 by blast
  note exec_ok_def [THEN iffD1, OF assms(1), rule_format, OF e]
  then have x: "ok \<or> dead" "querybuf c1 = querybuf c" "qb_pos c1 = qb_pos c" "fl_master c1 = fl_master c" "duration c1 = 0"
      "fl_pending_command c1 = fl_pending_command c"
    by auto
  obtain c2 where c2: "resetClient c1 = Some c2" "parse_ok c2" "querybuf c2 = querybuf c1" "qb_pos c2 = qb_pos c1"
      "duration c2 = 0" "fl_master c2 = fl_master c1" "fl_blocked c2 = fl_blocked c1" "fl_pending_command c2 = fl_pending_command c1"
    using resetClient_ok [OF x(5)] .
  show ?thesis
    using e x c2 assms
    by (cases ok; cases "fl_blocked c1")
       (auto simp: processCommandAndResetClient_def commandProcessed_def client_ok_def unread_def Let_def)
qed

lemma input_step_ok:
  assumes "client_ok c" "exec_ok exec" "net_env_ok env"
  shows "(\<exists>w' c' alive. input_step env exec (w, c) = Some (Inl (w', c', alive)) \<and> (alive \<longrightarrow> client_ok c'))
    \<or> (\<exists>w' c'. input_step env exec (w, c) = Some (Inr (w', c')) \<and> client_ok c' \<and> length (unread c') < length (unread c))"
proof (cases "qb_pos c \<ge> length (querybuf c) \<or> input_stops env c")
  case True
  then show ?thesis using assms(1) by (auto simp: input_step_def)
next
  case False
  define c1 where "c1 = detect_reqtype c"
  have c1: "parse_ok c1" "qb_pos c1 \<le> length (querybuf c1)" "\<not> fl_master c1" "unread c1 = unread c" "\<not> fl_pending_command c1"
      "duration c1 = 0" "reqtype c1 \<noteq> PROTO_REQ_UNKNOWN"
    using assms(1) False by (auto simp: c1_def detect_reqtype_def input_stops_def client_ok_def parse_ok_def unread_def)
  have "\<exists>c2 ok. read_request env c1 = Some (c2, ok)
      \<and> same_rest c1 c2 \<and> qb_pos c2 \<le> length (querybuf c2) \<and> (if ok then length (unread c2) < length (unread c1) else parse_ok c2)"
  proof (cases "reqtype c1")
    case PROTO_REQ_INLINE
    then show ?thesis
      using processInlineBuffer_ok [OF c1(2,1), of env] by (cases "processInlineBuffer env c1") (auto simp: read_request_def)
  next
    case PROTO_REQ_MULTIBULK
    then show ?thesis using processMultibulkBuffer_ok [OF c1(1-3) _ assms(3)] by (auto simp: read_request_def)
  qed (use c1 in simp)
  then obtain c2 ok where c2: "read_request env c1 = Some (c2, ok)"
      "same_rest c1 c2" "qb_pos c2 \<le> length (querybuf c2)" "if ok then length (unread c2) < length (unread c1) else parse_ok c2"
    by blast
  have f2: "duration c2 = 0" "\<not> fl_master c2" "\<not> fl_pending_command c2" using c1 c2(2) by (simp_all add: same_rest_def)
  have step: "input_step env exec (w, c) =
      (if \<not> ok then Some (Inl (w, c2, True))
       else if argv c2 = [] then do { c \<leftarrow> resetClient c2; Some (Inr (w, c)) }
       else if io_threads_reading env then Some (Inl (w, c2\<lparr>fl_pending_command := True\<rparr>, True))
       else do { (w, c, alive) \<leftarrow> processCommandAndResetClient exec w c2;
                 Some (if alive then Inr (w, c) else Inl (w, c, False)) })"
    using False c2(1) by (simp add: input_step_def c1_def)
  show ?thesis
  proof (cases ok)
    case False
    then show ?thesis using step c2 f2 by (auto simp: client_ok_def)
  next
    case True
    then have less: "length (unread c2) < length (unread c)" using c2(4) c1(4) by simp
    obtain c3 where c3: "resetClient c2 = Some c3" "parse_ok c3" "querybuf c3 = querybuf c2" "qb_pos c3 = qb_pos c2"
      "duration c3 = 0" "fl_master c3 = fl_master c2" using resetClient_ok [OF f2(1)] .
    obtain w4 c4 alive where c4: "processCommandAndResetClient exec w c2 = Some (w4, c4, alive)"
        "alive \<longrightarrow> client_ok c4 \<and> unread c4 = unread c2"
      using processCommand_ok [OF assms(2) c2(3) f2(2,3)] by blast
    have u3: "unread c3 = unread c2" using c3(3,4) by (simp add: unread_def)
    have ok3: "client_ok c3" using c3 c2(3) f2 by (simp add: client_ok_def)
    have okp: "client_ok (c2\<lparr>fl_pending_command := True\<rparr>)" using c2(3) f2 by (simp add: client_ok_def)
    show ?thesis
    proof (cases "argv c2 = []")
      case True
      then show ?thesis using \<open>ok\<close> step less c3(1) ok3 u3 by simp
    next
      case False
      then show ?thesis
        using \<open>ok\<close> step less c4 okp by (cases "io_threads_reading env"; cases alive) auto
    qed
  qed
qed

lemma processInputBuffer_ok:
  assumes "client_ok c" "exec_ok exec" "net_env_ok env"
  shows "\<exists>w' c' alive. processInputBuffer env exec w c = Some (w', c', alive) \<and> (alive \<longrightarrow> client_ok c')"
proof -
  have "\<exists>r. c_loop (input_step env exec) (w, c) = Some r \<and> (case r of (w', c', alive) \<Rightarrow> alive \<longrightarrow> client_ok c')"
  proof (rule c_loop_rule [where I = "\<lambda>(w, c). client_ok c" and m = "\<lambda>(w, c). length (unread c)"])
    show "case (w, c) of (w, c) \<Rightarrow> client_ok c" using assms(1) by simp
    fix st :: "'a \<times> client" assume st: "case st of (w, c) \<Rightarrow> client_ok c"
    obtain w1 c1 where [simp]: "st = (w1, c1)" by (cases st)
    from st have "client_ok c1" by simp
    from input_step_ok [OF this assms(2,3), of w1]
    show "(\<exists>r. input_step env exec st = Some (Inl r) \<and> (case r of (w', c', alive) \<Rightarrow> alive \<longrightarrow> client_ok c')) \<or>
        (\<exists>s'. input_step env exec st = Some (Inr s') \<and> (case s' of (w, c) \<Rightarrow> client_ok c)
          \<and> (case s' of (w, c) \<Rightarrow> length (unread c)) < (case st of (w, c) \<Rightarrow> length (unread c)))"
      by (elim disjE exE conjE) simp_all
  qed
  then obtain w' c' alive where r: "c_loop (input_step env exec) (w, c) = Some (w', c', alive)" "alive \<longrightarrow> client_ok c'" by auto
  have "client_ok c' \<Longrightarrow> client_ok (c'\<lparr>querybuf := unread c', qb_pos := 0\<rparr>)"
    by (auto simp: client_ok_def parse_ok_def unread_def)
  then show ?thesis using r by (auto simp: processInputBuffer_def trim_querybuf_def client_ok_def)
qed

lemma readQueryFromClient_ok:
  assumes "client_ok c" "exec_ok exec" "net_env_ok env"
  shows "\<exists>w' c' alive. readQueryFromClient env exec r w c = Some (w', c', alive) \<and> (alive \<longrightarrow> client_ok c')"
proof (cases r)
  case (READ_DATA data)
  let ?c = "c\<lparr>querybuf := querybuf c @ data, lastinteraction := unixtime env\<rparr>"
  have u: "unread ?c = unread c @ data" using assms(1) by (simp add: unread_def client_ok_def)
  have "c_hd (unread c) = 42 \<Longrightarrow> c_hd (unread ?c) = 42" unfolding u by (cases "unread c") (simp_all add: c_hd_def)
  then have "client_ok ?c" using assms(1) by (auto simp: client_ok_def parse_ok_def)
  moreover have "client_ok (?c\<lparr>fl_close_asap := True\<rparr>)" using \<open>client_ok ?c\<close> by (simp add: client_ok_def parse_ok_def unread_def)
  moreover have "\<not> fl_master c" using assms(1) by (simp add: client_ok_def)
  ultimately show ?thesis
    using READ_DATA processInputBuffer_ok [OF \<open>client_ok ?c\<close> assms(2,3), of w] by (auto simp: readQueryFromClient_def Let_def)
qed (use assms(1) in \<open>auto simp: readQueryFromClient_def client_ok_def parse_ok_def unread_def\<close>)

lemma read_all_ok:
  assumes "exec_ok exec" "net_env_ok env"
  shows "client_ok c \<Longrightarrow> \<exists>w' c' alive. read_all env exec rs w c = Some (w', c', alive) \<and> (alive \<longrightarrow> client_ok c')"
proof (induction rs arbitrary: w c)
  case (Cons r rs)
  from readQueryFromClient_ok [OF Cons.prems assms, of r w]
  obtain w' c' alive where "readQueryFromClient env exec r w c = Some (w', c', alive)" "alive \<longrightarrow> client_ok c'" by blast
  then show ?case using Cons.IH [of c' w'] by (cases alive) auto
qed auto

lemma createClient_ok: "client_ok (createClient env)"
  by (simp add: createClient_def client_ok_def parse_ok_def)


text \<open>A server with the limits of \<open>config.c\<close>, and commands that are only logged, except that \<open>QUIT\<close> frees the client.\<close>

definition ex_net_env :: net_env where
  "ex_net_env = \<lparr>proto_max_bulk_len = 536870912, client_max_querybuf_len = 1073741824, unixtime = 0,
     default_user_nopass = True, default_user_disabled = False, inside_yielding_long_command = False,
     io_threads_reading = False\<rparr>"

definition log_exec :: "bytes list list exec" where
  "log_exec w c = (w @ [argv c], c\<lparr>duration := 0\<rparr>, argv c \<noteq> [[81, 85, 73, 84]], argv c = [[81, 85, 73, 84]])"


end
