(* ===== verification/Resp_Encode.thy ===== *)
theory Resp_Encode
  imports Libc
begin

text \<open>
  How a command is written in the multibulk protocol, as \<open>catAppendOnlyGenericCommand\<close> (\<open>aof.c\<close>) does it for the append only
  file. The reference notion is \<open>resp_command\<close>.
\<close>

definition resp_line :: "byte \<Rightarrow> int \<Rightarrow> bytes" where
  "resp_line ch n = ch # ll_repr n @ [13, 10]"

definition resp_bulk :: "bytes \<Rightarrow> bytes" where
  "resp_bulk a = resp_line 36 (int (length a)) @ a @ [13, 10]"

definition resp_command :: "bytes list \<Rightarrow> bytes" where
  "resp_command args = resp_line 42 (int (length args)) @ concat (map resp_bulk args)"

text \<open>One header: the 32 bytes of \<open>buf\<close> must hold the first byte, the number and the end of the line.\<close>

definition cat_header :: "byte \<Rightarrow> int \<Rightarrow> bytes option" where
  "cat_header ch n =
     do { (buf, k) \<leftarrow> ll2string (replicate 31 0) 31 n;
          c_assert (1 + k + 2 \<le> 32);
          Some (ch # take k buf @ [13, 10]) }"

primrec cat_args :: "bytes \<Rightarrow> bytes list \<Rightarrow> bytes option" where
  "cat_args dst [] = Some dst"
| "cat_args dst (a # argv) = do { h \<leftarrow> cat_header 36 (int (length a)); cat_args (dst @ h @ a @ [13, 10]) argv }"

definition catAppendOnlyGenericCommand :: "bytes \<Rightarrow> bytes list \<Rightarrow> bytes option" where
  "catAppendOnlyGenericCommand dst argv = do { h \<leftarrow> cat_header 42 (int (length argv)); cat_args (dst @ h) argv }"

text \<open>The sizes of C objects: the number of arguments is an \<open>int\<close>, a length a \<open>long long\<close>.\<close>

definition command_ok :: "bytes list \<Rightarrow> bool" where
  "command_ok args \<longleftrightarrow> args \<noteq> [] \<and> int (length args) \<le> INT32_MAX \<and> (\<forall>a\<in>set args. int (length a) \<le> INT64_MAX)"

lemma cat_header_eq: "is_int64 n \<Longrightarrow> cat_header ch n = Some (resp_line ch n)"
  using length_ll_repr [of n] by (simp add: cat_header_def resp_line_def ll2string_correct)

lemma cat_args_eq: "\<forall>a\<in>set args. int (length a) \<le> INT64_MAX \<Longrightarrow> cat_args dst args = Some (dst @ concat (map resp_bulk args))"
  by (induction args arbitrary: dst) (simp_all add: cat_header_eq is_int64_def resp_bulk_def)

lemma catAppendOnlyGenericCommand_eq:
  "command_ok args \<Longrightarrow> catAppendOnlyGenericCommand dst args = Some (dst @ resp_command args)"
  by (simp add: catAppendOnlyGenericCommand_def resp_command_def command_ok_def cat_header_eq cat_args_eq is_int64_def)

lemma ll_repr_no_ctl: "c \<in> set (ll_repr v) \<Longrightarrow> c \<noteq> 0 \<and> c \<noteq> 10 \<and> c \<noteq> 13"
  using ll_repr_chars [of c v] by (auto simp: is_digit_def)

lemma resp_command_not_Nil [simp]: "resp_command args \<noteq> []"
  by (simp add: resp_command_def resp_line_def)

lemma hd_resp_command [simp]: "hd (resp_command args) = 42"
  by (simp add: resp_command_def resp_line_def)

end
