(* ===== verification/Resp_Stream.thy ===== *)
theory Resp_Stream
  imports Resp_Safe Resp_Encode
begin

text \<open>
  How the reader takes one request in the multibulk protocol that arrives in pieces: what it has read, what is left, and that it
  stops exactly when the bytes it needs have not arrived.
\<close>

section \<open>Lines of the protocol\<close>

lemma proto_line_incomplete:
  assumes "unread c @ s = ch # d @ [13, 10] @ rest" "0 \<notin> set (ch # d)" "13 \<notin> set (ch # d)" "length d \<le> 65000"
    "length (unread c) < length d + 3"
  shows "proto_line c = Inl False"
proof -
  have u: "unread c = take (length (unread c)) (ch # d @ [13])"
  proof -
    have "unread c = take (length (unread c)) (unread c @ s)" by simp
    also have "\<dots> = take (length (unread c)) ((ch # d @ [13]) @ (10 # rest))" unfolding assms(1) by simp
    also have "\<dots> = take (length (unread c)) (ch # d @ [13])" using assms(5) by (subst take_append) simp
    finally show ?thesis .
  qed
  have z: "0 \<notin> set (unread c)" using assms(2) set_take_subset [of "length (unread c)" "ch # d @ [13]"] by (subst u) auto
  show ?thesis
  proof (cases "length (unread c) < length d + 2")
    case True
    then have "unread c = take (length (unread c)) (ch # d)" using u by (subst (asm) append_Cons [symmetric], subst (asm) take_append) simp
    then have "13 \<notin> set (unread c)" using assms(3) set_take_subset [of "length (unread c)" "ch # d"] by (metis subsetD)
    then have "strchr (unread c) 13 = None" using strchr_None_iff z by simp
    then show ?thesis using assms(4,5) by (simp add: proto_line_def)
  next
    case False
    then have "unread c = (ch # d) @ [13]" using u assms(5) by simp
    moreover have "takeWhile (\<lambda>b. b \<noteq> 13) ((ch # d) @ [13]) = ch # d"
      using assms(3) by (subst takeWhile_append2) auto
    ultimately have "strchr (unread c) 13 = Some (length d + 1)" using z by (simp add: strchr_def c_str_no_nul)
    then show ?thesis using \<open>unread c = (ch # d) @ [13]\<close> by (simp add: proto_line_def)
  qed
qed

lemma proto_line_complete:
  assumes "unread c = ch # d @ [13, 10] @ rest" "0 \<notin> set (ch # d)" "13 \<notin> set (ch # d)"
  shows "proto_line c = Inr (length d + 1)"
proof -
  have z: "c_str ((ch # d) @ 13 # 10 # rest) = (ch # d) @ 13 # c_str (10 # rest)"
    unfolding c_str_def using assms(2) by (subst takeWhile_append2) auto
  have "takeWhile (\<lambda>b. b \<noteq> 13) ((ch # d) @ 13 # x) = ch # d" for x
    using assms(3) by (subst takeWhile_append2) auto
  then have "strchr ((ch # d) @ 13 # 10 # rest) 13 = Some (length d + 1)"
    unfolding strchr_def z by simp
  then show ?thesis using assms(1) by (simp add: proto_line_def)
qed

text \<open>A line with a number is read exactly when it is complete.\<close>

lemma resp_line_read:
  assumes "unread c @ s = resp_line ch n @ rest" "ch \<noteq> 0" "ch \<noteq> 13" "is_int64 n"
  obtains "length (unread c) < length (resp_line ch n)" "proto_line c = Inl False"
  | k where "length (resp_line ch n) = k + 2" "proto_line c = Inr k" "proto_number c k = Some n" "c_hd (unread c) = ch"
      "drop (k + 2) (unread c) @ s = rest" "k + 2 \<le> length (unread c)"
proof (cases "length (unread c) < length (resp_line ch n)")
  case True
  have "proto_line c = Inl False"
    by (rule proto_line_incomplete [where s = s and rest = rest and d = "ll_repr n" and ch = ch])
       (use assms True ll_repr_no_ctl [of _ n] length_ll_repr [of n] in \<open>auto simp: resp_line_def\<close>)
  then show ?thesis using that(1) True by blast
next
  case False
  define rest' where "rest' = drop (length (resp_line ch n)) (unread c)"
  have "take (length (resp_line ch n)) (unread c @ s) = resp_line ch n" unfolding assms(1) by simp
  then have u: "unread c = resp_line ch n @ rest'"
    using False by (metis append_take_drop_id le_less_linear rest'_def take_append diff_is_0_eq' take_0 append_Nil2)
  have pl: "proto_line c = Inr (length (ll_repr n) + 1)"
    by (rule proto_line_complete [where rest = rest'])
       (use u assms(2,3) ll_repr_no_ctl [of _ n] in \<open>auto simp: resp_line_def\<close>)
  have "string2ll (ll_repr n) = Some n" using string2ll_complete assms(4) by blast
  then have pn: "proto_number c (length (ll_repr n) + 1) = Some n" using u by (simp add: proto_number_def resp_line_def)
  have "c_hd (unread c) = ch" using u by (simp add: resp_line_def)
  moreover have "drop (length (ll_repr n) + 1 + 2) (unread c) @ s = rest"
    using assms(1) u by (simp add: resp_line_def)
  ultimately show ?thesis using that(2) [of "length (ll_repr n) + 1"] pl pn u by (simp add: resp_line_def)
qed

section \<open>Arguments\<close>

text \<open>The requests the server accepts from a client, when no authentication is needed.\<close>

definition request_ok :: "net_env \<Rightarrow> bytes list \<Rightarrow> bool" where
  "request_ok env args \<longleftrightarrow> command_ok args \<and> (\<forall>a\<in>set args. int (length a) \<le> proto_max_bulk_len env)"

definition no_auth :: "net_env \<Rightarrow> bool" where
  "no_auth env \<longleftrightarrow> default_user_nopass env \<and> \<not> default_user_disabled env"

definition kept :: "client \<Rightarrow> client \<Rightarrow> bool" where
  "kept c c' \<longleftrightarrow> same_rest c c' \<and> fl_close_after_reply c' = fl_close_after_reply c \<and> fl_close_asap c' = fl_close_asap c"

lemma kept_refl [simp]: "kept c c"
  by (simp add: kept_def)

lemma kept_trans: "kept c c' \<Longrightarrow> kept c' c'' \<Longrightarrow> kept c c''"
  using same_rest_trans by (auto simp: kept_def)

text \<open>The client has read some of the arguments \<open>args\<close> of a request; \<open>cur\<close> are the bytes of it that are not read yet.\<close>

definition args_left :: "client \<Rightarrow> bytes list \<Rightarrow> bytes list \<Rightarrow> bool" where
  "args_left c args rest \<longleftrightarrow> args_ok c \<and> args = argv c @ rest \<and> int (length rest) = multibulklen c
     \<and> (bulklen c = -1 \<or> rest \<noteq> [] \<and> bulklen c = int (length (hd rest)))"

definition bytes_left :: "client \<Rightarrow> bytes list \<Rightarrow> bytes" where
  "bytes_left c rest = (if bulklen c = -1 then concat (map resp_bulk rest) else hd rest @ [13, 10] @ concat (map resp_bulk (tl rest)))"

lemma bytes_left_length: "args_left c args rest \<Longrightarrow> length (bytes_left c rest) \<le> length (concat (map resp_bulk args))"
  by (cases rest) (auto simp: args_left_def bytes_left_def resp_bulk_def)

lemma bulk_header_line:
  assumes c: "args_left c args (a # rest)" "bulklen c = -1" and env: "no_auth env" and a: "int (length a) \<le> proto_max_bulk_len env"
    "is_int64 (int (length a))" "net_env_ok env"
    and u: "unread c @ s = bytes_left c (a # rest) @ tl_bytes"
  obtains "bulk_header env c = Inl (c, False)" "length (unread c) < length (bytes_left c (a # rest))"
  | c' where "bulk_header env c = Inr c'" "args_left c' args (a # rest)" "bulklen c' = int (length a)" "kept c c'"
      "unread c' @ s = bytes_left c' (a # rest) @ tl_bytes" "length (unread c') < length (unread c)"
proof -
  have line: "unread c @ s = resp_line 36 (int (length a)) @ (a @ [13, 10] @ concat (map resp_bulk rest) @ tl_bytes)"
    using u c(2) by (simp add: bytes_left_def resp_bulk_def)
  have ok: "args_ok c" "0 < multibulklen c" using c(1) by (auto simp: args_left_def)
  have auth: "\<not> authRequired env c" using env by (simp add: authRequired_def no_auth_def)
  show thesis
  proof (rule resp_line_read [OF line _ _ a(2)])
    assume "length (unread c) < length (resp_line 36 (int (length a)))" "proto_line c = Inl False"
    then show thesis using that(1) c(2) by (simp add: bulk_header_def bytes_left_def resp_bulk_def)
  next
    fix k assume k: "proto_line c = Inr k" "proto_number c k = Some (int (length a))" "c_hd (unread c) = 36"
      "drop (k + 2) (unread c) @ s = a @ [13, 10] @ concat (map resp_bulk rest) @ tl_bytes" "k + 2 \<le> length (unread c)"
    define d where "d = c\<lparr>qb_pos := qb_pos c + k + 2\<rparr>"
    define e where "e = (if \<not> fl_master d \<and> int (length a) \<ge> PROTO_MBULK_BIG_ARG \<and> int (length (unread d)) \<le> int (length a) + 2
      then d\<lparr>querybuf := unread d, qb_pos := 0\<rparr> else d)"
    have h: "bulk_header env c = Inr (e\<lparr>bulklen := int (length a)\<rparr>)"
      using k auth a(1) by (simp add: bulk_header_def Let_def d_def e_def)
    have ud: "unread d = drop (k + 2) (unread c)" by (simp add: d_def unread_def add.commute add.left_commute)
    have ue: "unread (e\<lparr>bulklen := x\<rparr>) = unread d" for x by (simp add: e_def unread_def)
    have "args_ok (e\<lparr>bulklen := int (length a)\<rparr>)"
      using bulk_header_ok [OF ok a(3)] h by simp
    moreover have "kept c (e\<lparr>bulklen := int (length a)\<rparr>)" "argv e = argv c" "multibulklen e = multibulklen c"
      by (auto simp: kept_def same_rest_def e_def d_def)
    ultimately show thesis
      using that(2) [OF h] c(1) k(4,5) ud ue by (auto simp: args_left_def bytes_left_def)
  qed auto
qed

lemma bulk_argument_read:
  assumes c: "args_left c args (a # rest)" "bulklen c = int (length a)"
    and u: "unread c @ s = bytes_left c (a # rest) @ tl_bytes" "length a + 2 \<le> length (unread c)"
  obtains c' where "bulk_argument c = Some c'" "args_left c' args rest" "bulklen c' = -1" "kept c c'"
      "unread c' @ s = bytes_left c' rest @ tl_bytes" "length (unread c') < length (unread c)"
proof -
  have ok: "args_ok c" "0 < multibulklen c" "0 \<le> bulklen c" using c by (auto simp: args_left_def)
  obtain n where n: "argv_grow c = Some (c\<lparr>argv_len := n\<rparr>)" "length (argv c) < n" using argv_grow_ok [OF ok(1,2)] .
  obtain c' where c': "bulk_argument c = Some c'" "args_ok c'" "same_rest c c'" "multibulklen c' = multibulklen c - 1"
      "length (unread c') + 2 \<le> length (unread c)"
    using bulk_argument_ok [OF ok] u(2) c(2) by auto
  have t: "unread c @ s = a @ [13, 10] @ concat (map resp_bulk rest) @ tl_bytes"
    using u(1) c(2) by (simp add: bytes_left_def)
  have ta: "take (length a) (unread c) = a"
  proof -
    have "take (length a) (unread c @ s) = a" unfolding t by simp
    then show ?thesis using u(2) by simp
  qed
  have td: "drop (length a + 2) (unread c) @ s = concat (map resp_bulk rest) @ tl_bytes"
  proof -
    have "drop (length a + 2) (unread c @ s) = concat (map resp_bulk rest) @ tl_bytes" unfolding t by simp
    then show ?thesis using u(2) by simp
  qed
  have len: "length (unread c) = length (querybuf c) - qb_pos c" by (rule length_unread)
  define fat where "fat \<longleftrightarrow> \<not> fl_master c \<and> qb_pos c = 0 \<and> bulklen c \<ge> PROTO_MBULK_BIG_ARG
    \<and> int (length (querybuf c)) = bulklen c + 2"
  have r: "argv c' = argv c @ [a] \<and> bulklen c' = -1 \<and> unread c' @ s = concat (map resp_bulk rest) @ tl_bytes
    \<and> fl_close_after_reply c' = fl_close_after_reply c \<and> fl_close_asap c' = fl_close_asap c"
  proof (cases fat)
    case True
    then have "querybuf c = unread c" "length (querybuf c) = length a + 2" using c(2) by (auto simp: fat_def unread_def)
    then show ?thesis
      using True c'(1) n ta td by (auto simp: bulk_argument_def argv_push_def fat_def unread_def)
  next
    case False
    have "unread (c\<lparr>qb_pos := qb_pos c + nat (bulklen c) + 2\<rparr>) = drop (length a + 2) (unread c)"
      using c(2) by (simp add: unread_def add.commute add.left_commute)
    then show ?thesis
      using False c'(1) n ta td c(2) by (auto simp: bulk_argument_def argv_push_def fat_def unread_def)
  qed
  show thesis
    using that [OF c'(1)] c' r c(1) by (auto simp: args_left_def bytes_left_def kept_def)
qed

text \<open>A round of the loop reads one argument, or stops because its bytes have not all arrived.\<close>

lemma mbulk_step_read:
  assumes c: "args_left c args rest" "rest \<noteq> []" and env: "no_auth env" "net_env_ok env" "request_ok env args"
    and u: "unread c @ s = bytes_left c rest @ tl_bytes"
  obtains c' where "mbulk_step env c = Some (Inl (c', False))" "args_left c' args rest" "kept c c'"
      "unread c' @ s = bytes_left c' rest @ tl_bytes" "length (unread c') < length (bytes_left c' rest)"
  | c' where "mbulk_step env c = Some (Inr c')" "args_left c' args (tl rest)" "bulklen c' = -1" "kept c c'"
      "unread c' @ s = bytes_left c' (tl rest) @ tl_bytes" "length (unread c') < length (unread c)"
proof -
  note stop = that(1) and go = that(2)
  obtain a rest' where rest: "rest = a # rest'" using c(2) by (cases rest) auto
  have m: "multibulklen c \<noteq> 0" using c rest by (auto simp: args_left_def)
  have "a \<in> set args" using c(1) rest by (auto simp: args_left_def)
  then have a: "int (length a) \<le> proto_max_bulk_len env" "is_int64 (int (length a))" "is_int64 (int (length a) + 2)"
    using env(2,3) by (auto simp: request_ok_def command_ok_def is_int64_def net_env_ok_def)
  define h where "h = (if bulklen c = -1 then bulk_header env c else Inr c)"
  have step: "mbulk_step env c = (case h of Inl (c, err) \<Rightarrow> Some (Inl (c, False))
      | Inr c \<Rightarrow> do { c_assert (is_int64 (bulklen c + 2));
                  if int (length (unread c)) < bulklen c + 2 then Some (Inl (c, False)) else map_option Inr (bulk_argument c) })"
    using m by (simp add: mbulk_step_def h_def)
  have cases: thesis if d: "h = Inr d" "args_left d args (a # rest')" "bulklen d = int (length a)" "kept c d"
      "unread d @ s = bytes_left d (a # rest') @ tl_bytes" "length (unread d) \<le> length (unread c)" for d
  proof (cases "length (unread d) < length a + 2")
    case True
    then have "mbulk_step env c = Some (Inl (d, False))" using step d(1,3) a(3) by simp
    then show thesis using stop [of d] d True rest by (simp add: bytes_left_def)
  next
    case False
    obtain e where e: "bulk_argument d = Some e" "args_left e args rest'" "bulklen e = -1" "kept d e"
        "unread e @ s = bytes_left e rest' @ tl_bytes" "length (unread e) < length (unread d)"
      using bulk_argument_read [OF d(2,3,5)] False by auto
    then have "mbulk_step env c = Some (Inr e)" using step d(1,3) a(3) False by simp
    then show thesis using go [of e] e d(4,6) kept_trans [OF d(4) e(4)] rest by simp
  qed
  show thesis
  proof (cases "bulklen c = -1")
    case False
    then show thesis using cases [of c] c(1) u rest by (auto simp: h_def args_left_def)
  next
    case True
    show thesis
    proof (rule bulk_header_line [OF c(1) [unfolded rest] True env(1) a(1,2) env(2) u [unfolded rest]])
      assume "bulk_header env c = Inl (c, False)" "length (unread c) < length (bytes_left c (a # rest'))"
      then show thesis using stop [of c] step True c(1) u rest by (simp add: h_def)
    next
      fix d assume "bulk_header env c = Inr d" "args_left d args (a # rest')" "bulklen d = int (length a)" "kept c d"
        "unread d @ s = bytes_left d (a # rest') @ tl_bytes" "length (unread d) < length (unread c)"
      then show thesis using cases [of d] True by (simp add: h_def)
    qed
  qed
qed

text \<open>What the loop over the arguments leaves: the request is complete, or more bytes are needed.\<close>

definition loop_post :: "client \<Rightarrow> bytes list \<Rightarrow> bytes \<Rightarrow> bytes \<Rightarrow> client \<times> bool \<Rightarrow> bool" where
  "loop_post c args s tl_bytes r = (case r of (c', ok) \<Rightarrow> kept c c' \<and> qb_pos c' \<le> length (querybuf c') \<and>
     (if ok then argv c' = args \<and> unread c' @ s = tl_bytes
      else \<exists>rest. args_left c' args rest \<and> rest \<noteq> [] \<and> unread c' @ s = bytes_left c' rest @ tl_bytes
        \<and> length (unread c') < length (bytes_left c' rest)))"

lemma mbulk_loop_read:
  assumes "args_left c args rest" "no_auth env" "net_env_ok env" "request_ok env args" "unread c @ s = bytes_left c rest @ tl_bytes"
  shows "\<exists>r. c_loop (mbulk_step env) c = Some r \<and> loop_post c args s tl_bytes r"
proof (rule c_loop_rule [where m = "\<lambda>c. length (unread c)" and
      I = "\<lambda>d. kept c d \<and> (\<exists>rest. args_left d args rest \<and> unread d @ s = bytes_left d rest @ tl_bytes)"])
  show "kept c c \<and> (\<exists>rest. args_left c args rest \<and> unread c @ s = bytes_left c rest @ tl_bytes)" using assms by auto
  fix d assume "kept c d \<and> (\<exists>rest. args_left d args rest \<and> unread d @ s = bytes_left d rest @ tl_bytes)"
  then obtain rest where d: "kept c d" "args_left d args rest" "unread d @ s = bytes_left d rest @ tl_bytes" by blast
  show "(\<exists>r. mbulk_step env d = Some (Inl r) \<and> loop_post c args s tl_bytes r) \<or>
      (\<exists>e. mbulk_step env d = Some (Inr e) \<and> (kept c e \<and> (\<exists>rest. args_left e args rest \<and> unread e @ s = bytes_left e rest @ tl_bytes))
        \<and> length (unread e) < length (unread d))"
  proof (cases "rest = []")
    case True
    then have "mbulk_step env d = Some (Inl (d, True))" "bulklen d = -1"
      using d(2) by (auto simp: mbulk_step_def args_left_def)
    then show ?thesis using d True by (auto simp: loop_post_def args_left_def args_ok_def bytes_left_def)
  next
    case False
    show ?thesis
    proof (rule mbulk_step_read [OF d(2) False assms(2-4) d(3)])
      fix e assume "mbulk_step env d = Some (Inl (e, False))" "args_left e args rest" "kept d e"
        "unread e @ s = bytes_left e rest @ tl_bytes" "length (unread e) < length (bytes_left e rest)"
      then show ?thesis
        using kept_trans [OF d(1)] False by (auto simp: loop_post_def args_left_def args_ok_def)
    next
      fix e assume "mbulk_step env d = Some (Inr e)" "args_left e args (tl rest)" "kept d e"
        "unread e @ s = bytes_left e (tl rest) @ tl_bytes" "length (unread e) < length (unread d)"
      then show ?thesis using kept_trans [OF d(1)] by blast
    qed
  qed
qed

section \<open>Requests\<close>

text \<open>Nothing keeps the server from reading this client.\<close>

definition quiet :: "client \<Rightarrow> bool" where
  "quiet c \<longleftrightarrow> \<not> fl_master c \<and> \<not> fl_blocked c \<and> \<not> fl_pending_command c \<and> \<not> fl_close_after_reply c \<and> \<not> fl_close_asap c
     \<and> duration c = 0 \<and> qb_pos c \<le> length (querybuf c)"

definition idle :: "client \<Rightarrow> bool" where
  "idle c \<longleftrightarrow> multibulklen c = 0 \<and> argv c = [] \<and> bulklen c = -1 \<and> reqtype c \<noteq> PROTO_REQ_INLINE"

text \<open>The client is at the request \<open>args\<close>; \<open>cur\<close> are the bytes of it that are not read yet.\<close>

definition req_left :: "client \<Rightarrow> bytes list \<Rightarrow> bytes \<Rightarrow> bool" where
  "req_left c args cur \<longleftrightarrow> idle c \<and> cur = resp_command args
     \<or> (\<exists>rest. args_left c args rest \<and> rest \<noteq> [] \<and> cur = bytes_left c rest)"

lemma quiet_kept: "quiet c \<Longrightarrow> kept c c' \<Longrightarrow> qb_pos c' \<le> length (querybuf c') \<Longrightarrow> quiet c'"
  by (simp add: quiet_def kept_def same_rest_def)

lemma req_left_length: "req_left c args cur \<Longrightarrow> length cur \<le> length (resp_command args)"
  using bytes_left_length by (fastforce simp: req_left_def resp_command_def)

lemma bytes_left_not_Nil: "rest \<noteq> [] \<Longrightarrow> bytes_left c rest \<noteq> []"
  by (cases rest) (auto simp: bytes_left_def resp_bulk_def resp_line_def)

lemma req_left_not_Nil: "req_left c args cur \<Longrightarrow> cur \<noteq> []"
  unfolding req_left_def by (elim disjE exE conjE) (simp_all add: bytes_left_not_Nil)

lemma args_left_pos:
  assumes "args_left c args rest" "rest \<noteq> []"
  shows "0 < multibulklen c" "reqtype c = PROTO_REQ_MULTIBULK"
proof -
  show "0 < multibulklen c" using assms by (cases rest) (auto simp: args_left_def)
  then show "reqtype c = PROTO_REQ_MULTIBULK" using assms by (simp add: args_left_def args_ok_def)
qed

definition read_post :: "client \<Rightarrow> bytes list \<Rightarrow> bytes \<Rightarrow> bytes \<Rightarrow> client \<times> bool \<Rightarrow> bool" where
  "read_post c args s tl_bytes r = (case r of (c', ok) \<Rightarrow> kept c c' \<and> qb_pos c' \<le> length (querybuf c') \<and>
     (if ok then argv c' = args \<and> unread c' @ s = tl_bytes
      else \<exists>cur. req_left c' args cur \<and> unread c' @ s = cur @ tl_bytes \<and> length (unread c') < length cur))"

lemma loop_read_post: "loop_post d args s tl_bytes r \<Longrightarrow> kept c d \<Longrightarrow> read_post c args s tl_bytes r"
  using kept_trans by (fastforce simp: loop_post_def read_post_def req_left_def)

lemma mbulk_header_read:
  assumes c: "idle c" "quiet c" "reqtype c = PROTO_REQ_MULTIBULK" "unread c \<noteq> []"
    and env: "no_auth env" "request_ok env args" and u: "unread c @ s = resp_command args @ tl_bytes"
  obtains "mbulk_header env c = Some (MB_DONE c False)" "length (unread c) < length (resp_command args)"
  | c' where "mbulk_header env c = Some (MB_ARGS c')" "args_left c' args args" "0 < multibulklen c'" "kept c c'"
      "unread c' @ s = bytes_left c' args @ tl_bytes"
proof -
  have line: "unread c @ s = resp_line 42 (int (length args)) @ (concat (map resp_bulk args) @ tl_bytes)"
    using u by (simp add: resp_command_def)
  have n: "is_int64 (int (length args))" "0 < length args" "int (length args) \<le> INT_MAX"
    using env(2) by (auto simp: request_ok_def command_ok_def is_int64_def)
  have auth: "\<not> authRequired env c" using env by (simp add: authRequired_def no_auth_def)
  show thesis
  proof (rule resp_line_read [OF line _ _ n(1)])
    assume "length (unread c) < length (resp_line 42 (int (length args)))" "proto_line c = Inl False"
    then show thesis using that(1) c by (simp add: mbulk_header_def idle_def resp_command_def)
  next
    fix k assume k: "proto_line c = Inr k" "proto_number c k = Some (int (length args))" "c_hd (unread c) = 42"
      "drop (k + 2) (unread c) @ s = concat (map resp_bulk args) @ tl_bytes" "k + 2 \<le> length (unread c)"
    define d where "d = c\<lparr>qb_pos := qb_pos c + k + 2, multibulklen := int (length args), argv_len := nat (min (int (length args)) 1024),
      argv_len_sum := 0\<rparr>"
    have "mbulk_header env c = Some (MB_ARGS d)"
      using k auth n c(1) by (simp add: mbulk_header_def Let_def d_def idle_def)
    moreover have "unread d = drop (k + 2) (unread c)" by (simp add: d_def unread_def add.commute add.left_commute)
    moreover have "args_left d args args"
      using c n k(5) by (auto simp: args_left_def args_ok_def d_def idle_def quiet_def length_unread)
    moreover have "kept c d" by (simp add: kept_def same_rest_def d_def)
    moreover have "bulklen d = -1" "0 < multibulklen d" using c n by (simp_all add: d_def idle_def)
    ultimately show thesis using that(2) [of d] k(4) by (simp add: bytes_left_def)
  qed auto
qed

lemma processMultibulkBuffer_read:
  assumes c: "req_left c args cur" "quiet c" "reqtype c = PROTO_REQ_MULTIBULK" "unread c \<noteq> []"
    and env: "no_auth env" "net_env_ok env" "request_ok env args" and u: "unread c @ s = cur @ tl_bytes"
  shows "\<exists>r. processMultibulkBuffer env c = Some r \<and> read_post c args s tl_bytes r"
proof -
  have loop: "\<exists>r. c_loop (mbulk_step env) d = Some r \<and> read_post c args s tl_bytes r"
    if "args_left d args rest" "kept c d" "unread d @ s = bytes_left d rest @ tl_bytes" for d rest
    using mbulk_loop_read [OF that(1) env that(3)] loop_read_post that(2) by blast
  consider "idle c" "cur = resp_command args" | rest where "args_left c args rest" "rest \<noteq> []" "cur = bytes_left c rest"
    using c(1) by (auto simp: req_left_def)
  then show ?thesis
  proof cases
    case 1
    then have m: "multibulklen c = 0" by (simp add: idle_def)
    show ?thesis
    proof (rule mbulk_header_read [OF 1(1) c(2-4) env(1,3) u [unfolded 1(2)]])
      assume "mbulk_header env c = Some (MB_DONE c False)" "length (unread c) < length (resp_command args)"
      then show ?thesis using m 1 c(2) u by (auto simp: processMultibulkBuffer_def read_post_def req_left_def quiet_def)
    next
      fix d assume "mbulk_header env c = Some (MB_ARGS d)" "args_left d args args" "0 < multibulklen d" "kept c d"
        "unread d @ s = bytes_left d args @ tl_bytes"
      then show ?thesis using m loop [of d args] by (simp add: processMultibulkBuffer_def)
    qed
  next
    case 2
    then have "0 < multibulklen c" using args_left_pos by blast
    then show ?thesis using loop [OF 2(1) kept_refl] u 2(3) by (simp add: processMultibulkBuffer_def)
  qed
qed

end
