(* ===== verification/Resp_Pipeline.thy ===== *)
theory Resp_Pipeline
  imports Resp_Stream
begin

text \<open>
  Pipelining: a stream of commands in the multibulk protocol, cut into pieces at any bytes, is executed command by command in
  the order of the stream, each command as soon as its last byte has arrived.
\<close>

section \<open>The stream\<close>

abbreviation resp_stream :: "bytes list list \<Rightarrow> bytes" where
  "resp_stream reqs \<equiv> concat (map resp_command reqs)"

text \<open>\<open>reqs\<close> are the requests not executed yet, \<open>s\<close> the bytes that have not arrived, \<open>cur\<close> those of the first request not read yet.\<close>

definition pending :: "client \<Rightarrow> bytes \<Rightarrow> bytes list list \<Rightarrow> bytes \<Rightarrow> bool" where
  "pending c s reqs cur \<longleftrightarrow> quiet c \<and> unread c @ s = cur @ resp_stream (tl reqs)
     \<and> (case reqs of [] \<Rightarrow> idle c \<and> cur = [] | r # _ \<Rightarrow> req_left c r cur)"

definition waits :: "client \<Rightarrow> bytes \<Rightarrow> bytes list list \<Rightarrow> bool" where
  "waits c s reqs \<longleftrightarrow> (\<exists>cur. pending c s reqs cur \<and> (reqs = [] \<or> length (unread c) < length cur))"

text \<open>Commands whose effect is \<open>f\<close>, and which leave the client open and not blocked.\<close>

definition exec_runs :: "'w exec \<Rightarrow> ('w \<Rightarrow> bytes list \<Rightarrow> 'w) \<Rightarrow> bool" where
  "exec_runs exec f \<longleftrightarrow> (\<forall>w c. \<exists>c'. exec w c = (f w (argv c), c', True, False) \<and> querybuf c' = querybuf c \<and> qb_pos c' = qb_pos c
     \<and> duration c' = 0 \<and> fl_master c' = fl_master c \<and> fl_blocked c' = fl_blocked c \<and> fl_pending_command c' = fl_pending_command c
     \<and> fl_close_after_reply c' = fl_close_after_reply c \<and> fl_close_asap c' = fl_close_asap c)"

lemma resetClient_idle:
  assumes "quiet c"
  obtains c' where "resetClient c = Some c'" "quiet c'" "idle c'" "unread c' = unread c"
  using assms that by (simp add: resetClient_def freeClientArgv_def Let_def quiet_def idle_def unread_def)

lemma processCommand_runs:
  assumes "exec_runs exec f" "quiet c"
  obtains c' where "processCommandAndResetClient exec w c = Some (f w (argv c), c', True)" "quiet c'" "idle c'"
    "unread c' = unread c"
proof -
  obtain d where d: "exec w c = (f w (argv c), d, True, False)" "querybuf d = querybuf c" "qb_pos d = qb_pos c"
      "duration d = 0" "fl_master d = fl_master c" "fl_blocked d = fl_blocked c" "fl_pending_command d = fl_pending_command c"
      "fl_close_after_reply d = fl_close_after_reply c" "fl_close_asap d = fl_close_asap c"
    using assms(1) unfolding exec_runs_def by blast
  then have "quiet d" "unread d = unread c" using assms(2) by (simp_all add: quiet_def unread_def)
  moreover obtain c' where c': "resetClient d = Some c'" "quiet c'" "idle c'" "unread c' = unread d"
    using resetClient_idle [OF \<open>quiet d\<close>] .
  ultimately show ?thesis
    using d(1) by (intro that [of c']) (simp_all add: processCommandAndResetClient_def commandProcessed_def quiet_def)
qed

definition step_post :: "('w \<Rightarrow> bytes list \<Rightarrow> 'w) \<Rightarrow> 'w \<Rightarrow> bytes \<Rightarrow> bytes list list \<Rightarrow> ('w \<times> client \<times> bool) + ('w \<times> client) \<Rightarrow> bool" where
  "step_post f w s reqs r = (case r of
     Inl (w', c', alive) \<Rightarrow> alive \<and> w' = w \<and> waits c' s reqs
   | Inr (w', c') \<Rightarrow> reqs \<noteq> [] \<and> w' = f w (hd reqs) \<and> (\<exists>cur. pending c' s (tl reqs) cur))"

lemma input_step_request:
  assumes "pending c s (r # rs) cur" "unread c \<noteq> []" "exec_runs exec f" "no_auth env" "net_env_ok env" "\<not> io_threads_reading env"
    "request_ok env r"
  shows "\<exists>x. input_step env exec (w, c) = Some x \<and> step_post f w s (r # rs) x"
proof -
  define d where "d = detect_reqtype c"
  have c: "quiet c" "req_left c r cur" "unread c @ s = cur @ resp_stream rs" using assms(1) by (simp_all add: pending_def)
  have ud: "unread d = unread c" by (simp add: d_def detect_reqtype_def unread_def)
  have qd: "quiet d" using c(1) by (simp add: d_def detect_reqtype_def quiet_def)
  have rd: "req_left d r cur \<and> reqtype d = PROTO_REQ_MULTIBULK"
  proof (cases "idle c \<and> cur = resp_command r")
    case True
    then have "c_hd (unread c) = 42"
      using c(3) assms(2) by (cases "unread c") (auto simp: resp_command_def resp_line_def)
    then show ?thesis
      using True by (cases "reqtype c") (simp_all add: req_left_def d_def detect_reqtype_def idle_def)
  next
    case False
    then obtain rest where "args_left c r rest" "rest \<noteq> []" using c(2) by (auto simp: req_left_def)
    from args_left_pos(2) [OF this] have "d = c" by (simp add: d_def detect_reqtype_def)
    then show ?thesis using c(2) \<open>reqtype c = PROTO_REQ_MULTIBULK\<close> by simp
  qed
  obtain c2 ok where c2: "processMultibulkBuffer env d = Some (c2, ok)" "read_post d r s (resp_stream rs) (c2, ok)"
    using processMultibulkBuffer_read [OF rd [THEN conjunct1] qd rd [THEN conjunct2] _ assms(4,5,7), of s "resp_stream rs"] ud assms(2) c(3) by auto
  have q2: "quiet c2" using c2(2) quiet_kept [OF qd] by (simp add: read_post_def)
  have step: "input_step env exec (w, c) = (if \<not> ok then Some (Inl (w, c2, True))
       else if argv c2 = [] then do { c \<leftarrow> resetClient c2; Some (Inr (w, c)) }
       else do { (w, c, alive) \<leftarrow> processCommandAndResetClient exec w c2;
                 Some (if alive then Inr (w, c) else Inl (w, c, False)) })"
    using c(1) assms(2,6) c2(1) rd
    by (simp add: input_step_def input_stops_def quiet_def read_request_def d_def unread_def)
  show ?thesis
  proof (cases ok)
    case False
    then show ?thesis
      using step c2(2) q2 by (auto simp: step_post_def waits_def pending_def read_post_def)
  next
    case True
    then have a: "argv c2 = r" "unread c2 @ s = resp_stream rs" "r \<noteq> []"
      using c2(2) assms(7) by (auto simp: read_post_def request_ok_def command_ok_def)
    obtain c3 where c3: "processCommandAndResetClient exec w c2 = Some (f w (argv c2), c3, True)" "quiet c3" "idle c3"
        "unread c3 = unread c2"
      using processCommand_runs [OF assms(3) q2] .
    have "pending c3 s rs (case rs of [] \<Rightarrow> [] | r # _ \<Rightarrow> resp_command r)"
      using c3 a(2) by (auto simp: pending_def req_left_def split: list.splits)
    then show ?thesis using step True a c3(1) by (auto simp: step_post_def)
  qed
qed

lemma input_step_stream:
  assumes "pending c s reqs cur" "exec_runs exec f" "no_auth env" "net_env_ok env" "\<not> io_threads_reading env"
    "\<forall>r\<in>set reqs. request_ok env r"
  shows "\<exists>x. input_step env exec (w, c) = Some x \<and> step_post f w s reqs x"
proof (cases "unread c = [] \<or> reqs = []")
  case True
  then have u: "unread c = []" using assms(1) by (cases reqs) (auto simp: pending_def)
  then have "input_step env exec (w, c) = Some (Inl (w, c, True))" by (simp add: input_step_def unread_def)
  moreover have "reqs = [] \<or> length (unread c) < length cur"
    using assms(1) u req_left_not_Nil by (cases reqs) (auto simp: pending_def)
  ultimately show ?thesis using assms(1) by (auto simp: step_post_def waits_def)
next
  case False
  then obtain r rs where "reqs = r # rs" by (cases reqs) auto
  then show ?thesis using input_step_request [OF _ _ assms(2-5), of c s r rs cur w] assms(1,6) False by simp
qed

text \<open>Executing what has arrived: a number of requests, then waiting.\<close>

definition runs_post :: "('w \<Rightarrow> bytes list \<Rightarrow> 'w) \<Rightarrow> 'w \<Rightarrow> bytes \<Rightarrow> bytes list list \<Rightarrow> ('w \<times> client \<times> bool) option \<Rightarrow> bool" where
  "runs_post f w s reqs r \<longleftrightarrow> (\<exists>n c'. n \<le> length reqs \<and> r = Some (foldl f w (take n reqs), c', True) \<and> waits c' s (drop n reqs))"

lemma input_loop_stream:
  assumes "exec_runs exec f" "no_auth env" "net_env_ok env" "\<not> io_threads_reading env"
  shows "pending c s reqs cur \<Longrightarrow> \<forall>r\<in>set reqs. request_ok env r \<Longrightarrow> runs_post f w s reqs (c_loop (input_step env exec) (w, c))"
proof (induction reqs arbitrary: w c cur)
  case Nil
  then obtain x where "input_step env exec (w, c) = Some x" "step_post f w s [] x"
    using input_step_stream [OF Nil.prems(1) assms Nil.prems(2)] by blast
  then show ?case by (auto simp: step_post_def runs_post_def c_loop_step split: sum.splits)
next
  case (Cons r rs)
  then obtain x where x: "input_step env exec (w, c) = Some x" "step_post f w s (r # rs) x"
    using input_step_stream [OF Cons.prems(1) assms Cons.prems(2)] by blast
  show ?case
  proof (cases x)
    case (Inl y)
    then have "c_loop (input_step env exec) (w, c) = Some y" using x(1) by (simp add: c_loop_step)
    then show ?thesis
      using x(2) Inl unfolding runs_post_def by (intro exI [of _ 0]) (auto simp: step_post_def split: prod.splits)
  next
    case (Inr y)
    then obtain c' cur' where y: "y = (f w r, c')" "pending c' s rs cur'" using x(2) by (auto simp: step_post_def)
    have "c_loop (input_step env exec) (w, c) = c_loop (input_step env exec) (f w r, c')"
      using x(1) Inr y(1) by (simp add: c_loop_step)
    moreover have "runs_post f (f w r) s rs (c_loop (input_step env exec) (f w r, c'))" using Cons.IH [OF y(2)] Cons.prems(2) by simp
    then obtain n c'' where "n \<le> length rs" "c_loop (input_step env exec) (f w r, c') = Some (foldl f (f w r) (take n rs), c'', True)"
        "waits c'' s (drop n rs)"
      unfolding runs_post_def by blast
    ultimately show ?thesis unfolding runs_post_def by (intro exI [of _ "Suc n"] exI [of _ c'']) simp
  qed
qed

text \<open>Between two reads the buffer is trimmed.\<close>

definition ready :: "client \<Rightarrow> bytes \<Rightarrow> bytes list list \<Rightarrow> bool" where
  "ready c s reqs \<longleftrightarrow> waits c s reqs \<and> qb_pos c = 0"

lemma pending_buffer:
  assumes "pending c s reqs cur" "unread (c\<lparr>querybuf := q, qb_pos := p, lastinteraction := t\<rparr>) @ s' = unread c @ s" "p \<le> length q"
  shows "pending (c\<lparr>querybuf := q, qb_pos := p, lastinteraction := t\<rparr>) s' reqs cur"
proof -
  let ?c = "c\<lparr>querybuf := q, qb_pos := p, lastinteraction := t\<rparr>"
  have "idle ?c = idle c" "quiet c \<Longrightarrow> quiet ?c" "bytes_left ?c = bytes_left c"
    using assms(3) by (simp_all add: idle_def quiet_def bytes_left_def fun_eq_iff)
  moreover have "args_ok c \<Longrightarrow> args_ok ?c" using assms(3) by (simp add: args_ok_def)
  then have "args_left c args rest \<Longrightarrow> args_left ?c args rest" for args rest by (simp add: args_left_def)
  ultimately have "req_left c args x \<Longrightarrow> req_left ?c args x" for args x unfolding req_left_def by metis
  then show ?thesis
    using assms(1,2) \<open>idle ?c = idle c\<close> \<open>quiet c \<Longrightarrow> quiet ?c\<close> by (cases reqs) (simp_all add: pending_def)
qed

lemma trim_querybuf_ready:
  assumes "waits c s reqs"
  obtains c' where "trim_querybuf c = Some c'" "ready c' s reqs"
proof
  let ?c = "c\<lparr>querybuf := unread c, qb_pos := 0, lastinteraction := lastinteraction c\<rparr>"
  obtain cur where cur: "pending c s reqs cur" "reqs = [] \<or> length (unread c) < length cur" using assms by (auto simp: waits_def)
  then show "trim_querybuf c = Some ?c" by (simp add: pending_def quiet_def trim_querybuf_def)
  have u: "unread (c\<lparr>querybuf := unread c, qb_pos := 0\<rparr>) = unread c" by (simp add: unread_def)
  have "pending ?c s reqs cur" by (rule pending_buffer [OF cur(1)]) (simp_all add: u)
  then show "ready ?c s reqs" using cur(2) u by (auto simp: ready_def waits_def)
qed

lemma pending_append:
  assumes "pending c (data @ s) reqs cur"
  shows "pending (c\<lparr>querybuf := querybuf c @ data, lastinteraction := t\<rparr>) s reqs cur"
proof -
  have q: "qb_pos c \<le> length (querybuf c)" using assms by (simp add: pending_def quiet_def)
  have "pending (c\<lparr>querybuf := querybuf c @ data, qb_pos := qb_pos c, lastinteraction := t\<rparr>) s reqs cur"
    by (rule pending_buffer [OF assms]) (use q in \<open>simp_all add: unread_def\<close>)
  then show ?thesis by simp
qed

lemma readQuery_stream:
  assumes env: "exec_runs exec f" "no_auth env" "net_env_ok env" "\<not> io_threads_reading env" "\<forall>r\<in>set reqs. request_ok env r"
    and c: "ready c (data @ s) reqs" and limit: "\<forall>r\<in>set reqs. length (resp_command r) + length data \<le> client_max_querybuf_len env"
  obtains n c' where "n \<le> length reqs" "ready c' s (drop n reqs)"
    "readQueryFromClient env exec (READ_DATA data) w c = Some (foldl f w (take n reqs), c', True)"
proof -
  obtain cur where cur: "pending c (data @ s) reqs cur" "reqs = [] \<or> length (unread c) < length cur" and q0: "qb_pos c = 0"
    using c by (auto simp: ready_def waits_def)
  define d where "d = c\<lparr>querybuf := querybuf c @ data, lastinteraction := unixtime env\<rparr>"
  have d: "pending d s reqs cur" unfolding d_def by (rule pending_append [OF cur(1)])
  have m: "\<not> fl_master c" using cur(1) by (simp add: pending_def quiet_def)
  have len: "length (querybuf d) \<le> client_max_querybuf_len env"
  proof (cases reqs)
    case Nil
    then have "unread c @ data @ s = []" using cur(1) by (simp add: pending_def)
    then show ?thesis using q0 by (simp add: d_def unread_def)
  next
    case (Cons r rs)
    then have "length cur \<le> length (resp_command r)" using cur(1) req_left_length [of c r cur] by (simp add: pending_def)
    moreover have "length (unread c) < length cur" "unread c = querybuf c" using cur(2) Cons q0 by (simp_all add: unread_def)
    ultimately show ?thesis using limit Cons by (simp add: d_def)
  qed
  then have read: "readQueryFromClient env exec (READ_DATA data) w c = processInputBuffer env exec w d"
    using m by (simp add: readQueryFromClient_def d_def)
  obtain n e where n: "n \<le> length reqs" "c_loop (input_step env exec) (w, d) = Some (foldl f w (take n reqs), e, True)"
      "waits e s (drop n reqs)"
    using input_loop_stream [OF env(1-4) d env(5)] unfolding runs_post_def by blast
  obtain c' where "trim_querybuf e = Some c'" "ready c' s (drop n reqs)" using trim_querybuf_ready [OF n(3)] .
  then show ?thesis using that [OF n(1)] n(2) read by (simp add: processInputBuffer_def)
qed

lemma read_all_stream:
  assumes env: "exec_runs exec f" "no_auth env" "net_env_ok env" "\<not> io_threads_reading env"
  shows "ready c (concat pieces @ s) reqs \<Longrightarrow> \<forall>r\<in>set reqs. request_ok env r \<Longrightarrow>
    \<forall>r\<in>set reqs. \<forall>d\<in>set pieces. length (resp_command r) + length d \<le> client_max_querybuf_len env \<Longrightarrow>
    \<exists>n c'. n \<le> length reqs \<and> read_all env exec (map READ_DATA pieces) w c = Some (foldl f w (take n reqs), c', True)
      \<and> ready c' s (drop n reqs)"
proof (induction pieces arbitrary: w c reqs)
  case Nil
  then show ?case by (intro exI [of _ 0] exI [of _ c]) simp
next
  case (Cons d pieces)
  obtain n c1 where n: "n \<le> length reqs" "ready c1 (concat pieces @ s) (drop n reqs)"
      "readQueryFromClient env exec (READ_DATA d) w c = Some (foldl f w (take n reqs), c1, True)"
    by (rule readQuery_stream [OF env Cons.prems(2), of c d "concat pieces @ s" w thesis for thesis])
       (use Cons.prems in simp_all)
  have sub: "set (drop n reqs) \<subseteq> set reqs" by (rule set_drop_subset)
  obtain m c2 where m: "m \<le> length (drop n reqs)" "ready c2 s (drop m (drop n reqs))"
      "read_all env exec (map READ_DATA pieces) (foldl f w (take n reqs)) c1
        = Some (foldl f (foldl f w (take n reqs)) (take m (drop n reqs)), c2, True)"
    using Cons.IH [OF n(2), of "foldl f w (take n reqs)"] Cons.prems(2,3) sub by (meson list.set_intros(2) subsetD)
  have "foldl f (foldl f w (take n reqs)) (take m (drop n reqs)) = foldl f w (take (n + m) reqs)"
    by (simp only: take_add foldl_append)
  then show ?case using n m by (intro exI [of _ "n + m"] exI [of _ c2]) (simp_all add: add.commute)
qed

lemma ready_bounds:
  assumes "ready c s (drop n reqs)" "n \<le> length reqs" "resp_stream reqs = t @ s"
  shows "length (resp_stream (take n reqs)) \<le> length t"
    "n < length reqs \<Longrightarrow> length t < length (resp_stream (take (Suc n) reqs))"
proof -
  obtain cur where cur: "pending c s (drop n reqs) cur" "drop n reqs = [] \<or> length (unread c) < length cur"
    using assms(1) by (auto simp: ready_def waits_def)
  have split: "resp_stream reqs = resp_stream (take n reqs) @ resp_stream (drop n reqs)"
    by (metis append_take_drop_id concat_append map_append)
  have tot: "length t + length s = length (resp_stream (take n reqs)) + length (resp_stream (drop n reqs))"
    using arg_cong [OF assms(3), of length] by (simp add: split)
  have u: "length (unread c) + length s = length cur + length (resp_stream (tl (drop n reqs)))"
    using arg_cong [of _ _ length] cur(1) unfolding pending_def by (metis length_append)
  show "length (resp_stream (take n reqs)) \<le> length t"
  proof (cases "drop n reqs")
    case Nil
    then show ?thesis using tot u cur(1) by (simp add: pending_def)
  next
    case (Cons r rs)
    then have "length cur \<le> length (resp_command r)" using cur(1) req_left_length [of c r cur] by (simp add: pending_def)
    then show ?thesis using tot u Cons by simp
  qed
  assume less: "n < length reqs"
  then have "length (resp_stream (tl (drop n reqs))) < length s" using cur(2) u by simp
  moreover have "take (Suc n) reqs = take n reqs @ [reqs ! n]" "drop n reqs = reqs ! n # tl (drop n reqs)"
    using less by (simp_all add: take_Suc_conv_app_nth Cons_nth_drop_Suc [symmetric] drop_Suc tl_drop)
  then have "length (resp_stream (drop n reqs)) = length (resp_command (reqs ! n)) + length (resp_stream (tl (drop n reqs)))"
    "length (resp_stream (take (Suc n) reqs)) = length (resp_stream (take n reqs)) + length (resp_command (reqs ! n))"
    by (metis concat.simps(2) length_append list.simps(9), simp)
  ultimately show "length t < length (resp_stream (take (Suc n) reqs))" using tot by linarith
qed

lemma createClient_ready: "ready (createClient env) (resp_stream reqs) reqs"
proof -
  have "pending (createClient env) (resp_stream reqs) reqs (case reqs of [] \<Rightarrow> [] | r # _ \<Rightarrow> resp_command r)"
    by (auto simp: createClient_def pending_def quiet_def idle_def req_left_def unread_def split: list.splits)
  moreover have "unread (createClient env) = []" by (simp add: createClient_def unread_def)
  moreover have "qb_pos (createClient env) = 0" by (simp add: createClient_def)
  ultimately show ?thesis unfolding ready_def waits_def by (cases reqs) auto
qed

section \<open>Property\<close>


text \<open>Two commands, cut in the middle of a header and of an argument, the end of the second one missing.\<close>

definition append_exec :: "bytes list list exec" where
  "append_exec w c = (w @ [argv c], c\<lparr>duration := 0\<rparr>, True, False)"

definition ex_requests :: "bytes list list" where
  "ex_requests = [[[65]], [[66, 67], []]]"

definition ex_pieces :: "bytes list" where
  "ex_pieces = [[42, 49, 13], [10, 36, 49, 13, 10, 65, 13, 10, 42, 50, 13, 10, 36, 50, 13, 10, 66]]"


end
