(* ===== verification/Spec2Isabelle.thy ===== *)
theory Spec2Isabelle
  imports Util_Num Util_Glob Intset Listpack_Props Dict_Props Set_Type_Props Hash_Type_Props Aof_Crash_Examples Resp_Pipeline
begin

text \<open>
  Verification of the Redis 7.2.3 server core vendored under \<open>src/redis/redis-7.2.3/src\<close>.
\<close>

end
